(* ===== verification/Smash_Prelude.thy ===== *)
theory Smash_Prelude
  imports Main "HOL-Library.Word" "HOL-Library.Signed_Division"
begin

text \<open>
  What every component shares: the result of a C operation, the C integer conversions and
  the checked accesses to an allocated object.

  A C operation ends in one of three ways, constructors of \<open>res\<close>: it returns a value
  (\<open>Ok\<close>), it takes one of the source's error exits and returns an error code (\<open>Err\<close>), or
  it does something the C standard gives no meaning to (\<open>Undef\<close>: an access outside the
  object, a signed overflow of \<open>int\<close>, a shift by too much).  \<open>Timeout\<close> is for the loops
  that may go on forever: it says that the fuel the model was given was not enough.  Machine integers that the code
  lets wrap are words; the \<open>int\<close> variables of the C code are HOL integers with the
  conversions (\<open>to_u32\<close>, \<open>to_s32\<close>) written where C converts and with \<open>c_int\<close> where C
  arithmetic on \<open>int\<close> may overflow; the \<open>long long\<close> variables are HOL integers.
\<close>

unbundle bit_operations_syntax

type_synonym byte = "8 word"
type_synonym u32 = "32 word"
type_synonym memory = "byte list"

section \<open>Results of C operations\<close>

text \<open>\<open>Minus1\<close> is the plain -1 the tools return; the others are the kernel's error codes.\<close>

datatype failure = Minus1 | ENOMEM | EIO | EINVAL | ENOENT

datatype 'a res = Ok 'a | Err failure | Undef | Timeout

fun rbind :: "'a res \<Rightarrow> ('a \<Rightarrow> 'b res) \<Rightarrow> 'b res" where
  "rbind (Ok a) f = f a"
| "rbind (Err e) f = Err e"
| "rbind Undef f = Undef"
| "rbind Timeout f = Timeout"

lemma rbind_cong [fundef_cong]:
  "m = m' \<Longrightarrow> (\<And>a. m' = Ok a \<Longrightarrow> f a = f' a) \<Longrightarrow> rbind m f = rbind m' f'"
  by (cases m') auto

lemma rbind_assoc: "rbind (rbind m f) g = rbind m (\<lambda>x. rbind (f x) g)"
  by (cases m) auto

lemma rbind_Ok_right [simp]: "rbind m Ok = m"
  by (cases m) auto

lemma rbind_eq_Ok [simp]: "rbind m f = Ok b \<longleftrightarrow> (\<exists>a. m = Ok a \<and> f a = Ok b)"
  by (cases m) auto

lemma rbind_eq_Err: "rbind m f = Err e \<longleftrightarrow> m = Err e \<or> (\<exists>a. m = Ok a \<and> f a = Err e)"
  by (cases m) auto

lemma rbind_eq_Undef: "rbind m f = Undef \<longleftrightarrow> m = Undef \<or> (\<exists>a. m = Ok a \<and> f a = Undef)"
  by (cases m) auto

lemma rbind_eq_Timeout: "rbind m f = Timeout \<longleftrightarrow> m = Timeout \<or> (\<exists>a. m = Ok a \<and> f a = Timeout)"
  by (cases m) auto

text \<open>An early return of the source: go on when the condition holds, else leave with \<open>e\<close>.\<close>

definition check :: "bool \<Rightarrow> failure \<Rightarrow> unit res" where
  "check c e = (if c then Ok () else Err e)"

lemma check_simps [simp]:
  "c \<Longrightarrow> check c e = Ok ()"
  "\<not> c \<Longrightarrow> check c e = Err e"
  by (simp_all add: check_def)

lemma check_eq_Ok [simp]: "check c e = Ok u \<longleftrightarrow> c"
  by (simp add: check_def)

text \<open>A loop over a list that passes a state along and stops at the first bad end.\<close>

fun rfold :: "('a \<Rightarrow> 's \<Rightarrow> 's res) \<Rightarrow> 'a list \<Rightarrow> 's \<Rightarrow> 's res" where
  "rfold f [] s = Ok s"
| "rfold f (x # xs) s = rbind (f x s) (rfold f xs)"

lemma rfold_append: "rfold f (xs @ ys) s = rbind (rfold f xs s) (rfold f ys)"
proof (induction xs arbitrary: s)
  case (Cons x xs)
  then have "rfold f (xs @ ys) = (\<lambda>s. rbind (rfold f xs s) (rfold f ys))" by blast
  then show ?case by (simp add: rbind_assoc)
qed simp

text \<open>An invariant of the body is an invariant of the loop.\<close>

lemma rfold_invariant:
  assumes "rfold f xs s = Ok s'" and "P s"
    and "\<And>x s s'. x \<in> set xs \<Longrightarrow> P s \<Longrightarrow> f x s = Ok s' \<Longrightarrow> P s'"
  shows "P s'"
  using assms by (induction xs arbitrary: s) auto

section \<open>C integers\<close>

abbreviation to_u32 :: "int \<Rightarrow> u32" where
  "to_u32 \<equiv> word_of_int"

definition to_s32 :: "int \<Rightarrow> int" where
  "to_s32 x = signed_take_bit 31 x"

definition to_s64 :: "int \<Rightarrow> int" where
  "to_s64 x = signed_take_bit 63 x"

text \<open>The value of an integer after its conversion to \<open>unsigned int\<close>.\<close>

definition as_u32 :: "int \<Rightarrow> int" where
  "as_u32 x = x mod 2 ^ 32"

definition is_s32 :: "int \<Rightarrow> bool" where
  "is_s32 x \<longleftrightarrow> - (2 ^ 31) \<le> x \<and> x < 2 ^ 31"

text \<open>The result of an arithmetic operation on \<open>int\<close>; out of range it is undefined.\<close>

definition c_int :: "int \<Rightarrow> int res" where
  "c_int x = (if is_s32 x then Ok x else Undef)"

lemma c_int_Ok [simp]: "- 2147483648 \<le> x \<Longrightarrow> x < 2147483648 \<Longrightarrow> c_int x = Ok x"
  by (simp add: c_int_def is_s32_def)

lemma c_int_eq_Ok: "c_int x = Ok y \<longleftrightarrow> y = x \<and> - 2147483648 \<le> x \<and> x < 2147483648"
  by (auto simp: c_int_def is_s32_def)

lemma to_s32_id [simp]: "- 2147483648 \<le> x \<Longrightarrow> x < 2147483648 \<Longrightarrow> to_s32 x = x"
  by (simp add: to_s32_def signed_take_bit_int_eq_self)

lemma to_s32_sign: "0 \<le> x \<Longrightarrow> x < 4294967296 \<Longrightarrow> 0 \<le> to_s32 x \<Longrightarrow> to_s32 x = x"
  by (cases "odd (x div 2147483648)")
    (auto simp: to_s32_def signed_take_bit_eq_take_bit_minus take_bit_int_eq_self bit_iff_odd)

lemma as_u32_id [simp]: "0 \<le> x \<Longrightarrow> x < 4294967296 \<Longrightarrow> as_u32 x = x"
  by (simp add: as_u32_def)

lemma as_u32_uint: "as_u32 x = uint (to_u32 x)"
  by (simp add: as_u32_def uint_word_of_int)

lemma to_s64_id: "- 9223372036854775808 \<le> x \<Longrightarrow> x < 9223372036854775808 \<Longrightarrow> to_s64 x = x"
  by (simp add: to_s64_def signed_take_bit_int_eq_self)

lemma uint_to_u32_id [simp]: "0 \<le> x \<Longrightarrow> x < 4294967296 \<Longrightarrow> uint (to_u32 x) = x"
  by (simp add: uint_word_of_int)

lemma sint_to_u32_id [simp]: "0 \<le> x \<Longrightarrow> x < 2147483648 \<Longrightarrow> sint (to_u32 x) = x"
  by (simp add: sint_sbintrunc' signed_take_bit_int_eq_self)

lemma sint_eq_uint_small: "uint (w :: u32) < 2147483648 \<Longrightarrow> sint w = uint w"
  using sint_to_u32_id [of "uint w"] by simp

lemma uint_le_int_iff [simp]: "uint (w :: 'a::len word) \<le> int k \<longleftrightarrow> unat w \<le> k"
  by (metis nat_le_iff nat_uint_eq)

lemma nat_uint [simp]: "nat (uint w) = unat w"
  by (rule nat_uint_eq)

text \<open>C's truncating division and remainder agree with \<open>div\<close> and \<open>mod\<close> from 0 up.\<close>

lemma sdiv_nonneg [simp]: "0 \<le> (i :: int) \<Longrightarrow> 0 < k \<Longrightarrow> i sdiv k = i div k"
  by (auto simp: signed_divide_int_def sgn_if)

lemma smod_nonneg [simp]: "0 \<le> (i :: int) \<Longrightarrow> 0 < k \<Longrightarrow> i smod k = i mod k"
  by (auto simp: signed_modulo_int_def sgn_if)

text \<open>\<open>x & ((1 << k) - 1)\<close> and \<open>x >> k\<close> as the remainder and the quotient by \<open>2 ^ k\<close>.\<close>

lemma and_pow2_minus_1: "(x :: int) AND (2 ^ k - 1) = x mod 2 ^ k"
  by (simp flip: mask_eq_exp_minus_1 take_bit_eq_mod add: take_bit_eq_mask)

lemma shiftr_div: "drop_bit k (x :: int) = x div 2 ^ k"
  by (simp add: drop_bit_eq_div)

text \<open>Numbers of blocks: quotients rounded down and up.\<close>

lemma le_div_iff:
  assumes "0 < (m :: int)"
  shows "i \<le> n div m \<longleftrightarrow> i * m \<le> n"
proof
  assume "i \<le> n div m"
  then have "i * m \<le> n div m * m" using assms by (intro mult_right_mono) auto
  also have "\<dots> \<le> n" using div_mult_mod_eq [of n m] pos_mod_sign [OF assms, of n] by linarith
  finally show "i * m \<le> n" .
next
  assume "i * m \<le> n"
  then have "i * m div m \<le> n div m" using assms by (rule zdiv_mono1)
  with assms show "i \<le> n div m" by simp
qed

lemma less_ceil_div:
  assumes "0 < (m :: int)"
  shows "i < (n + (m - 1)) div m \<longleftrightarrow> i * m < n"
  using le_div_iff [OF assms, of "i + 1" "n + (m - 1)"] by (auto simp: distrib_right)
section \<open>Checked accesses to an object\<close>

text \<open>
  \<open>alloc n\<close> says whether \<open>malloc (n)\<close> (\<open>kmalloc\<close>, \<open>kmem_cache_alloc\<close>) returns an
  object of \<open>n\<close> bytes; the size is converted to \<open>size_t\<close>, so a negative one is huge.
  \<open>heap_ok\<close>: requests below \<open>2 ^ 62\<close> bytes are met.
\<close>

type_synonym heap = "int \<Rightarrow> bool"

definition malloc_ok :: "heap \<Rightarrow> int \<Rightarrow> bool" where
  "malloc_ok alloc n = alloc (n mod 2 ^ 64)"

definition heap_ok :: "heap \<Rightarrow> bool" where
  "heap_ok alloc \<longleftrightarrow> (\<forall>n. 0 \<le> n \<and> n < 2 ^ 62 \<longrightarrow> alloc n)"

lemma heap_okD [simp]:
  "heap_ok alloc \<Longrightarrow> 0 \<le> n \<Longrightarrow> n < 4611686018427387904 \<Longrightarrow> malloc_ok alloc n"
  by (simp add: heap_ok_def malloc_ok_def)

definition mem_get :: "memory \<Rightarrow> int \<Rightarrow> byte res" where
  "mem_get m i = (if 0 \<le> i \<and> i < int (length m) then Ok (m ! nat i) else Undef)"

text \<open>\<open>memcpy\<close> out of an object: \<open>n\<close> bytes from offset \<open>i\<close>, all of them inside.\<close>

definition mem_slice :: "memory \<Rightarrow> int \<Rightarrow> int \<Rightarrow> memory res" where
  "mem_slice m i n =
     (if 0 \<le> i \<and> 0 \<le> n \<and> i + n \<le> int (length m)
      then Ok (take (nat n) (drop (nat i) m)) else Undef)"

text \<open>\<open>memcpy\<close> into an object at offset \<open>i\<close>.\<close>

definition mem_write :: "memory \<Rightarrow> int \<Rightarrow> memory \<Rightarrow> memory res" where
  "mem_write m i d =
     (if 0 \<le> i \<and> i + int (length d) \<le> int (length m)
      then Ok (take (nat i) m @ d @ drop (nat i + length d) m) else Undef)"

lemma mem_get_Ok [simp]: "0 \<le> i \<Longrightarrow> i < int (length m) \<Longrightarrow> mem_get m i = Ok (m ! nat i)"
  by (simp add: mem_get_def)

lemma mem_get_eq_Ok: "mem_get m i = Ok v \<longleftrightarrow> 0 \<le> i \<and> i < int (length m) \<and> v = m ! nat i"
  by (auto simp: mem_get_def)

lemma mem_slice_Ok [simp]:
  "0 \<le> i \<Longrightarrow> 0 \<le> n \<Longrightarrow> i + n \<le> int (length m) \<Longrightarrow>
    mem_slice m i n = Ok (take (nat n) (drop (nat i) m))"
  by (simp add: mem_slice_def)

lemma mem_slice_eq_Ok:
  "mem_slice m i n = Ok d \<longleftrightarrow>
    0 \<le> i \<and> 0 \<le> n \<and> i + n \<le> int (length m) \<and> d = take (nat n) (drop (nat i) m)"
  by (auto simp: mem_slice_def)

lemma mem_slice_length: "mem_slice m i n = Ok d \<Longrightarrow> int (length d) = n"
  by (auto simp: mem_slice_eq_Ok)

lemma mem_write_Ok [simp]:
  "0 \<le> i \<Longrightarrow> i + int (length d) \<le> int (length m) \<Longrightarrow>
    mem_write m i d = Ok (take (nat i) m @ d @ drop (nat i + length d) m)"
  by (simp add: mem_write_def)

lemma mem_write_length: "mem_write m i d = Ok m' \<Longrightarrow> length m' = length m"
  by (auto simp: mem_write_def split: if_splits)

lemma mem_write_slice:
  assumes "mem_write m i d = Ok m'"
  shows "mem_slice m' i (int (length d)) = Ok d"
  using assms by (auto simp: mem_write_def split: if_splits)

text \<open>Two slices that touch are one slice.\<close>

lemma take_drop_append:
  "take a (drop i xs) @ take b (drop (i + a) xs) = take (a + b) (drop i xs)"
  by (metis add.commute drop_drop take_add)

end
