(* ===== verification/Smashfs_Format.thy ===== *)
theory Smashfs_Format
  imports Smash_Prelude
begin

text \<open>
  \<open>src/include/smashfs.h\<close>: the constants and the super block of the on-disk format, shared
  by \<open>mkfs.smashfs\<close>, \<open>unfs.smashfs\<close> and the kernel module.  Its fields are
  \<open>uint32_t\<close>, and the structure is packed: the code writes and reads its bytes as they are
  in memory, here those of a little-endian machine.
\<close>

unbundle bit_operations_syntax

section \<open>Constants\<close>

definition SMASHFS_MKTAG :: "u32 \<Rightarrow> u32 \<Rightarrow> u32 \<Rightarrow> u32 \<Rightarrow> u32" where
  "SMASHFS_MKTAG a b c d = push_bit 24 a OR push_bit 16 b OR push_bit 8 c OR push_bit 0 d"

definition SMASHFS_MAGIC :: u32 where
  "SMASHFS_MAGIC = SMASHFS_MKTAG 0x53 0x4D 0x53 0x48"

definition SMASHFS_VERSION_0 :: u32 where
  "SMASHFS_VERSION_0 = SMASHFS_MKTAG 0x56 0x30 0x30 0x30"

definition SMASHFS_START :: int where
  "SMASHFS_START = 0"

text \<open>The enumerations; a number read from an image need not be one of their values.\<close>

datatype compression_type =
  compression_type_none | compression_type_gzip | compression_type_lzma
| compression_type_lzo | compression_type_xz

fun compression_code :: "compression_type \<Rightarrow> u32" where
  "compression_code compression_type_none = 0"
| "compression_code compression_type_gzip = 1"
| "compression_code compression_type_lzma = 2"
| "compression_code compression_type_lzo = 3"
| "compression_code compression_type_xz = 4"

datatype inode_type =
  regular_file | directory | symbolic_link | character_device | block_device | fifo | socket

fun inode_code :: "inode_type \<Rightarrow> int" where
  "inode_code regular_file = 1"
| "inode_code directory = 2"
| "inode_code symbolic_link = 3"
| "inode_code character_device = 4"
| "inode_code block_device = 5"
| "inode_code fifo = 6"
| "inode_code socket = 7"

datatype inode_mode = mode_read | mode_write | mode_execute

fun mode_code :: "inode_mode \<Rightarrow> int" where
  "mode_code mode_read = 1"
| "mode_code mode_write = 2"
| "mode_code mode_execute = 4"

lemma compression_code_inject: "compression_code a = compression_code b \<longleftrightarrow> a = b"
  by (cases a; cases b) auto

lemma inode_code_inject: "inode_code a = inode_code b \<longleftrightarrow> a = b"
  by (cases a; cases b) auto

section \<open>The super block\<close>

text \<open>\<open>bits.inode\<close>, with the widths of a directory and of its entries.\<close>

record inode_bits =
  ib_type :: u32
  ib_owner_mode :: u32
  ib_group_mode :: u32
  ib_other_mode :: u32
  ib_uid :: u32
  ib_gid :: u32
  ib_ctime :: u32
  ib_mtime :: u32
  ib_size :: u32
  ib_block :: u32
  ib_index :: u32
  ib_parent :: u32
  ib_nentries :: u32
  ib_entry_number :: u32
  ib_entry_length :: u32
  ib_entry_type :: u32

text \<open>\<open>bits.block\<close> and \<open>min\<close>.\<close>

record block_bits =
  kb_offset :: u32
  kb_compressed_size :: u32
  kb_size :: u32

record super_min =
  min_ctime :: u32
  min_mtime :: u32
  min_compressed_size :: u32

record super_block =
  sb_magic :: u32
  sb_version :: u32
  sb_ctime :: u32
  sb_inodes :: u32
  sb_blocks :: u32
  sb_block_size :: u32
  sb_block_log2 :: u32
  sb_root :: u32
  sb_inodes_offset :: u32
  sb_inodes_size :: u32
  sb_inodes_csize :: u32
  sb_blocks_offset :: u32
  sb_blocks_size :: u32
  sb_entries_offset :: u32
  sb_entries_size :: u32
  sb_compression_type :: u32
  sb_ibits :: inode_bits
  sb_kbits :: block_bits
  sb_min :: super_min

text \<open>The structure as the words it is made of, in order, and back.\<close>

definition super_words :: "super_block \<Rightarrow> u32 list" where
  "super_words s =
    [sb_magic s, sb_version s, sb_ctime s, sb_inodes s, sb_blocks s, sb_block_size s,
     sb_block_log2 s, sb_root s, sb_inodes_offset s, sb_inodes_size s, sb_inodes_csize s,
     sb_blocks_offset s, sb_blocks_size s, sb_entries_offset s, sb_entries_size s,
     sb_compression_type s] @
    (let i = sb_ibits s in
    [ib_type i, ib_owner_mode i, ib_group_mode i, ib_other_mode i, ib_uid i, ib_gid i,
     ib_ctime i, ib_mtime i, ib_size i, ib_block i, ib_index i, ib_parent i, ib_nentries i,
     ib_entry_number i, ib_entry_length i, ib_entry_type i]) @
    (let k = sb_kbits s in [kb_offset k, kb_compressed_size k, kb_size k]) @
    (let m = sb_min s in [min_ctime m, min_mtime m, min_compressed_size m])"

definition super_of_words :: "u32 list \<Rightarrow> super_block" where
  "super_of_words w =
    \<lparr>sb_magic = w ! 0, sb_version = w ! 1, sb_ctime = w ! 2, sb_inodes = w ! 3,
     sb_blocks = w ! 4, sb_block_size = w ! 5, sb_block_log2 = w ! 6, sb_root = w ! 7,
     sb_inodes_offset = w ! 8, sb_inodes_size = w ! 9, sb_inodes_csize = w ! 10,
     sb_blocks_offset = w ! 11, sb_blocks_size = w ! 12, sb_entries_offset = w ! 13,
     sb_entries_size = w ! 14, sb_compression_type = w ! 15,
     sb_ibits = \<lparr>ib_type = w ! 16, ib_owner_mode = w ! 17, ib_group_mode = w ! 18,
       ib_other_mode = w ! 19, ib_uid = w ! 20, ib_gid = w ! 21, ib_ctime = w ! 22,
       ib_mtime = w ! 23, ib_size = w ! 24, ib_block = w ! 25, ib_index = w ! 26,
       ib_parent = w ! 27, ib_nentries = w ! 28, ib_entry_number = w ! 29,
       ib_entry_length = w ! 30, ib_entry_type = w ! 31\<rparr>,
     sb_kbits = \<lparr>kb_offset = w ! 32, kb_compressed_size = w ! 33, kb_size = w ! 34\<rparr>,
     sb_min = \<lparr>min_ctime = w ! 35, min_mtime = w ! 36, min_compressed_size = w ! 37\<rparr>\<rparr>"

lemma length_super_words [simp]: "length (super_words s) = 38"
  by (simp add: super_words_def Let_def)

lemma super_of_words_words: "super_of_words (super_words s) = s"
  by (simp add: super_of_words_def super_words_def Let_def)

section \<open>Its bytes\<close>

definition word_bytes :: "u32 \<Rightarrow> memory" where
  "word_bytes w = [ucast w, ucast (drop_bit 8 w), ucast (drop_bit 16 w), ucast (drop_bit 24 w)]"

definition bytes_word :: "memory \<Rightarrow> u32" where
  "bytes_word m =
     ucast (m ! 0) OR push_bit 8 (ucast (m ! 1)) OR push_bit 16 (ucast (m ! 2))
       OR push_bit 24 (ucast (m ! 3))"

definition sizeof_super :: int where
  "sizeof_super = 152"

definition super_bytes :: "super_block \<Rightarrow> memory" where
  "super_bytes s = concat (map word_bytes (super_words s))"

fun words_of_bytes :: "nat \<Rightarrow> memory \<Rightarrow> u32 list" where
  "words_of_bytes 0 m = []"
| "words_of_bytes (Suc n) m = bytes_word m # words_of_bytes n (drop 4 m)"

definition super_of_bytes :: "memory \<Rightarrow> super_block" where
  "super_of_bytes m = super_of_words (words_of_bytes 38 m)"

lemma length_word_bytes [simp]: "length (word_bytes w) = 4"
  by (simp add: word_bytes_def)

lemma bytes_word_bytes: "bytes_word (word_bytes w @ m) = w"
proof (rule bit_eqI)
  fix q
  assume "possible_bit TYPE(u32) q"
  then have "q < 32" by simp
  then have "q < 8 \<or> (8 \<le> q \<and> q < 16) \<or> (16 \<le> q \<and> q < 24) \<or> (24 \<le> q \<and> q < 32)"
    by linarith
  then show "bit (bytes_word (word_bytes w @ m)) q = bit w q"
    by (elim disjE conjE)
      (simp_all add: bytes_word_def word_bytes_def bit_or_iff bit_push_bit_iff bit_unsigned_iff
        bit_drop_bit_eq less_diff_conv2)
qed

lemma words_of_bytes_concat:
  "words_of_bytes (length ws) (concat (map word_bytes ws) @ m) = ws"
  by (induction ws) (simp_all add: bytes_word_bytes)

lemma length_super_bytes [simp]: "length (super_bytes s) = 152"
proof -
  have "length (concat (map word_bytes ws)) = 4 * length ws" for ws
    by (induction ws) simp_all
  then show ?thesis by (simp add: super_bytes_def)
qed

lemma super_of_super_bytes [simp]:
  "super_of_bytes (super_bytes s @ rest) = s" "super_of_bytes (super_bytes s) = s"
  using words_of_bytes_concat [of "super_words s" rest] words_of_bytes_concat [of "super_words s" "[]"]
  by (simp_all add: super_of_bytes_def super_of_words_words flip: super_bytes_def)

section \<open>Properties\<close>


end
