(* ===== verification/Uthash.thy ===== *)
theory Uthash
  imports Smash_Prelude "HOL-Library.Multiset"
begin

text \<open>
  \<open>src/mkfs/uthash.h\<close>, as far as \<open>mkfs.smashfs\<close> uses it: the elements of a table in
  the order of its \<open>hh.next\<close> chain (the order in which \<open>HASH_ITER\<close> visits them), with
  \<open>HASH_ADD\<close>, \<open>HASH_DEL\<close>, \<open>HASH_CNT\<close> and the merge sort \<open>HASH_SRT\<close>.  The buckets
  behind the chain are in \<open>Uthash_Table\<close>.
\<close>

section \<open>The chain\<close>

definition HASH_ADD :: "'a list \<Rightarrow> 'a \<Rightarrow> 'a list" where
  "HASH_ADD t x = t @ [x]"

definition HASH_DEL :: "'a list \<Rightarrow> 'a \<Rightarrow> 'a list" where
  "HASH_DEL t x = remove1 x t"

definition HASH_CNT :: "'a list \<Rightarrow> u32" where
  "HASH_CNT t = of_nat (length t)"

section \<open>The merge sort\<close>

text \<open>
  One merge: \<open>ps\<close> is the run of \<open>psize\<close> elements at \<open>_hs_p\<close>, \<open>qs\<close> the chain from
  \<open>_hs_q\<close> on, of which at most \<open>qsize\<close> elements are taken.  The result is the merged
  run and the chain that is left at \<open>_hs_q\<close>.
\<close>

fun srt_merge :: "('a \<Rightarrow> 'a \<Rightarrow> int) \<Rightarrow> 'a list \<Rightarrow> nat \<Rightarrow> 'a list \<Rightarrow> 'a list \<times> 'a list" where
  "srt_merge cmp [] 0 qs = ([], qs)"
| "srt_merge cmp [] qsize [] = ([], [])"
| "srt_merge cmp [] (Suc qsize) (q # qs) = apfst ((#) q) (srt_merge cmp [] qsize qs)"
| "srt_merge cmp (p # ps) 0 qs = apfst ((#) p) (srt_merge cmp ps 0 qs)"
| "srt_merge cmp (p # ps) qsize [] = apfst ((#) p) (srt_merge cmp ps qsize [])"
| "srt_merge cmp (p # ps) (Suc qsize) (q # qs) =
     (if cmp p q \<le> 0 then apfst ((#) p) (srt_merge cmp ps (Suc qsize) (q # qs))
      else apfst ((#) q) (srt_merge cmp (p # ps) qsize qs))"

lemma snd_srt_merge: "snd (srt_merge cmp ps k qs) = drop k qs"
  by (induction cmp ps k qs rule: srt_merge.induct) auto

text \<open>One pass over the chain with \<open>_hs_insize = 2 ^ e\<close>: the number of merges, the chain.\<close>

function srt_pass :: "('a \<Rightarrow> 'a \<Rightarrow> int) \<Rightarrow> nat \<Rightarrow> 'a list \<Rightarrow> nat \<times> 'a list" where
  "srt_pass cmp e xs =
     (if xs = [] then (0, [])
      else let (run, rest) = srt_merge cmp (take (2 ^ e) xs) (2 ^ e) (drop (2 ^ e) xs);
               (nmerges, out) = srt_pass cmp e rest
           in (Suc nmerges, run @ out))"
  by pat_completeness auto
termination
proof (relation "measure (\<lambda>(cmp, e, xs). length xs)", goal_cases)
  case (2 cmp e xs x run rest)
  then have "rest = drop (2 ^ e) (drop (2 ^ e) xs)"
    by (metis snd_conv snd_srt_merge)
  moreover have "(0 :: nat) < 2 ^ e" by simp
  ultimately show ?case using 2(1) by (cases xs) auto
qed simp

declare srt_pass.simps [simp del]

lemma srt_pass_Nil [simp]: "srt_pass cmp e [] = (0, [])"
  by (simp add: srt_pass.simps)

lemma srt_pass_step:
  assumes "xs \<noteq> []"
  shows "srt_pass cmp e xs =
    (Suc (fst (srt_pass cmp e (drop (2 * 2 ^ e) xs))),
     fst (srt_merge cmp (take (2 ^ e) xs) (2 ^ e) (drop (2 ^ e) xs)) @
     snd (srt_pass cmp e (drop (2 * 2 ^ e) xs)))"
proof -
  let ?m = "srt_merge cmp (take (2 ^ e) xs) (2 ^ e) (drop (2 ^ e) xs)"
  have "snd ?m = drop (2 * 2 ^ e) xs" by (simp add: snd_srt_merge mult_2)
  with assms show ?thesis
    by (subst srt_pass.simps) (simp add: case_prod_beta Let_def)
qed

lemma mset_srt_merge:
  "mset (fst (srt_merge cmp ps k qs)) = mset ps + mset (take k qs)"
  by (induction cmp ps k qs rule: srt_merge.induct) auto

lemma set_srt_merge [simp]: "set (fst (srt_merge cmp ps k qs)) = set ps \<union> set (take k qs)"
  by (metis mset_srt_merge set_mset_mset set_mset_union)

lemma srt_pass_induct [case_names Nil step]:
  assumes "P []" and "\<And>xs. xs \<noteq> [] \<Longrightarrow> P (drop (2 * 2 ^ e) xs) \<Longrightarrow> P xs"
  shows "P (xs :: 'a list)"
proof (induction xs rule: length_induct)
  case (1 xs)
  have "(0 :: nat) < 2 * 2 ^ e" by simp
  then have "length (drop (2 * 2 ^ e) xs) < length xs" if "xs \<noteq> []"
    using that by (cases xs) auto
  with 1 assms show ?case by (cases "xs = []") auto
qed

lemma mset_srt_pass: "mset (snd (srt_pass cmp e xs)) = mset xs"
proof (induction xs rule: srt_pass_induct [where e = e])
  case (step xs)
  then have "mset (snd (srt_pass cmp e xs)) =
      mset (take (2 ^ e) xs @ take (2 ^ e) (drop (2 ^ e) xs) @ drop (2 ^ e) (drop (2 ^ e) xs))"
    by (simp add: srt_pass_step mset_srt_merge mult_2 add.assoc)
  then show ?case by (simp del: mset_append drop_drop)
qed simp

lemma length_srt_pass [simp]: "length (snd (srt_pass cmp e xs)) = length xs"
  using mset_srt_pass [of cmp e xs] by (metis size_mset)

lemma srt_pass_merges: "fst (srt_pass cmp e xs) > 1 \<Longrightarrow> 2 * 2 ^ e < length xs"
proof (cases "xs = []")
  case False
  assume m: "fst (srt_pass cmp e xs) > 1"
  then have "drop (2 * 2 ^ e) xs \<noteq> []"
    using False by (auto simp: srt_pass_step [OF False])
  then show ?thesis by simp
qed simp

function srt_loop :: "('a \<Rightarrow> 'a \<Rightarrow> int) \<Rightarrow> nat \<Rightarrow> 'a list \<Rightarrow> 'a list" where
  "srt_loop cmp e xs =
     (let (nmerges, ys) = srt_pass cmp e xs
      in if nmerges \<le> 1 then ys else srt_loop cmp (Suc e) ys)"
  by pat_completeness auto
termination
proof (relation "measure (\<lambda>(cmp, e, xs). length xs - 2 ^ e)", goal_cases)
  case (2 cmp e xs x nmerges ys)
  then have "fst (srt_pass cmp e xs) = nmerges" "snd (srt_pass cmp e xs) = ys"
    by (metis fst_conv, metis snd_conv)
  with 2(3) have "length ys = length xs" "2 * 2 ^ e < length xs"
    using srt_pass_merges [of cmp e xs] length_srt_pass [of cmp e xs] by auto
  moreover have "(0 :: nat) < 2 ^ e" by simp
  ultimately have "length ys - 2 ^ Suc e < length xs - 2 ^ e"
    unfolding power_Suc by linarith
  then show ?case by simp
qed simp

declare srt_loop.simps [simp del]

definition HASH_SRT :: "('a \<Rightarrow> 'a \<Rightarrow> int) \<Rightarrow> 'a list \<Rightarrow> 'a list" where
  "HASH_SRT cmp t = (if t = [] then [] else srt_loop cmp 0 t)"

text \<open>Whatever the comparison answers, no element is lost or doubled.\<close>

lemma mset_srt_loop: "mset (srt_loop cmp e xs) = mset xs"
proof (induction cmp e xs rule: srt_loop.induct)
  case (1 cmp e xs)
  show ?case
  proof (cases "fst (srt_pass cmp e xs) \<le> 1")
    case True
    then show ?thesis by (subst srt_loop.simps) (simp add: case_prod_beta mset_srt_pass)
  next
    case False
    then have "mset (srt_loop cmp (Suc e) (snd (srt_pass cmp e xs))) = mset xs"
      using "1.IH" [of "srt_pass cmp e xs" "fst (srt_pass cmp e xs)" "snd (srt_pass cmp e xs)"]
      by (simp add: mset_srt_pass)
    with False show ?thesis by (subst srt_loop.simps) (simp add: case_prod_beta)
  qed
qed

lemma mset_HASH_SRT: "mset (HASH_SRT cmp t) = mset t"
  by (simp add: HASH_SRT_def mset_srt_loop)

section \<open>Sorting by a key that the comparison respects\<close>

text \<open>
  A comparison function need not be an order (that of \<open>nodes_sort_by_type\<close> is not): it
  is enough that it decides two elements whose keys differ.
\<close>

fun runs_sorted :: "('a \<Rightarrow> 'k::linorder) \<Rightarrow> nat \<Rightarrow> 'a list \<Rightarrow> bool" where
  "runs_sorted key e xs =
     (if xs = [] then True
      else sorted (map key (take (2 ^ e) xs)) \<and> runs_sorted key e (drop (2 ^ e) xs))"

declare runs_sorted.simps [simp del]

lemma runs_sorted_0: "runs_sorted key 0 xs"
  by (induction xs) (simp_all add: runs_sorted.simps [of key 0])

lemma runs_sorted_step:
  "runs_sorted key e xs \<Longrightarrow>
    sorted (map key (take (2 ^ e) xs)) \<and> runs_sorted key e (drop (2 ^ e) xs)"
  by (subst (asm) runs_sorted.simps) (auto simp: runs_sorted.simps [of key e "[]"] split: if_splits)

locale key_order =
  fixes cmp :: "'a \<Rightarrow> 'a \<Rightarrow> int" and key :: "'a \<Rightarrow> 'k::linorder"
  assumes cmp_less: "key a < key b \<Longrightarrow> cmp a b \<le> 0"
    and cmp_greater: "key b < key a \<Longrightarrow> 0 < cmp a b"
begin

lemma sorted_srt_merge:
  "sorted (map key ps) \<Longrightarrow> sorted (map key (take k qs)) \<Longrightarrow>
    sorted (map key (fst (srt_merge cmp ps k qs)))"
proof (induction c \<equiv> cmp ps k qs rule: srt_merge.induct)
  case (6 p ps k q qs)
  show ?case
  proof (cases "cmp p q \<le> 0")
    case True
    then have "key p \<le> key q" using cmp_greater [of q p] by force
    with 6 True show ?thesis by fastforce
  next
    case False
    then have "key q \<le> key p" using cmp_less [of p q] by force
    with 6 False show ?thesis by fastforce
  qed
qed fastforce+

lemma runs_sorted_pass:
  "runs_sorted key e xs \<Longrightarrow> runs_sorted key (Suc e) (snd (srt_pass cmp e xs))"
proof (induction xs rule: srt_pass_induct [where e = e])
  case Nil
  then show ?case by (simp add: runs_sorted.simps)
next
  case (step xs)
  let ?run = "fst (srt_merge cmp (take (2 ^ e) xs) (2 ^ e) (drop (2 ^ e) xs))"
  let ?rest = "snd (srt_pass cmp e (drop (2 * 2 ^ e) xs))"
  have 1: "sorted (map key (take (2 ^ e) xs))" "sorted (map key (take (2 ^ e) (drop (2 ^ e) xs)))"
    "runs_sorted key e (drop (2 * 2 ^ e) xs)"
    using runs_sorted_step [OF step.prems] runs_sorted_step [of key e "drop (2 ^ e) xs"]
    by (auto simp: mult_2)
  then have run: "sorted (map key ?run)" by (intro sorted_srt_merge)
  have "mset ?run = mset (take (2 * 2 ^ e) xs)"
    by (simp add: mset_srt_merge mult_2 take_add flip: mset_append)
  then have len: "length ?run = min (2 * 2 ^ e) (length xs)"
    by (metis length_take min.commute size_mset)
  have out: "snd (srt_pass cmp e xs) = ?run @ ?rest"
    using step.hyps by (simp add: srt_pass_step)
  show ?case
  proof (cases "length xs \<le> 2 * 2 ^ e")
    case True
    then have "?rest = []" by simp
    with out run len True show ?thesis
      by (subst runs_sorted.simps) (simp add: runs_sorted.simps [of key "Suc e" "[]"])
  next
    case False
    with len have "take (2 ^ Suc e) (?run @ ?rest) = ?run" "drop (2 ^ Suc e) (?run @ ?rest) = ?rest"
      by simp_all
    moreover have "runs_sorted key (Suc e) ?rest" using step.IH 1(3) by simp
    ultimately show ?thesis
      unfolding out using run by (subst runs_sorted.simps) simp
  qed
qed

lemma sorted_srt_loop: "runs_sorted key e xs \<Longrightarrow> sorted (map key (srt_loop cmp e xs))"
proof (induction c \<equiv> cmp e xs rule: srt_loop.induct)
  case (1 e xs)
  have pass: "runs_sorted key (Suc e) (snd (srt_pass cmp e xs))"
    using 1(2) by (rule runs_sorted_pass)
  show ?case
  proof (cases "fst (srt_pass cmp e xs) \<le> 1")
    case True
    have "sorted (map key (snd (srt_pass cmp e xs)))"
    proof (cases "xs = []")
      case False
      with True have "fst (srt_pass cmp e (drop (2 * 2 ^ e) xs)) = 0"
        by (simp add: srt_pass_step)
      then have "drop (2 * 2 ^ e) xs = []"
        using srt_pass_step [of "drop (2 * 2 ^ e) xs" cmp e] by fastforce
      then have "length (snd (srt_pass cmp e xs)) \<le> 2 ^ Suc e" by simp
      with runs_sorted_step [OF pass] show ?thesis by simp
    qed simp
    with True show ?thesis by (subst srt_loop.simps) (simp add: case_prod_beta)
  next
    case False
    with "1.hyps" [OF _ _ _ pass] have "sorted (map key (srt_loop cmp (Suc e) (snd (srt_pass cmp e xs))))"
      by (simp add: prod_eq_iff)
    with False show ?thesis by (subst srt_loop.simps) (simp add: case_prod_beta)
  qed
qed

theorem sorted_HASH_SRT: "sorted (map key (HASH_SRT cmp t))"
  by (simp add: HASH_SRT_def sorted_srt_loop runs_sorted_0)

text \<open>Where the keys are all different the result is the one sorted arrangement.\<close>

lemma HASH_SRT_unique:
  assumes "sorted (map key ys)" and "mset ys = mset t" and "inj_on key (set t)"
  shows "HASH_SRT cmp t = ys"
proof (rule map_inj_on)
  have "mset (map key (HASH_SRT cmp t)) = mset (map key ys)"
    using assms(2) by (simp add: mset_HASH_SRT)
  then show "map key (HASH_SRT cmp t) = map key ys"
    using assms(1) sorted_HASH_SRT by (metis properties_for_sort)
  have "set (HASH_SRT cmp t) = set t" "set ys = set t"
    by (metis mset_HASH_SRT mset_eq_setD, metis assms(2) mset_eq_setD)
  then show "inj_on key (set (HASH_SRT cmp t) \<union> set ys)"
    using assms(3) by simp
qed

end

end
