(* ===== verification/Mkfs_Node.thy ===== *)
theory Mkfs_Node
  imports Smashfs_Format Uthash
begin

text \<open>
  \<open>src/mkfs/mkfs.c\<close>, its data: the node of a file, a directory or a symbolic link, the
  two comparison functions by which the node table is sorted, and the functions \<open>slog\<close>
  and \<open>blog\<close> that choose the widths of an image.

  The \<open>long long\<close> members of \<open>struct node\<close> are HOL integers.  The packed array of
  directory entries, which the code walks by adding up sizes, is the list of its entries.
\<close>

unbundle bit_operations_syntax

section \<open>Nodes\<close>

record dentry =
  de_number :: int
  de_type :: int
  de_name :: memory

text \<open>\<open>length\<close> of an entry is always the number of bytes of its name.\<close>

definition de_length :: "dentry \<Rightarrow> int" where
  "de_length e = int (length (de_name e))"

text \<open>The union of pointers: what a node carries besides its attributes.\<close>

datatype payload =
  No_payload
| File_payload (file_content: memory)
| Directory_payload (dir_parent: int) (dir_entries: "dentry list")
| Link_payload (link_path: memory)

record mnode =
  n_number :: int
  n_type :: int
  n_owner_mode :: int
  n_group_mode :: int
  n_other_mode :: int
  n_uid :: int
  n_gid :: int
  n_ctime :: int
  n_mtime :: int
  n_size :: int
  n_block :: int
  n_index :: int
  n_payload :: payload
  n_ntype :: int
  n_path :: memory

text \<open>\<open>enum node_type\<close>, the key of the first sort.\<close>

datatype node_type =
  node_type_unknown | node_type_elf_file | node_type_regular_file
| node_type_directory | node_type_symbolic_link

fun ntype_code :: "node_type \<Rightarrow> int" where
  "ntype_code node_type_unknown = 0"
| "ntype_code node_type_elf_file = 1"
| "ntype_code node_type_regular_file = 2"
| "ntype_code node_type_directory = 3"
| "ntype_code node_type_symbolic_link = 4"

section \<open>Widths\<close>

text \<open>\<open>slog\<close>: the logarithm of a power of two from \<open>2 ^ 12\<close> to \<open>2 ^ 20\<close>, else 0.\<close>

function slog_loop :: "u32 \<Rightarrow> nat \<Rightarrow> u32" where
  "slog_loop block i =
     (if i \<le> 20 then if block = push_bit i 1 then of_nat i else slog_loop block (Suc i) else 0)"
  by pat_completeness auto
termination
  by (relation "measure (\<lambda>(block, i). 21 - i)") auto

definition slog :: "u32 \<Rightarrow> u32" where
  "slog block = slog_loop block 12"

text \<open>
  \<open>blog\<close>: the number of bits of a number, at least 1, and 0 for a negative number.  The
  shift of a signed 1 by 63 is taken as the compiler's, the least \<open>long long\<close>.
\<close>

function blog_loop :: "int \<Rightarrow> nat \<Rightarrow> int" where
  "blog_loop number i =
     (if i < 64 then if number < to_s64 (push_bit i 1) then int i else blog_loop number (Suc i)
      else int i)"
  by pat_completeness auto
termination
  by (relation "measure (\<lambda>(number, i). 64 - i)") auto

definition blog :: "int \<Rightarrow> int" where
  "blog number = (if number < 0 then 0 else blog_loop number 1)"

declare slog_loop.simps [simp del] blog_loop.simps [simp del]

lemma pow2_word_inject:
  assumes "i < 32" and "k < 32"
  shows "(2 :: u32) ^ i = 2 ^ k \<longleftrightarrow> i = k"
proof
  assume "(2 :: u32) ^ i = 2 ^ k"
  then have "bit ((2 :: u32) ^ k) i = bit ((2 :: u32) ^ i) i" by simp
  with assms show "i = k" by (simp add: bit_exp_iff)
qed simp

lemma slog_loop_power:
  "i \<le> k \<Longrightarrow> k \<le> 20 \<Longrightarrow> slog_loop (2 ^ k) i = of_nat k"
proof (induction "k - i" arbitrary: i)
  case 0
  then show ?case by (subst slog_loop.simps) simp
next
  case (Suc d)
  then have "(2 :: u32) ^ k \<noteq> 2 ^ i" by (subst pow2_word_inject) auto
  with Suc show ?case by (subst slog_loop.simps) auto
qed

lemma slog_power: "12 \<le> k \<Longrightarrow> k \<le> 20 \<Longrightarrow> slog (2 ^ k) = of_nat k"
  by (simp add: slog_def slog_loop_power)

lemma slog_loop_cases:
  "slog_loop block i = 0 \<or> (\<exists>k. i \<le> k \<and> k \<le> 20 \<and> block = 2 ^ k \<and> slog_loop block i = of_nat k)"
proof (induction block i rule: slog_loop.induct)
  case (1 block i)
  show ?case
  proof (cases "i \<le> 20 \<and> block \<noteq> 2 ^ i")
    case True
    with 1 have "slog_loop block (Suc i) = 0 \<or>
        (\<exists>k. Suc i \<le> k \<and> k \<le> 20 \<and> block = 2 ^ k \<and> slog_loop block (Suc i) = of_nat k)"
      by simp
    moreover have "slog_loop block i = slog_loop block (Suc i)"
      using True by (subst slog_loop.simps) simp
    ultimately show ?thesis by (auto dest: Suc_leD)
  next
    case False
    then show ?thesis by (auto simp: slog_loop.simps [of block i])
  qed
qed

lemma to_s64_power: "i < 63 \<Longrightarrow> to_s64 (2 ^ i) = 2 ^ i"
proof -
  assume i: "i < 63"
  then have "(2 :: int) ^ i < 2 ^ 63" by (intro power_strict_increasing) auto
  then show ?thesis
    by (simp add: to_s64_id order_trans [of "- 9223372036854775808" 0])
qed

lemma blog_loop_spec:
  assumes "1 \<le> i" and "i \<le> 63" and "number < 2 ^ 62" and "i = 1 \<or> 2 ^ (i - 1) \<le> number"
    and "0 \<le> number"
  shows "\<exists>k. blog_loop number i = int k \<and> 1 \<le> k \<and> k \<le> 62 \<and> number < 2 ^ k \<and>
    (k = 1 \<or> 2 ^ (k - 1) \<le> number)"
  using assms
proof (induction "63 - i" arbitrary: i)
  case 0
  then show ?case by simp
next
  case (Suc d)
  then have i: "i < 63" by simp
  show ?case
  proof (cases "number < 2 ^ i")
    case True
    with Suc.prems i have "blog_loop number i = int i"
      by (subst blog_loop.simps) (simp add: to_s64_power)
    with True Suc.prems i show ?thesis by auto
  next
    case False
    with Suc.prems i have "blog_loop number i = blog_loop number (Suc i)"
      by (subst blog_loop.simps) (simp add: to_s64_power)
    with Suc.hyps(1) [of "Suc i"] Suc.hyps(2) Suc.prems False i show ?thesis by simp
  qed
qed

lemma blog_spec:
  assumes "0 \<le> number" and "number < 2 ^ 62"
  shows "\<exists>k. blog number = int k \<and> 1 \<le> k \<and> k \<le> 62 \<and> number < 2 ^ k \<and>
    (k = 1 \<or> 2 ^ (k - 1) \<le> number)"
  using blog_loop_spec [of 1 number] assms by (simp add: blog_def)

lemma blog_neg [simp]: "number < 0 \<Longrightarrow> blog number = 0"
  by (simp add: blog_def)

lemma blog_le_32:
  assumes "number < 2 ^ 32"
  shows "0 \<le> blog number \<and> blog number \<le> 32"
proof (cases "number < 0")
  case False
  with assms obtain k where k: "blog number = int k" "k = 1 \<or> 2 ^ (k - 1) \<le> number"
    using blog_spec [of number] by auto
  have "k \<le> 32"
  proof (rule ccontr)
    assume "\<not> k \<le> 32"
    then have "(2 :: int) ^ 32 \<le> 2 ^ (k - 1)" by (intro power_increasing) auto
    with k assms \<open>\<not> k \<le> 32\<close> show False by auto
  qed
  with k show ?thesis by simp
qed simp

text \<open>A number no greater than the one the width was chosen for fits.\<close>

lemma blog_fits:
  assumes "0 \<le> x" and "x \<le> m" and "m < 2 ^ 32"
  shows "take_bit (nat (blog m)) (to_u32 x) = to_u32 x"
proof -
  obtain k where k: "blog m = int k" "m < 2 ^ k"
    using blog_spec [of m] assms by auto
  have x: "take_bit k x = x" using assms k by (simp add: take_bit_int_eq_self)
  have "n < k" if "bit x n" for n
    using that by (subst (asm) x [symmetric]) (simp add: bit_take_bit_iff)
  then show ?thesis
    by (intro bit_eqI) (auto simp: k(1) bit_take_bit_iff bit_word_of_int_iff)
qed

section \<open>Comparison functions\<close>

text \<open>The C strings inside an array: the bytes before the first zero.\<close>

definition c_str :: "memory \<Rightarrow> memory" where
  "c_str m = takeWhile (\<lambda>c. c \<noteq> 0) m"

fun strcmp :: "memory \<Rightarrow> memory \<Rightarrow> int" where
  "strcmp [] [] = 0"
| "strcmp [] (b # bs) = -1"
| "strcmp (a # as) [] = 1"
| "strcmp (a # as) (b # bs) = (if a = b then strcmp as bs else if a < b then -1 else 1)"

text \<open>\<open>strrchr (path, '.')\<close>: the rest of the path from its last dot on.\<close>

definition last_dot :: "memory \<Rightarrow> memory option" where
  "last_dot path =
     (let ext = takeWhile (\<lambda>c. c \<noteq> 0x2E) (rev path)
      in if length ext = length path then None else Some (0x2E # rev ext))"

definition nodes_sort_by_number :: "mnode \<Rightarrow> mnode \<Rightarrow> int" where
  "nodes_sort_by_number a b =
     (if n_number a = n_number b then 0 else if n_number a < n_number b then -1 else 1)"

definition nodes_sort_by_type :: "mnode \<Rightarrow> mnode \<Rightarrow> int" where
  "nodes_sort_by_type a b =
     (if n_ntype a = n_ntype b then
        if n_type a = inode_code regular_file \<and> n_type b = inode_code regular_file then
          case (last_dot (n_path a), last_dot (n_path b)) of
            (Some adot, Some bdot) \<Rightarrow> strcmp adot bdot
          | _ \<Rightarrow> 0
        else 0
      else if n_ntype a < n_ntype b then -1 else 1)"

text \<open>Both respect a key, so the table's sort puts the nodes in the order of that key.\<close>

interpretation by_number: key_order nodes_sort_by_number n_number
  by unfold_locales (auto simp: nodes_sort_by_number_def)

interpretation by_type: key_order nodes_sort_by_type n_ntype
  by unfold_locales (auto simp: nodes_sort_by_type_def)

section \<open>Properties\<close>

text \<open>
  C24. \<open>HASH_SRT\<close> with \<open>nodes_sort_by_number\<close> puts the node table in increasing order of
  the inode numbers, and with \<open>nodes_sort_by_type\<close> in the order of the node types, which
  that function decides although it is no order on the nodes of one type; either way the
  table keeps its nodes.
\<close>

theorem node_table_sorts:
  "sorted (map n_number (HASH_SRT nodes_sort_by_number t)) \<and>
   sorted (map n_ntype (HASH_SRT nodes_sort_by_type t)) \<and>
   mset (HASH_SRT nodes_sort_by_number t) = mset t \<and> mset (HASH_SRT nodes_sort_by_type t) = mset t"
  by (simp add: by_number.sorted_HASH_SRT by_type.sorted_HASH_SRT mset_HASH_SRT)

text \<open>
  C25. The width \<open>blog\<close> chooses for a maximum \<open>m\<close> holds every value up to it and is the
  least that does; a field of that width is at most 32 bits wide when the maximum is a
  32-bit number, and the value survives the reduction to the field.
\<close>

theorem blog_width:
  assumes "0 \<le> x" and "x \<le> m" and "m < 2 ^ 32"
  shows "1 \<le> blog m \<and> blog m \<le> 32 \<and> m < 2 ^ nat (blog m) \<and>
    (blog m = 1 \<or> 2 ^ nat (blog m - 1) \<le> m) \<and>
    take_bit (nat (blog m)) (to_u32 x) = to_u32 x"
proof -
  obtain k where k: "blog m = int k" "1 \<le> k" "m < 2 ^ k" "k = 1 \<or> 2 ^ (k - 1) \<le> m"
    using blog_spec [of m] assms by auto
  then have "nat (blog m - 1) = k - 1" by simp
  with k blog_le_32 [OF assms(3)] blog_fits [OF assms] show ?thesis by auto
qed

lemma blog_width_witness:
  "1 \<le> blog 1000 \<and> blog 1000 \<le> 32 \<and> 1000 < (2 :: int) ^ nat (blog 1000) \<and>
    (blog 1000 = 1 \<or> 2 ^ nat (blog 1000 - 1) \<le> (1000 :: int)) \<and>
    take_bit (nat (blog 1000)) (to_u32 999) = to_u32 999"
  by (rule blog_width) simp_all

text \<open>
  \<open>slog\<close> is the exponent of the block sizes \<open>2 ^ 12\<close> to \<open>2 ^ 20\<close>, and 0 for every
  other size that can be given on the command line, which \<open>main\<close> does not refuse.
\<close>

lemma slog_exponent:
  "slog block = (case find (\<lambda>k. block = 2 ^ k) [12..<21] of Some k \<Rightarrow> of_nat k | None \<Rightarrow> 0)"
proof -
  define ks :: "nat list" where "ks = [12..<21]"
  have ks: "k \<in> set ks \<longleftrightarrow> 12 \<le> k \<and> k \<le> 20" for k by (simp add: ks_def) arith
  have "slog block = (case find (\<lambda>k. block = 2 ^ k) ks of Some k \<Rightarrow> of_nat k | None \<Rightarrow> 0)"
  proof (cases "find (\<lambda>k. block = 2 ^ k) ks")
    case None
    then have "block \<noteq> 2 ^ k" if "12 \<le> k" "k \<le> 20" for k
      using that ks unfolding find_None_iff by blast
    with None show ?thesis using slog_loop_cases [of block 12] by (auto simp: slog_def)
  next
    case (Some k)
    then have "k \<in> set ks" "block = 2 ^ k" unfolding find_Some_iff by auto
    with Some ks show ?thesis by (simp add: slog_power)
  qed
  then show ?thesis by (simp only: ks_def)
qed

end
