(* ===== verification/Mkfs_Scan.thy ===== *)
theory Mkfs_Scan
  imports Mkfs_Node
begin

text \<open>
  \<open>src/mkfs/mkfs.c\<close>, the scan of the sources: \<open>node_new\<close> makes a node of an entry that
  \<open>fts_read\<close> delivers and enters it into its directory, \<open>sources_scan\<close> does so for all of
  them, \<open>node_delete\<close> takes a node out again.
\<close>

unbundle bit_operations_syntax

section \<open>What the file system delivers\<close>

text \<open>The members of \<open>struct stat\<close> that the code reads.\<close>

record stat =
  st_mode :: int
  st_size :: int
  st_uid :: int
  st_gid :: int
  st_ctime :: int
  st_mtime :: int

datatype fts_info = FTS_D | FTS_DP | FTS_F | FTS_SL | FTS_DEFAULT | FTS_NSOK | FTS_ERR | FTS_NS | FTS_DNR

text \<open>
  An entry: its address and that of its parent (0 is the parent of the sources), and the answers
  of \<open>open\<close>, \<open>read\<close> and \<open>readlink\<close> for its path, where \<open>None\<close> is a failure.
\<close>

record ftsent =
  fts_address :: nat
  fts_parent :: nat
  fts_info :: fts_info
  fts_name :: memory
  fts_accpath :: memory
  fts_statp :: stat
  fts_opens :: bool
  fts_reads :: "memory option"
  fts_readlinks :: "memory option"

definition fts_compare :: "ftsent \<Rightarrow> ftsent \<Rightarrow> int" where
  "fts_compare a b = strcmp (fts_name a) (fts_name b)"

section \<open>The state of the scan\<close>

text \<open>
  \<open>fts_pointer\<close> of an entry: null, a node of the table, which its number identifies, or memory
  that has been freed.
\<close>

datatype fts_pointer = Null | Node int | Freed

record scan =
  sc_table :: "mnode list"
  sc_id :: int
  sc_pointer :: "nat \<Rightarrow> fts_pointer"
  sc_duplicates :: nat
  sc_regular_files :: nat
  sc_directories :: nat
  sc_symbolic_links :: nat

definition scan_init :: scan where
  "scan_init = \<lparr>sc_table = [], sc_id = 0, sc_pointer = (\<lambda>_. Null), sc_duplicates = 0,
     sc_regular_files = 0, sc_directories = 0, sc_symbolic_links = 0\<rparr>"

definition node_delete :: "mnode list \<Rightarrow> mnode \<Rightarrow> mnode list" where
  "node_delete t n = HASH_DEL t n"

section \<open>The attributes\<close>

definition S_IFMT :: int where "S_IFMT = 0xF000"

definition type_of_mode :: "int \<Rightarrow> inode_type option" where
  "type_of_mode m =
     (let f = m AND S_IFMT in
      if f = 0x8000 then Some regular_file
      else if f = 0x4000 then Some directory
      else if f = 0x2000 then Some character_device
      else if f = 0x6000 then Some block_device
      else if f = 0x1000 then Some fifo
      else if f = 0xA000 then Some symbolic_link
      else if f = 0xC000 then Some socket
      else None)"

text \<open>The permissions of one class, of which \<open>r\<close>, \<open>w\<close> and \<open>x\<close> are the bits.\<close>

definition class_mode :: "int \<Rightarrow> int \<Rightarrow> int \<Rightarrow> int \<Rightarrow> int" where
  "class_mode m r w x =
     (let f = (\<lambda>bit flag mode. if m AND bit \<noteq> 0 then mode OR mode_code flag else mode) in
      f x mode_execute (f w mode_write (f r mode_read 0)))"

definition sizeof_path :: nat where "sizeof_path = 131072"
definition sizeof_node :: int where "sizeof_node = 131240"
definition sizeof_directory :: int where "sizeof_directory = 16"
definition sizeof_directory_entry :: int where "sizeof_directory_entry = 24"

text \<open>
  The node before its contents are there.  \<open>size\<close>, \<open>block\<close> and \<open>index\<close>, which are not set
  here and not read before \<open>output_write\<close> sets them, are 0.
\<close>

definition node_attributes :: "int \<Rightarrow> inode_type \<Rightarrow> ftsent \<Rightarrow> mnode" where
  "node_attributes number typ entry =
     (let st = fts_statp entry; m = st_mode st in
      \<lparr>n_number = number, n_type = inode_code typ,
       n_owner_mode = class_mode m 0x100 0x80 0x40, n_group_mode = class_mode m 0x20 0x10 0x8,
       n_other_mode = class_mode m 0x4 0x2 0x1,
       n_uid = st_uid st, n_gid = st_gid st, n_ctime = st_ctime st, n_mtime = st_mtime st,
       n_size = 0, n_block = 0, n_index = 0, n_payload = No_payload, n_ntype = 0,
       n_path = take (sizeof_path - 1) (fts_accpath entry)\<rparr>)"

section \<open>The contents\<close>

definition same_file :: "memory \<Rightarrow> mnode \<Rightarrow> bool" where
  "same_file d n \<longleftrightarrow> n_type n = inode_code regular_file \<and>
     (case n_payload n of File_payload d' \<Rightarrow> length d' = length d \<and> d' = d | _ \<Rightarrow> False)"

definition same_link :: "memory \<Rightarrow> mnode \<Rightarrow> bool" where
  "same_link p n \<longleftrightarrow> n_type n = inode_code symbolic_link \<and>
     (case n_payload n of Link_payload p' \<Rightarrow> strcmp (c_str p') (c_str p) = 0 | _ \<Rightarrow> False)"

text \<open>
  What the branch of the type makes of the node: \<open>None\<close> if it goes to \<open>bail\<close>, else the node and
  whether it is one of the table, a duplicate, that is used in its place.
\<close>

definition or_duplicate :: "bool \<Rightarrow> (mnode \<Rightarrow> bool) \<Rightarrow> mnode list \<Rightarrow> mnode \<Rightarrow> bool \<times> mnode" where
  "or_duplicate no_duplicates same t n =
     (case (if no_duplicates then None else find same t) of
        None \<Rightarrow> (False, n) | Some d \<Rightarrow> (True, d))"

definition file_contents :: "heap \<Rightarrow> bool \<Rightarrow> mnode list \<Rightarrow> ftsent \<Rightarrow> mnode \<Rightarrow> (bool \<times> mnode) option" where
  "file_contents alloc no_duplicates t entry n =
     (let sz = st_size (fts_statp entry) in
      if \<not> fts_opens entry then None
      else if \<not> malloc_ok alloc (8 + sz) then None
      else case fts_reads entry of
        None \<Rightarrow> None
      | Some d \<Rightarrow>
          if int (length d) \<noteq> sz then None
          else
            let typ = (if 4 \<le> length d \<and> take 4 d = [0x7F, 0x45, 0x4C, 0x46] then node_type_elf_file
                       else node_type_regular_file)
            in Some (or_duplicate no_duplicates (same_file d) t
                 (n\<lparr>n_ntype := ntype_code typ, n_payload := File_payload d\<rparr>)))"

definition directory_contents :: "heap \<Rightarrow> fts_pointer \<Rightarrow> mnode \<Rightarrow> (bool \<times> mnode) option res" where
  "directory_contents alloc parent n =
     (let n = n\<lparr>n_ntype := ntype_code node_type_directory\<rparr> in
      if \<not> malloc_ok alloc sizeof_directory then Ok None
      else case parent of
        Null \<Rightarrow> Ok (Some (False, n\<lparr>n_payload := Directory_payload 0 []\<rparr>))
      | Node p \<Rightarrow> Ok (Some (False, n\<lparr>n_payload := Directory_payload p []\<rparr>))
      | Freed \<Rightarrow> Undef)"

text \<open>What the array holds behind the terminating zero is never read.\<close>

definition link_contents :: "heap \<Rightarrow> bool \<Rightarrow> mnode list \<Rightarrow> ftsent \<Rightarrow> mnode \<Rightarrow> (bool \<times> mnode) option" where
  "link_contents alloc no_duplicates t entry n =
     (let sz = st_size (fts_statp entry) in
      if \<not> malloc_ok alloc (sz + 1) then None
      else case fts_readlinks entry of
        None \<Rightarrow> None
      | Some p \<Rightarrow>
          if sz < int (length p) then None
          else Some (or_duplicate no_duplicates (same_link (p @ [0])) t
                 (n\<lparr>n_ntype := ntype_code node_type_symbolic_link, n_payload := Link_payload (p @ [0])\<rparr>)))"

definition node_contents ::
  "heap \<Rightarrow> bool \<Rightarrow> mnode list \<Rightarrow> fts_pointer \<Rightarrow> inode_type \<Rightarrow> ftsent \<Rightarrow> mnode \<Rightarrow> (bool \<times> mnode) option res" where
  "node_contents alloc no_duplicates t parent typ entry n =
     (case typ of
        regular_file \<Rightarrow> Ok (file_contents alloc no_duplicates t entry n)
      | directory \<Rightarrow> directory_contents alloc parent n
      | symbolic_link \<Rightarrow> Ok (link_contents alloc no_duplicates t entry n)
      | _ \<Rightarrow> Ok None)"

section \<open>The entry in the parent\<close>

definition directory_memory :: "dentry list \<Rightarrow> int" where
  "directory_memory es = sizeof_directory + sum_list (map (\<lambda>e. sizeof_directory_entry + de_length e) es)"

definition add_entry :: "dentry \<Rightarrow> mnode \<Rightarrow> mnode" where
  "add_entry e n =
     (case n_payload n of
        Directory_payload p es \<Rightarrow> n\<lparr>n_payload := Directory_payload p (es @ [e])\<rparr>
      | _ \<Rightarrow> n)"

text \<open>
  The directory of the parent is copied into a larger array, with the entry behind the others:
  \<open>None\<close> if that goes to \<open>bail\<close>.
\<close>

definition enter_node ::
  "heap \<Rightarrow> mnode list \<Rightarrow> fts_pointer \<Rightarrow> memory \<Rightarrow> mnode \<Rightarrow> mnode list option res" where
  "enter_node alloc t parent name n =
     (case parent of
        Null \<Rightarrow> Ok (Some t)
      | Freed \<Rightarrow> Undef
      | Node p \<Rightarrow>
          (case find (\<lambda>m. n_number m = p) t of
             None \<Rightarrow> Undef
           | Some m \<Rightarrow>
               if n_type m \<noteq> inode_code directory then Ok None
               else if \<not> malloc_ok alloc (directory_memory (dir_entries (n_payload m)) +
                   sizeof_directory_entry + int (length name)) then Ok None
               else
                 let e = \<lparr>de_number = n_number n, de_type = n_type n, de_name = name\<rparr>
                 in Ok (Some (map (\<lambda>m. if n_number m = p then add_entry e m else m) t))))"

section \<open>A node\<close>

text \<open>The part at \<open>out\<close>.\<close>

definition count_node :: "mnode \<Rightarrow> scan \<Rightarrow> scan" where
  "count_node n s =
     s\<lparr>sc_regular_files := sc_regular_files s + (if n_type n = inode_code regular_file then 1 else 0),
       sc_directories := sc_directories s + (if n_type n = inode_code directory then 1 else 0),
       sc_symbolic_links := sc_symbolic_links s + (if n_type n = inode_code symbolic_link then 1 else 0)\<rparr>"

definition set_pointer :: "nat \<Rightarrow> fts_pointer \<Rightarrow> scan \<Rightarrow> scan" where
  "set_pointer a p s = s\<lparr>sc_pointer := (sc_pointer s)(a := p)\<rparr>"

text \<open>
  The result is the node, or \<open>None\<close> for a null pointer.  The memory that \<open>fts_pointer\<close> of the
  entry refers to is freed at \<open>bail\<close>, and also when a duplicate has been found.
\<close>

definition node_new :: "heap \<Rightarrow> bool \<Rightarrow> ftsent \<Rightarrow> scan \<Rightarrow> (scan \<times> mnode option) res" where
  "node_new alloc no_duplicates entry s =
     (if \<not> malloc_ok alloc sizeof_node then Ok (s, None)
      else
        let bail = (\<lambda>s. Ok (set_pointer (fts_address entry) Freed s, None));
            parent = sc_pointer s (fts_parent entry) in
        case type_of_mode (st_mode (fts_statp entry)) of
          None \<Rightarrow> bail s
        | Some typ \<Rightarrow>
            rbind (node_contents alloc no_duplicates (sc_table s) parent typ entry
                     (node_attributes (sc_id s) typ entry)) (\<lambda>r.
            case r of None \<Rightarrow> bail s | Some (duplicate, n) \<Rightarrow>
            rbind (enter_node alloc (sc_table s) parent (fts_name entry) n) (\<lambda>r.
            case r of None \<Rightarrow> bail s | Some t \<Rightarrow>
            let s = (if duplicate
                     then set_pointer (fts_address entry) Freed
                            (s\<lparr>sc_table := t, sc_duplicates := sc_duplicates s + 1\<rparr>)
                     else set_pointer (fts_address entry) (Node (sc_id s))
                            (s\<lparr>sc_table := HASH_ADD t n, sc_id := sc_id s + 1\<rparr>))
            in Ok (count_node n s, Some n))))"

section \<open>The scan\<close>

text \<open>Entries without a status, and a directory that is left, are skipped.\<close>

definition skipped :: "fts_info \<Rightarrow> bool" where
  "skipped i \<longleftrightarrow> i = FTS_NSOK \<or> i = FTS_ERR \<or> i = FTS_NS \<or> i = FTS_DNR \<or> i = FTS_DP"

fun scan_entries :: "heap \<Rightarrow> bool \<Rightarrow> ftsent list \<Rightarrow> scan \<Rightarrow> scan res" where
  "scan_entries alloc no_duplicates [] s = Ok s"
| "scan_entries alloc no_duplicates (entry # entries) s =
     (if skipped (fts_info entry) then scan_entries alloc no_duplicates entries s
      else rbind (node_new alloc no_duplicates entry s) (\<lambda>(s, n). scan_entries alloc no_duplicates entries s))"

text \<open>
  \<open>fts paths\<close> is the tree that \<open>fts_open\<close> opens for the paths, as the entries \<open>fts_read\<close> delivers
  of it, or \<open>None\<close> if it cannot.
\<close>

definition sources_scan ::
  "heap \<Rightarrow> bool \<Rightarrow> (memory list \<Rightarrow> ftsent list option) \<Rightarrow> memory list \<Rightarrow> scan \<Rightarrow> scan res" where
  "sources_scan alloc no_duplicates fts paths s =
     (if \<not> malloc_ok alloc (8 * (int (length paths) + 1)) then Ok s
      else case fts paths of None \<Rightarrow> Ok s | Some entries \<Rightarrow> scan_entries alloc no_duplicates entries s)"

lemma scan_entries_append:
  "scan_entries alloc nd (xs @ ys) s = rbind (scan_entries alloc nd xs s) (scan_entries alloc nd ys)"
proof (induction xs arbitrary: s)
  case (Cons x xs)
  then show ?case by (cases "node_new alloc nd x s") auto
qed simp

end
