(* ===== verification/Bitbuffer.thy ===== *)
theory Bitbuffer
  imports Smash_Prelude
begin

text \<open>
  \<open>src/mkfs/bitbuffer.c\<close> (and its copy without \<open>bitbuffer_init\<close> in
  \<open>src/linux/bitbuffer.c\<close>): a cursor over a byte array that reads and writes unsigned
  values most significant bit first, at any bit position.  The inode table, the block
  table and the directory entries of an image are read and written through it.

  \<open>bb_buffer\<close> is the memory from the buffer pointer to the end of its object, so that an
  access outside it is \<open>Undef\<close> whatever \<open>bb_size\<close> says: the code never looks at
  \<open>size\<close>, \<open>bsize\<close> or \<open>end\<close> before it reads or writes.
\<close>

unbundle bit_operations_syntax

section \<open>The structure and its operations\<close>

record bitbuffer =
  bb_buffer :: memory
  bb_end :: int
  bb_size :: int
  bb_bsize :: int
  bb_index :: int
  bb_external :: bool

definition bitbuffer_init_from_buffer :: "memory \<Rightarrow> int \<Rightarrow> bitbuffer res" where
  "bitbuffer_init_from_buffer buffer sz =
     rbind (c_int (sz * 8)) (\<lambda>bsize.
     Ok \<lparr>bb_buffer = buffer, bb_end = sz, bb_size = sz, bb_bsize = bsize,
         bb_index = 0, bb_external = True\<rparr>)"

text \<open>The object of a fresh bit buffer is allocated and cleared.\<close>

definition bitbuffer_init :: "heap \<Rightarrow> int \<Rightarrow> bitbuffer res" where
  "bitbuffer_init alloc sz =
     rbind (check (malloc_ok alloc sz) Minus1) (\<lambda>_.
     rbind (c_int (sz * 8)) (\<lambda>bsize.
     Ok \<lparr>bb_buffer = replicate (nat sz) 0, bb_end = sz, bb_size = sz,
         bb_bsize = bsize, bb_index = 0, bb_external = False\<rparr>))"

text \<open>Afterwards the buffer pointer is null: there is no object to read from.\<close>

definition bitbuffer_uninit :: "bitbuffer \<Rightarrow> bitbuffer res" where
  "bitbuffer_uninit b = bitbuffer_init_from_buffer [] 0"

definition bitbuffer_buffer :: "bitbuffer \<Rightarrow> memory" where
  "bitbuffer_buffer b = bb_buffer b"

definition bitbuffer_getbitlength :: "bitbuffer \<Rightarrow> u32 res" where
  "bitbuffer_getbitlength b =
     rbind (c_int (bb_bsize b - bb_index b)) (\<lambda>d. Ok (to_u32 (if d > 0 then d else 0)))"

definition bitbuffer_getlength :: "bitbuffer \<Rightarrow> u32 res" where
  "bitbuffer_getlength b = rbind (bitbuffer_getbitlength b) (\<lambda>l. Ok ((l + 7) div 8))"

definition bitbuffer_getpos :: "bitbuffer \<Rightarrow> u32" where
  "bitbuffer_getpos b = to_u32 (bb_index b)"

definition bitbuffer_setpos :: "bitbuffer \<Rightarrow> u32 \<Rightarrow> bitbuffer" where
  "bitbuffer_setpos b pos = b\<lparr>bb_index := sint pos\<rparr>"

definition bitbuffer_putbit :: "bitbuffer \<Rightarrow> u32 \<Rightarrow> bitbuffer res" where
  "bitbuffer_putbit b value =
     (let bit' = bb_index b smod 8; byte = bb_index b sdiv 8 in
      rbind (mem_get (bb_buffer b) byte) (\<lambda>old.
      rbind (c_int (bb_index b + 1)) (\<lambda>index.
      Ok (b\<lparr>bb_buffer := (bb_buffer b)
              [nat byte := ucast ((ucast old :: u32) OR push_bit (nat (7 - bit')) (value AND 1))],
            bb_index := index\<rparr>))))"

text \<open>
  \<open>while (n)\<close>: the shift by \<open>n - 1\<close> has no meaning from 32 on, nor for a negative
  count, which is where a negative \<open>n\<close> ends at its first turn.
\<close>

function bitbuffer_putbits :: "bitbuffer \<Rightarrow> int \<Rightarrow> u32 \<Rightarrow> bitbuffer res" where
  "bitbuffer_putbits b n v =
     (if n = 0 then Ok b
      else if n - 1 < 0 \<or> 32 \<le> n - 1 then Undef
      else rbind (bitbuffer_putbit b (drop_bit (nat (n - 1)) v AND 1))
             (\<lambda>b. bitbuffer_putbits b (n - 1) v))"
  by pat_completeness auto
termination
  by (relation "measure (\<lambda>(b, n, v). nat n)") auto

definition bitbuffer_getbit :: "bitbuffer \<Rightarrow> (u32 \<times> bitbuffer) res" where
  "bitbuffer_getbit b =
     (let bit' = bb_index b smod 8; byte = bb_index b sdiv 8 in
      rbind (c_int (bb_index b + 1)) (\<lambda>index.
      rbind (mem_get (bb_buffer b) byte) (\<lambda>v.
      Ok (drop_bit (nat (7 - bit')) (ucast v) AND 1, b\<lparr>bb_index := index\<rparr>))))"

text \<open>The inner loop of \<open>bitbuffer_getbits\<close>: whole bytes while at least 8 bits are wanted.\<close>

function getbits_bytes :: "bitbuffer \<Rightarrow> int \<Rightarrow> u32 \<Rightarrow> (bitbuffer \<times> int \<times> u32) res" where
  "getbits_bytes b n tmp =
     (if n \<ge> 8 then
        rbind (mem_get (bb_buffer b) (bb_index b sdiv 8)) (\<lambda>v.
        rbind (c_int (bb_index b + 8)) (\<lambda>index.
        getbits_bytes (b\<lparr>bb_index := index\<rparr>) (n - 8) (push_bit 8 tmp OR ucast v)))
      else Ok (b, n, tmp))"
  by pat_completeness auto
termination
  by (relation "measure (\<lambda>(b, n, tmp). nat n)") auto

declare bitbuffer_putbits.simps [simp del] getbits_bytes.simps [simp del]

lemma getbits_bytes_less:
  "getbits_bytes b n tmp = Ok (b', n', tmp') \<Longrightarrow> n \<ge> 8 \<Longrightarrow> 0 \<le> n' \<and> n' < n"
proof (induction b n tmp rule: getbits_bytes.induct)
  case (1 b n tmp)
  from "1.prems" obtain v index where
    v: "mem_get (bb_buffer b) (bb_index b sdiv 8) = Ok v" and
    i: "c_int (bb_index b + 8) = Ok index" and
    r: "getbits_bytes (b\<lparr>bb_index := index\<rparr>) (n - 8) (push_bit 8 tmp OR ucast v) = Ok (b', n', tmp')"
    by (subst (asm) getbits_bytes.simps) auto
  show ?case
  proof (cases "n - 8 \<ge> 8")
    case True
    with "1.IH" [OF "1.prems"(2) v i r] show ?thesis by simp
  next
    case False
    with r "1.prems"(2) show ?thesis by (subst (asm) getbits_bytes.simps) auto
  qed
qed

lemma bitbuffer_getbit_eq_Ok:
  "bitbuffer_getbit b = Ok (v, b') \<Longrightarrow>
     b' = b\<lparr>bb_index := bb_index b + 1\<rparr> \<and> bb_index b < 8 * int (length (bb_buffer b))"
  by (auto simp: bitbuffer_getbit_def Let_def c_int_eq_Ok mem_get_eq_Ok signed_divide_int_def
      sgn_if split: if_splits)

text \<open>
  The outer loop.  A negative \<open>n\<close> is never 0 again: the loop then reads one bit after the
  other until it leaves the object, which is why the distance to its end decreases.
\<close>

function getbits_loop :: "bitbuffer \<Rightarrow> int \<Rightarrow> u32 \<Rightarrow> (u32 \<times> bitbuffer) res" where
  "getbits_loop b n tmp =
     (if n = 0 then Ok (tmp, b)
      else if bb_index b smod 8 = 0 \<and> n \<ge> 8 then
        rbind (getbits_bytes b n tmp) (\<lambda>(b, n, tmp). getbits_loop b n tmp)
      else
        rbind (bitbuffer_getbit b) (\<lambda>(v, b). getbits_loop b (n - 1) (push_bit 1 tmp OR v)))"
  by pat_completeness auto
termination
proof (relation "measure (\<lambda>(b, n, tmp). if n \<ge> 0 then nat n
                   else nat (8 * int (length (bb_buffer b)) - bb_index b))", goal_cases)
  case (2 b n tmp x y z a bb)
  then show ?case using getbits_bytes_less by fastforce
next
  case (3 b n tmp x y z)
  then show ?case by (auto dest!: bitbuffer_getbit_eq_Ok)
qed simp

declare getbits_loop.simps [simp del]

definition bitbuffer_getbits :: "bitbuffer \<Rightarrow> int \<Rightarrow> (u32 \<times> bitbuffer) res" where
  "bitbuffer_getbits b n = getbits_loop b n 0"

text \<open>\<open>bitbuffer_getbuffer\<close> returns the bytes it puts into the caller's array.\<close>

fun getbuffer_loop :: "bitbuffer \<Rightarrow> nat \<Rightarrow> (memory \<times> bitbuffer) res" where
  "getbuffer_loop b 0 = Ok ([], b)"
| "getbuffer_loop b (Suc k) =
     rbind (bitbuffer_getbits b 8) (\<lambda>(v, b).
     rbind (getbuffer_loop b k) (\<lambda>(vs, b). Ok (ucast v # vs, b)))"

definition bitbuffer_getbuffer :: "bitbuffer \<Rightarrow> int \<Rightarrow> (memory \<times> bitbuffer) res" where
  "bitbuffer_getbuffer b n =
     (if bb_index b smod 8 \<noteq> 0 then getbuffer_loop b (nat n)
      else rbind (mem_slice (bb_buffer b) (bb_index b sdiv 8) n) (\<lambda>d.
           rbind (c_int (n * 8)) (\<lambda>k.
           rbind (c_int (bb_index b + k)) (\<lambda>index. Ok (d, b\<lparr>bb_index := index\<rparr>)))))"

definition bitbuffer_skipbits :: "bitbuffer \<Rightarrow> int \<Rightarrow> bitbuffer res" where
  "bitbuffer_skipbits b n =
     rbind (c_int (bb_index b + n)) (\<lambda>index. Ok (b\<lparr>bb_index := index\<rparr>))"

definition bitbuffer_showbits :: "bitbuffer \<Rightarrow> int \<Rightarrow> (u32 \<times> bitbuffer) res" where
  "bitbuffer_showbits b n =
     rbind (bitbuffer_getbits b n) (\<lambda>(tmp, b'). Ok (tmp, b'\<lparr>bb_index := bb_index b\<rparr>))"

definition bitbuffer_copybits ::
  "bitbuffer \<Rightarrow> bitbuffer \<Rightarrow> int \<Rightarrow> (u32 \<times> bitbuffer \<times> bitbuffer) res" where
  "bitbuffer_copybits p g n =
     rbind (bitbuffer_getbits g n) (\<lambda>(el, g).
     rbind (bitbuffer_putbits p n el) (\<lambda>p. Ok (el, p, g)))"

section \<open>The buffer as a sequence of bits\<close>

text \<open>Bit \<open>k\<close> of a byte array, most significant bit of each byte first.\<close>

definition membit :: "memory \<Rightarrow> nat \<Rightarrow> bool" where
  "membit m k = bit (m ! (k div 8)) (7 - k mod 8)"

text \<open>The reference reader: one bit at a time, appended to \<open>t\<close> from the right.\<close>

definition shift_in :: "u32 \<Rightarrow> bool \<Rightarrow> u32" where
  "shift_in t c = push_bit 1 t OR of_bool c"

fun bval :: "(nat \<Rightarrow> bool) \<Rightarrow> nat \<Rightarrow> nat \<Rightarrow> u32 \<Rightarrow> u32" where
  "bval f i 0 t = t"
| "bval f i (Suc n) t = bval f (Suc i) n (shift_in t (f i))"

lemma bit_shift_in:
  "bit (shift_in t c) q \<longleftrightarrow> q < 32 \<and> (if q = 0 then c else bit t (q - 1))"
  unfolding shift_in_def bit_or_iff bit_push_bit_iff bit_of_bool_iff by auto

lemma bit_bval:
  "bit (bval f i n t) q \<longleftrightarrow> q < 32 \<and> (if q < n then f (i + n - 1 - q) else bit t (q - n))"
proof (induction n arbitrary: i t)
  case 0
  then show ?case by (auto dest: bit_imp_le_length)
next
  case (Suc n)
  show ?case
    by (auto simp: Suc.IH bit_shift_in less_Suc_eq not_less)
qed

lemma bval_add: "bval f i (m + n) t = bval f (i + m) n (bval f i m t)"
  by (induction m arbitrary: i t) auto

lemma bval_cong:
  "(\<And>j. j < n \<Longrightarrow> f (i + j) = g (i + j)) \<Longrightarrow> bval f i n t = bval g i n t"
proof (rule bit_eqI)
  fix q
  assume fg: "\<And>j. j < n \<Longrightarrow> f (i + j) = g (i + j)"
  have "f (i + n - 1 - q) = g (i + n - 1 - q)" if "q < n"
    using fg [of "n - 1 - q"] that by (simp add: less_diff_conv2)
  then show "bit (bval f i n t) q = bit (bval g i n t) q"
    by (auto simp: bit_bval)
qed

text \<open>Eight bits at a byte boundary are the byte.\<close>

lemma bval_byte:
  "bval (membit m) (8 * j) 8 t = push_bit 8 t OR ucast (m ! j)"
proof (rule bit_eqI)
  fix q
  assume "possible_bit TYPE(u32) q"
  have *: "(7 + 8 * j - q) div 8 = j" "7 - (7 + 8 * j - q) mod 8 = q" if "q < 8"
  proof -
    have e: "7 + 8 * j - q = 8 * j + (7 - q)" using that by simp
    have m: "(8 * j + r) div 8 = j" "(8 * j + r) mod 8 = r" if "r < 8" for r
      using that by simp_all
    show "(7 + 8 * j - q) div 8 = j" "7 - (7 + 8 * j - q) mod 8 = q"
      unfolding e using that m [of "7 - q"] by linarith+
  qed
  show "bit (bval (membit m) (8 * j) 8 t) q = bit (push_bit 8 t OR ucast (m ! j)) q"
    unfolding bit_bval bit_or_iff bit_push_bit_iff bit_unsigned_iff
    using * by (cases "q < 8") (auto simp: membit_def add.commute dest: bit_imp_le_length)
qed

text \<open>What a window of \<open>n\<close> bits that holds \<open>v\<close> reads as.\<close>

lemma bval_window:
  assumes "\<And>j. j < n \<Longrightarrow> f (i + j) = bit v (n - 1 - j)"
  shows "bval f i n 0 = take_bit n v"
proof (rule bit_eqI)
  fix q
  assume "possible_bit TYPE(u32) q"
  then have q: "q < 32" by simp
  show "bit (bval f i n 0) q = bit (take_bit n v) q"
  proof (cases "q < n")
    case True
    then have "f (i + n - 1 - q) = bit v q"
      using assms [of "n - 1 - q"] by auto
    with True q show ?thesis by (simp add: bit_bval bit_simps)
  qed (simp add: bit_bval bit_simps)
qed

section \<open>Reading: the byte-wise loop computes the reference\<close>

lemma and_1_bit: "(drop_bit k (x :: u32) AND 1) = of_bool (bit x k)"
  by (simp add: bit_iff_odd_drop_bit and_one_eq mod_2_eq_odd)

lemma bitbuffer_getbit_ok:
  assumes "bb_index b = int i" and "i < 8 * length (bb_buffer b)" and "i + 1 < 2147483648"
  shows "bitbuffer_getbit b =
    Ok (of_bool (membit (bb_buffer b) i), b\<lparr>bb_index := int (i + 1)\<rparr>)"
proof -
  have "nat (int i div 8) = i div 8" "nat (7 - int i mod 8) = 7 - i mod 8" "i div 8 < length (bb_buffer b)"
    using assms(2) by (auto simp: nat_div_distrib zmod_int nat_diff_distrib' nat_mod_distrib)
  moreover have "bit (ucast v :: u32) (7 - i mod 8) = bit v (7 - i mod 8)" for v :: byte
    by (auto simp: bit_simps dest: bit_imp_le_length)
  ultimately show ?thesis
    using assms by (simp add: bitbuffer_getbit_def and_1_bit membit_def add.commute
        del: of_nat_Suc of_nat_add flip: of_nat_Suc)
qed

lemma getbits_bytes_ok:
  assumes "bb_index b = int (8 * j)" and "j + k \<le> length (bb_buffer b)"
    and "8 * (j + k) < 2147483648" and "r < 8"
  shows "getbits_bytes b (int (8 * k + r)) t =
    Ok (b\<lparr>bb_index := int (8 * (j + k))\<rparr>, int r, bval (membit (bb_buffer b)) (8 * j) (8 * k) t)"
  using assms
proof (induction k arbitrary: b j t)
  case 0
  then show ?case by (subst getbits_bytes.simps) auto
next
  case (Suc k)
  let ?m = "bb_buffer b"
  let ?b = "b\<lparr>bb_index := int (8 * Suc j)\<rparr>"
  have 1: "nat (int (8 * j) div 8) = j" by simp
  have IH: "getbits_bytes ?b (int (8 * k + r)) (push_bit 8 t OR ucast (?m ! j)) =
    Ok (?b\<lparr>bb_index := int (8 * (Suc j + k))\<rparr>, int r,
        bval (membit ?m) (8 * Suc j) (8 * k) (push_bit 8 t OR ucast (?m ! j)))"
    using Suc.IH [of ?b "Suc j"] Suc.prems by simp
  have 2: "bval (membit ?m) (8 * j) (8 * Suc k) t =
      bval (membit ?m) (8 * Suc j) (8 * k) (push_bit 8 t OR ucast (?m ! j))"
    using bval_add [of "membit ?m" "8 * j" 8 "8 * k" t] by (simp add: bval_byte add.commute)
  have 3: "int (8 * Suc k + r) - 8 = int (8 * k + r)" "int (8 * j) + 8 = int (8 * Suc j)"
    by simp_all
  have "getbits_bytes b (int (8 * Suc k + r)) t =
      getbits_bytes ?b (int (8 * k + r)) (push_bit 8 t OR ucast (?m ! j))"
    using Suc.prems by (subst getbits_bytes.simps) (simp add: 3 add.commute flip: of_nat_Suc)
  with IH 2 show ?case by simp
qed

lemma getbits_loop_ok:
  assumes "bb_index b = int i" and "i + n \<le> 8 * length (bb_buffer b)"
    and "i + n < 2147483648"
  shows "getbits_loop b (int n) t =
    Ok (bval (membit (bb_buffer b)) i n t, b\<lparr>bb_index := int (i + n)\<rparr>)"
  using assms
proof (induction n arbitrary: b i t rule: less_induct)
  case (less n)
  consider "n = 0" | "n > 0" "i mod 8 = 0 \<and> n \<ge> 8" | "n > 0" "\<not> (i mod 8 = 0 \<and> n \<ge> 8)"
    by linarith
  then show ?case
  proof cases
    case 1
    with less.prems show ?thesis by (subst getbits_loop.simps) simp
  next
    case 2
    define j k r where "j = i div 8" and "k = n div 8" and "r = n mod 8"
    have i: "i = 8 * j" and n: "n = 8 * k + r" and r: "r < 8"
      using 2 by (auto simp: j_def k_def r_def)
    let ?t = "bval (membit (bb_buffer b)) (8 * j) (8 * k) t"
    have "getbits_bytes b (int n) t = Ok (b\<lparr>bb_index := int (8 * (j + k))\<rparr>, int r, ?t)"
      unfolding n using less.prems i n r by (intro getbits_bytes_ok) auto
    moreover have "int i smod 8 = 0" using i by simp
    ultimately have "getbits_loop b (int n) t =
        getbits_loop (b\<lparr>bb_index := int (8 * (j + k))\<rparr>) (int r) ?t"
      using 2 less.prems(1) by (subst getbits_loop.simps) simp
    also have "\<dots> = Ok (bval (membit (bb_buffer b)) (8 * (j + k)) r ?t,
        b\<lparr>bb_index := int (i + n)\<rparr>)"
      using less.IH [of r "b\<lparr>bb_index := int (8 * (j + k))\<rparr>" "8 * (j + k)" ?t] less.prems 2 i n r
      by simp
    also have "bval (membit (bb_buffer b)) (8 * (j + k)) r ?t = bval (membit (bb_buffer b)) i n t"
      unfolding i n by (simp add: bval_add distrib_left)
    finally show ?thesis .
  next
    case 3
    then obtain n' where n: "n = Suc n'" by (cases n) auto
    let ?v = "of_bool (membit (bb_buffer b) i) :: u32"
    have c: "\<not> (int i smod 8 = 0 \<and> int n \<ge> 8)"
      using 3(2) by (simp add: zmod_int) presburger
    have g: "bitbuffer_getbit b = Ok (?v, b\<lparr>bb_index := int (i + 1)\<rparr>)"
      using less.prems n by (intro bitbuffer_getbit_ok) auto
    have "getbits_loop b (int n) t =
        getbits_loop (b\<lparr>bb_index := int (i + 1)\<rparr>) (int n') (push_bit 1 t OR ?v)"
      using c g n less.prems(1) by (subst getbits_loop.simps) (auto simp del: push_bit_Suc)
    also have "\<dots> = Ok (bval (membit (bb_buffer b)) i n t, b\<lparr>bb_index := int (i + n)\<rparr>)"
      using less.IH [of n' "b\<lparr>bb_index := int (i + 1)\<rparr>" "i + 1"] less.prems n
      by (simp add: shift_in_def del: push_bit_Suc)
    finally show ?thesis .
  qed
qed

section \<open>Writing: bits are or-ed in, one at a time\<close>

definition setbit_or :: "memory \<Rightarrow> nat \<Rightarrow> bool \<Rightarrow> memory" where
  "setbit_or m i c = m[i div 8 := m ! (i div 8) OR push_bit (7 - i mod 8) (of_bool c)]"

fun or_bits :: "memory \<Rightarrow> nat \<Rightarrow> nat \<Rightarrow> u32 \<Rightarrow> memory" where
  "or_bits m i 0 v = m"
| "or_bits m i (Suc n) v = or_bits (setbit_or m i (bit v n)) (Suc i) n v"

lemma length_setbit_or [simp]: "length (setbit_or m i c) = length m"
  by (simp add: setbit_or_def)

lemma length_or_bits [simp]: "length (or_bits m i n v) = length m"
  by (induction n arbitrary: m i) auto

lemma nat_pos_eqI: "i div 8 = k div 8 \<Longrightarrow> 7 - i mod 8 = 7 - k mod 8 \<Longrightarrow> i = (k :: nat)"
  using div_mult_mod_eq [of i 8] div_mult_mod_eq [of k 8]
    mod_less_divisor [of 8 i] mod_less_divisor [of 8 k] by linarith

lemma membit_setbit_or:
  assumes "i < 8 * length m"
  shows "membit (setbit_or m i c) k \<longleftrightarrow> membit m k \<or> (k = i \<and> c)"
proof (cases "k div 8 = i div 8")
  case True
  have "i div 8 < length m" using assms by (simp add: less_mult_imp_div_less mult.commute)
  moreover have "bit (push_bit (7 - i mod 8) (of_bool c) :: byte) (7 - k mod 8) \<longleftrightarrow>
      c \<and> 7 - k mod 8 = 7 - i mod 8"
    by (auto simp: bit_push_bit_iff bit_of_bool_iff intro!: le_antisym diff_le_mono2)
  moreover have "7 - k mod 8 = 7 - i mod 8 \<longleftrightarrow> k = i"
    using True nat_pos_eqI [of k i] by auto
  ultimately show ?thesis
    using True by (auto simp: membit_def setbit_or_def bit_or_iff)
qed (auto simp: membit_def setbit_or_def)

lemma membit_or_bits:
  assumes "i + n \<le> 8 * length m"
  shows "membit (or_bits m i n v) k \<longleftrightarrow>
    membit m k \<or> (i \<le> k \<and> k < i + n \<and> bit v (i + n - 1 - k))"
  using assms
proof (induction n arbitrary: m i)
  case 0
  then show ?case by auto
next
  case (Suc n)
  then show ?case
    by (auto simp: membit_setbit_or not_less_eq_eq le_less Suc_le_eq)
qed

lemma ucast_putbit:
  assumes "k < 8"
  shows "ucast ((ucast (old :: byte) :: u32) OR push_bit k (v AND 1)) =
    old OR push_bit k (of_bool (bit v 0))"
proof (rule bit_eqI)
  fix q
  assume "possible_bit TYPE(byte) q"
  then have "q < 8" by simp
  then show "bit (ucast ((ucast old :: u32) OR push_bit k (v AND 1)) :: byte) q =
      bit (old OR push_bit k (of_bool (bit v 0))) q"
    using assms
    unfolding bit_unsigned_iff bit_or_iff bit_push_bit_iff bit_and_iff bit_of_bool_iff bit_1_iff
    by auto
qed

lemma int_div_8: "int i div 8 = int (i div 8)"
  by (simp add: zdiv_int)

lemma bitbuffer_putbit_ok:
  assumes "bb_index b = int i" and "i < 8 * length (bb_buffer b)" and "i + 1 < 2147483648"
  shows "bitbuffer_putbit b v =
    Ok (b\<lparr>bb_buffer := setbit_or (bb_buffer b) i (bit v 0), bb_index := int (i + 1)\<rparr>)"
proof -
  have "nat (int i div 8) = i div 8" "nat (7 - int i mod 8) = 7 - i mod 8" "i div 8 < length (bb_buffer b)"
    using assms(2) by (auto simp: nat_div_distrib zmod_int nat_diff_distrib' nat_mod_distrib)
  moreover have "7 - i mod 8 < 8" by arith
  moreover from calculation have "mem_get (bb_buffer b) (int i div 8) = Ok (bb_buffer b ! (i div 8))"
    by (simp add: mem_get_def int_div_8)
  ultimately show ?thesis
    using assms by (simp add: bitbuffer_putbit_def setbit_or_def ucast_putbit add.commute
        del: of_nat_Suc of_nat_add push_bit_and flip: of_nat_Suc)
qed

lemma bitbuffer_putbits_ok:
  assumes "bb_index b = int i" and "i + n \<le> 8 * length (bb_buffer b)"
    and "i + n < 2147483648" and "n \<le> 32"
  shows "bitbuffer_putbits b (int n) v =
    Ok (b\<lparr>bb_buffer := or_bits (bb_buffer b) i n v, bb_index := int (i + n)\<rparr>)"
  using assms
proof (induction n arbitrary: b i)
  case 0
  then show ?case by (subst bitbuffer_putbits.simps) simp
next
  case (Suc n)
  have "bitbuffer_putbit b (drop_bit n v AND 1) =
      Ok (b\<lparr>bb_buffer := setbit_or (bb_buffer b) i (bit v n), bb_index := int (i + 1)\<rparr>)"
    using Suc.prems by (subst bitbuffer_putbit_ok) (auto simp: and_1_bit bit_of_bool_iff)
  then show ?case
    using Suc.prems Suc.IH [of "b\<lparr>bb_buffer := setbit_or (bb_buffer b) i (bit v n), bb_index := int (i + 1)\<rparr>" "i + 1"]
    by (subst bitbuffer_putbits.simps) simp
qed

section \<open>The interface of a bit stream and its clients\<close>

text \<open>
  The clients (\<open>output_write\<close>, \<open>node_fill\<close>, \<open>block_fill\<close>, \<open>traverse\<close>, the kernel's
  readers) put and get runs of fields.  A field is a width and a value; \<open>width_sum\<close> is
  the number of bits of a run, and \<open>holds f i fs\<close> says that the bits \<open>f\<close> from
  \<open>i\<close> on are those of the run \<open>fs\<close>.
\<close>

type_synonym field = "int \<times> u32"

definition width_sum :: "field list \<Rightarrow> nat" where
  "width_sum fs = sum_list (map (\<lambda>f. nat (fst f)) fs)"

definition widths_ok :: "field list \<Rightarrow> bool" where
  "widths_ok fs \<longleftrightarrow> (\<forall>f \<in> set fs. 0 \<le> fst f \<and> fst f \<le> 32)"

fun holds :: "(nat \<Rightarrow> bool) \<Rightarrow> nat \<Rightarrow> field list \<Rightarrow> bool" where
  "holds f i [] = True"
| "holds f i ((n, v) # fs) =
     ((\<forall>j < nat n. f (i + j) = bit v (nat n - 1 - j)) \<and> holds f (i + nat n) fs)"

definition field_value :: "field \<Rightarrow> u32" where
  "field_value f = take_bit (nat (fst f)) (snd f)"

definition put_seq :: "('s \<Rightarrow> int \<Rightarrow> u32 \<Rightarrow> 's res) \<Rightarrow> field list \<Rightarrow> 's \<Rightarrow> 's res" where
  "put_seq put fs s = rfold (\<lambda>(n, v) s. put s n v) fs s"

fun get_seq :: "('s \<Rightarrow> int \<Rightarrow> (u32 \<times> 's) res) \<Rightarrow> int list \<Rightarrow> 's \<Rightarrow> (u32 list \<times> 's) res" where
  "get_seq get [] s = Ok ([], s)"
| "get_seq get (n # ns) s =
     rbind (get s n) (\<lambda>(v, s). rbind (get_seq get ns s) (\<lambda>(vs, s). Ok (v # vs, s)))"

lemma width_sum_simps [simp]:
  "width_sum [] = 0"
  "width_sum ((n, v) # fs) = nat n + width_sum fs"
  "width_sum (fs @ gs) = width_sum fs + width_sum gs"
  by (simp_all add: width_sum_def)

lemma widths_ok_simps [simp]:
  "widths_ok []"
  "widths_ok ((n, v) # fs) \<longleftrightarrow> 0 \<le> n \<and> n \<le> 32 \<and> widths_ok fs"
  "widths_ok (fs @ gs) \<longleftrightarrow> widths_ok fs \<and> widths_ok gs"
  by (auto simp: widths_ok_def)

lemma holds_append: "holds f i (fs @ gs) \<longleftrightarrow> holds f i fs \<and> holds f (i + width_sum fs) gs"
  by (induction fs arbitrary: i) (auto simp: add.assoc)

lemma holds_cong:
  "(\<And>k. i \<le> k \<Longrightarrow> k < i + width_sum fs \<Longrightarrow> f k = g k) \<Longrightarrow> holds f i fs = holds g i fs"
  by (induction fs arbitrary: i) auto

lemma put_seq_append: "put_seq put (fs @ gs) s = rbind (put_seq put fs s) (put_seq put gs)"
  by (simp add: put_seq_def [abs_def] rfold_append)

locale bit_stream =
  fixes put :: "'s \<Rightarrow> int \<Rightarrow> u32 \<Rightarrow> 's res"
    and get :: "'s \<Rightarrow> int \<Rightarrow> (u32 \<times> 's) res"
    and bits :: "'s \<Rightarrow> nat \<Rightarrow> bool"
    and pos :: "'s \<Rightarrow> nat"
    and cap :: "'s \<Rightarrow> nat"
    and wf :: "'s \<Rightarrow> bool"
  assumes put_ok: "wf s \<Longrightarrow> n \<le> 32 \<Longrightarrow> pos s + n \<le> cap s \<Longrightarrow>
      \<exists>s'. put s (int n) v = Ok s' \<and> wf s' \<and> cap s' = cap s \<and> pos s' = pos s + n \<and>
        (\<forall>k. bits s' k \<longleftrightarrow> bits s k \<or> (pos s \<le> k \<and> k < pos s + n \<and> bit v (pos s + n - 1 - k)))"
    and get_ok: "wf s \<Longrightarrow> pos s + n \<le> cap s \<Longrightarrow>
      \<exists>s'. get s (int n) = Ok (bval (bits s) (pos s) n 0, s') \<and> wf s' \<and> cap s' = cap s \<and>
        pos s' = pos s + n \<and> bits s' = bits s"
begin

lemma put_seq_ok:
  assumes "wf s" and "widths_ok fs" and "pos s + width_sum fs \<le> cap s"
    and "\<forall>k \<ge> pos s. k < cap s \<longrightarrow> \<not> bits s k"
  shows "\<exists>s'. put_seq put fs s = Ok s' \<and> wf s' \<and> cap s' = cap s \<and>
    pos s' = pos s + width_sum fs \<and> holds (bits s') (pos s) fs \<and>
    (\<forall>k < pos s. bits s' k = bits s k) \<and> (\<forall>k \<ge> pos s'. k < cap s \<longrightarrow> \<not> bits s' k)"
  using assms
proof (induction fs arbitrary: s)
  case Nil
  then show ?case by (simp add: put_seq_def)
next
  case (Cons f fs)
  obtain n v where f: "f = (n, v)" by (cases f)
  define m where "m = nat n"
  have n: "n = int m" "m \<le> 32" using Cons.prems(2) by (auto simp: f m_def)
  have room: "pos s + m + width_sum fs \<le> cap s" using Cons.prems(3) by (simp add: f n)
  obtain s1 where s1: "put s n v = Ok s1" "wf s1" "cap s1 = cap s" "pos s1 = pos s + m"
    and b1: "\<And>k. bits s1 k \<longleftrightarrow> bits s k \<or> (pos s \<le> k \<and> k < pos s + m \<and> bit v (pos s + m - 1 - k))"
    using put_ok [of s m v] Cons.prems(1) n room by auto
  obtain s' where s': "put_seq put fs s1 = Ok s'" "wf s'" "cap s' = cap s1"
    "pos s' = pos s1 + width_sum fs" "holds (bits s') (pos s1) fs"
    "\<forall>k < pos s1. bits s' k = bits s1 k" "\<forall>k \<ge> pos s'. k < cap s1 \<longrightarrow> \<not> bits s' k"
    using Cons.IH [of s1] Cons.prems s1 b1 room by (force simp: f)
  have "bits s' (pos s + j) = bit v (m - 1 - j)" if "j < m" for j
    using that s'(6) s1(4) b1 [of "pos s + j"] Cons.prems(4) room by auto
  moreover have "bits s' k = bits s k" if "k < pos s" for k
    using that s'(6) s1(4) b1 [of k] by auto
  ultimately show ?case
    using s1 s' by (auto simp: put_seq_def f n add.assoc)
qed

lemma get_seq_ok:
  assumes "wf s" and "widths_ok fs" and "pos s + width_sum fs \<le> cap s"
    and "holds (bits s) (pos s) fs"
  shows "\<exists>s'. get_seq get (map fst fs) s = Ok (map field_value fs, s') \<and> wf s' \<and>
    cap s' = cap s \<and> pos s' = pos s + width_sum fs \<and> bits s' = bits s"
  using assms
proof (induction fs arbitrary: s)
  case (Cons f fs)
  obtain n v where f: "f = (n, v)" by (cases f)
  define m where "m = nat n"
  have n: "n = int m" using Cons.prems(2) by (auto simp: f m_def)
  obtain s1 where s1: "get s n = Ok (bval (bits s) (pos s) m 0, s1)" "wf s1" "cap s1 = cap s"
    "pos s1 = pos s + m" "bits s1 = bits s"
    using get_ok [of s m] Cons.prems n by (auto simp: f)
  have v: "bval (bits s) (pos s) m 0 = field_value f"
    using Cons.prems(4) by (simp add: bval_window f n field_value_def)
  obtain s' where "get_seq get (map fst fs) s1 = Ok (map field_value fs, s')" "wf s'"
    "cap s' = cap s1" "pos s' = pos s1 + width_sum fs" "bits s' = bits s1"
    using Cons.IH [of s1] Cons.prems s1 by (auto simp: f n)
  then show ?case using s1 v by (auto simp: f n)
qed simp

end

text \<open>The bit buffer is such a stream, as long as its object has fewer than \<open>2 ^ 31\<close> bits.\<close>

definition bb_wf :: "bitbuffer \<Rightarrow> bool" where
  "bb_wf b \<longleftrightarrow> 0 \<le> bb_index b \<and> 8 * length (bb_buffer b) < 2 ^ 31"

interpretation bb: bit_stream bitbuffer_putbits bitbuffer_getbits
  "\<lambda>b. membit (bb_buffer b)" "\<lambda>b. nat (bb_index b)" "\<lambda>b. 8 * length (bb_buffer b)" bb_wf
proof unfold_locales
  fix s :: bitbuffer and n :: nat and v :: u32
  assume "bb_wf s" "n \<le> 32" "nat (bb_index s) + n \<le> 8 * length (bb_buffer s)"
  then show "\<exists>s'. bitbuffer_putbits s (int n) v = Ok s' \<and> bb_wf s' \<and>
      8 * length (bb_buffer s') = 8 * length (bb_buffer s) \<and>
      nat (bb_index s') = nat (bb_index s) + n \<and>
      (\<forall>k. membit (bb_buffer s') k \<longleftrightarrow> membit (bb_buffer s) k \<or>
        (nat (bb_index s) \<le> k \<and> k < nat (bb_index s) + n \<and> bit v (nat (bb_index s) + n - 1 - k)))"
    using bitbuffer_putbits_ok [of s "nat (bb_index s)" n v]
    by (auto simp: bb_wf_def membit_or_bits)
next
  fix s :: bitbuffer and n :: nat
  assume "bb_wf s" "nat (bb_index s) + n \<le> 8 * length (bb_buffer s)"
  then show "\<exists>s'. bitbuffer_getbits s (int n) = Ok (bval (membit (bb_buffer s)) (nat (bb_index s)) n 0, s') \<and>
      bb_wf s' \<and> 8 * length (bb_buffer s') = 8 * length (bb_buffer s) \<and>
      nat (bb_index s') = nat (bb_index s) + n \<and> membit (bb_buffer s') = membit (bb_buffer s)"
    using getbits_loop_ok [of s "nat (bb_index s)" n 0]
    by (auto simp: bb_wf_def bitbuffer_getbits_def)
qed

abbreviation putbits_seq :: "field list \<Rightarrow> bitbuffer \<Rightarrow> bitbuffer res" where
  "putbits_seq \<equiv> put_seq bitbuffer_putbits"

abbreviation getbits_seq :: "int list \<Rightarrow> bitbuffer \<Rightarrow> (u32 list \<times> bitbuffer) res" where
  "getbits_seq \<equiv> get_seq bitbuffer_getbits"

section \<open>Reading past the end\<close>

lemma getbits_bytes_sum:
  assumes "getbits_bytes b n t = Ok (b', n', t')" and "bb_index b mod 8 = 0" and "0 \<le> bb_index b"
    and "bb_index b \<le> 8 * int (length (bb_buffer b))" and "0 \<le> n"
  shows "bb_buffer b' = bb_buffer b \<and> bb_index b' + n' = bb_index b + n \<and> 0 \<le> n' \<and>
    0 \<le> bb_index b' \<and> bb_index b' \<le> 8 * int (length (bb_buffer b))"
  using assms
proof (induction b n t rule: getbits_bytes.induct)
  case (1 b n t)
  show ?case
  proof (cases "n \<ge> 8")
    case True
    with "1.prems"(1,3) obtain v where v: "mem_get (bb_buffer b) (bb_index b div 8) = Ok v"
      and k: "c_int (bb_index b + 8) = Ok (bb_index b + 8)"
      and r: "getbits_bytes (b\<lparr>bb_index := bb_index b + 8\<rparr>) (n - 8) (push_bit 8 t OR ucast v) = Ok (b', n', t')"
      by (subst (asm) getbits_bytes.simps) (auto simp: c_int_eq_Ok)
    from v have "bb_index b div 8 < int (length (bb_buffer b))" by (simp add: mem_get_eq_Ok)
    with "1.prems"(2) have "bb_index b + 8 \<le> 8 * int (length (bb_buffer b))" by presburger
    with "1.IH" [OF True _ k r] v "1.prems" True show ?thesis by simp
  next
    case False
    with "1.prems" show ?thesis by (subst (asm) getbits_bytes.simps) auto
  qed
qed

lemma getbits_bytes_not_Err: "getbits_bytes b n t \<notin> {Err e, Timeout}"
  by (induction b n t rule: getbits_bytes.induct)
    (subst getbits_bytes.simps, auto simp: rbind_eq_Err rbind_eq_Timeout mem_get_def c_int_def split: if_split_asm)

lemma bitbuffer_getbit_not_Err: "bitbuffer_getbit b \<noteq> Err e" "bitbuffer_getbit b \<noteq> Timeout"
  by (auto simp: bitbuffer_getbit_def Let_def rbind_eq_Err rbind_eq_Timeout mem_get_def c_int_def
      split: if_split_asm)

lemma getbits_loop_past_end:
  assumes "0 \<le> bb_index b" and "bb_index b \<le> 8 * int (length (bb_buffer b))"
    and "8 * int (length (bb_buffer b)) < bb_index b + n"
  shows "getbits_loop b n t = Undef"
  using assms
proof (induction b n t rule: getbits_loop.induct)
  case (1 b n t)
  have n: "0 < n" using "1.prems" by linarith
  show ?case
  proof (cases "bb_index b smod 8 = 0 \<and> n \<ge> 8")
    case True
    show ?thesis
    proof (cases "getbits_bytes b n t")
      case (Ok x)
      obtain b' n' t' where x: "x = (b', n', t')" by (cases x)
      have s: "bb_buffer b' = bb_buffer b \<and> bb_index b' + n' = bb_index b + n \<and> 0 \<le> n' \<and>
          0 \<le> bb_index b' \<and> bb_index b' \<le> 8 * int (length (bb_buffer b))"
        using getbits_bytes_sum [OF Ok [unfolded x]] True "1.prems" by simp
      have "getbits_loop b' n' t' = Undef"
        using s "1.prems" n True by (intro "1.IH"(1) [OF _ _ Ok x [symmetric] refl]) auto
      with Ok x True n show ?thesis by (subst getbits_loop.simps) simp
    qed (use True n getbits_bytes_not_Err in \<open>subst getbits_loop.simps, auto\<close>)+
  next
    case False
    show ?thesis
    proof (cases "bitbuffer_getbit b")
      case (Ok x)
      obtain v b' where x: "x = (v, b')" by (cases x)
      have s: "b' = b\<lparr>bb_index := bb_index b + 1\<rparr> \<and> bb_index b < 8 * int (length (bb_buffer b))"
        using bitbuffer_getbit_eq_Ok [OF Ok [unfolded x]] .
      have "getbits_loop b' (n - 1) (push_bit 1 t OR v) = Undef"
        using s "1.prems" n False by (intro "1.IH"(2) [OF _ _ Ok x [symmetric]]) auto
      with Ok x False n show ?thesis by (subst getbits_loop.simps) auto
    qed (use False n in \<open>subst getbits_loop.simps, auto simp: bitbuffer_getbit_not_Err\<close>)+
  qed
qed

section \<open>Whole bytes\<close>

lemma getbuffer_loop_ok:
  assumes "bb_index b = int i" and "i + 8 * k \<le> 8 * length (bb_buffer b)" and "i + 8 * k < 2147483648"
  shows "getbuffer_loop b k =
    Ok (map (\<lambda>j. ucast (bval (membit (bb_buffer b)) (i + 8 * j) 8 0)) [0..<k], b\<lparr>bb_index := int (i + 8 * k)\<rparr>)"
  using assms
proof (induction k arbitrary: b i)
  case (Suc k)
  have g: "bitbuffer_getbits b 8 = Ok (bval (membit (bb_buffer b)) i 8 0, b\<lparr>bb_index := int (i + 8)\<rparr>)"
    using getbits_loop_ok [of b i 8 0] Suc.prems by (simp add: bitbuffer_getbits_def)
  have "getbuffer_loop (b\<lparr>bb_index := int (i + 8)\<rparr>) k =
      Ok (map (\<lambda>j. ucast (bval (membit (bb_buffer b)) (i + 8 + 8 * j) 8 0)) [0..<k],
          b\<lparr>bb_index := int (i + 8 + 8 * k)\<rparr>)"
    using Suc.IH [of "b\<lparr>bb_index := int (i + 8)\<rparr>" "i + 8"] Suc.prems by simp
  with g show ?case
    by (simp add: upt_conv_Cons map_Suc_upt [symmetric] add.assoc del: upt_Suc bval.simps)
qed simp

lemma bval_byte_ucast: "ucast (bval (membit m) (8 * j) 8 0) = m ! j"
  by (rule bit_eqI) (auto simp: bval_byte bit_unsigned_iff)

section \<open>Properties\<close>

text \<open>
  C16. Inside the object, \<open>bitbuffer_getbits\<close>, which takes whole bytes wherever the
  cursor stands at one, returns what the bit-by-bit reference reader returns (the last
  32 bits of it when more are asked for) and advances the cursor by \<open>n\<close>.
\<close>

theorem bitbuffer_getbits_reference:
  assumes "0 \<le> bb_index b" and "0 \<le> n" and "bb_index b + n \<le> 8 * int (length (bb_buffer b))"
    and "bb_index b + n < 2 ^ 31"
  shows "bitbuffer_getbits b n =
    Ok (bval (membit (bb_buffer b)) (nat (bb_index b)) (nat n) 0, b\<lparr>bb_index := bb_index b + n\<rparr>)"
  using getbits_loop_ok [of b "nat (bb_index b)" "nat n" 0] assms
  by (simp add: bitbuffer_getbits_def nat_add_distrib [symmetric] le_nat_iff nat_le_iff)

lemma bitbuffer_getbits_reference_witness:
  "bitbuffer_getbits \<lparr>bb_buffer = [0xA5, 0xF0], bb_end = 2, bb_size = 2, bb_bsize = 16,
      bb_index = 3, bb_external = True\<rparr> 9 =
    Ok (0x5F, \<lparr>bb_buffer = [0xA5, 0xF0], bb_end = 2, bb_size = 2, bb_bsize = 16,
      bb_index = 12, bb_external = True\<rparr>)"
proof -
  have "bval (membit [0xA5, 0xF0]) 3 9 0 = 0x5F" by code_simp
  then show ?thesis
    using bitbuffer_getbits_reference [of "\<lparr>bb_buffer = [0xA5, 0xF0], bb_end = 2, bb_size = 2,
      bb_bsize = 16, bb_index = 3, bb_external = True\<rparr>" 9] by simp
qed

text \<open>
  C27. The cursor leaves the object unnoticed: there is no test against \<open>size\<close>, and a
  read of more bits than the object has left is an access outside it.
\<close>

theorem bitbuffer_getbits_past_end:
  assumes "0 \<le> bb_index b" and "bb_index b \<le> 8 * int (length (bb_buffer b))"
    and "8 * int (length (bb_buffer b)) < bb_index b + n"
  shows "bitbuffer_getbits b n = Undef"
  using assms by (simp add: bitbuffer_getbits_def getbits_loop_past_end)

lemma bitbuffer_getbits_past_end_witness:
  "bitbuffer_getbits \<lparr>bb_buffer = [0xA5, 0xF0], bb_end = 2, bb_size = 2, bb_bsize = 16,
      bb_index = 3, bb_external = True\<rparr> 14 = Undef"
  by (rule bitbuffer_getbits_past_end) simp_all

text \<open>
  C15. A run of fields of at most 32 bits each that is put into a fresh bit buffer large
  enough is got back from its bytes, every field reduced to its width.
\<close>

theorem bitbuffer_fields_roundtrip:
  assumes "heap_ok alloc" and "widths_ok fs" and "0 \<le> sz" and "sz < 2 ^ 28"
    and "int (width_sum fs) \<le> 8 * sz"
  shows "\<exists>b0 b1 b2 b3.
    bitbuffer_init alloc sz = Ok b0 \<and> putbits_seq fs b0 = Ok b1 \<and>
    bitbuffer_init_from_buffer (bitbuffer_buffer b1) sz = Ok b2 \<and>
    getbits_seq (map fst fs) b2 = Ok (map field_value fs, b3)"
proof -
  let ?b0 = "\<lparr>bb_buffer = replicate (nat sz) 0, bb_end = sz, bb_size = sz, bb_bsize = sz * 8,
    bb_index = 0, bb_external = False\<rparr>"
  have 0: "bitbuffer_init alloc sz = Ok ?b0"
    using assms by (simp add: bitbuffer_init_def)
  have z: "\<not> membit (replicate (nat sz) 0) k" if "k < 8 * nat sz" for k
    using that by (simp add: membit_def nth_replicate less_mult_imp_div_less mult.commute)
  have "bb_wf ?b0" "nat (bb_index ?b0) + width_sum fs \<le> 8 * length (bb_buffer ?b0)"
    "\<forall>k \<ge> nat (bb_index ?b0). k < 8 * length (bb_buffer ?b0) \<longrightarrow> \<not> membit (bb_buffer ?b0) k"
    using assms z by (auto simp: bb_wf_def nat_le_iff)
  from bb.put_seq_ok [OF this(1) assms(2) this(2,3)]
  obtain b1 where b1: "putbits_seq fs ?b0 = Ok b1" "bb_wf b1"
    "length (bb_buffer b1) = nat sz" "holds (membit (bb_buffer b1)) 0 fs" by auto
  let ?b2 = "\<lparr>bb_buffer = bb_buffer b1, bb_end = sz, bb_size = sz, bb_bsize = sz * 8,
    bb_index = 0, bb_external = True\<rparr>"
  have 2: "bitbuffer_init_from_buffer (bitbuffer_buffer b1) sz = Ok ?b2"
    using assms by (simp add: bitbuffer_init_from_buffer_def bitbuffer_buffer_def)
  have "bb_wf ?b2" "nat (bb_index ?b2) + width_sum fs \<le> 8 * length (bb_buffer ?b2)"
    "holds (membit (bb_buffer ?b2)) (nat (bb_index ?b2)) fs"
    using assms b1 by (auto simp: bb_wf_def nat_le_iff)
  from bb.get_seq_ok [OF this(1) assms(2) this(2,3)]
  obtain b3 where "getbits_seq (map fst fs) ?b2 = Ok (map field_value fs, b3)" by auto
  with 0 b1(1) 2 show ?thesis by blast
qed

lemma bitbuffer_fields_roundtrip_witness:
  "\<exists>b0 b1 b2 b3.
    bitbuffer_init (\<lambda>_. True) 2 = Ok b0 \<and> putbits_seq [(3, 5), (11, 1025)] b0 = Ok b1 \<and>
    bitbuffer_init_from_buffer (bitbuffer_buffer b1) 2 = Ok b2 \<and>
    getbits_seq (map fst [(3, 5 :: u32), (11, 1025)]) b2 =
      Ok (map field_value [(3, 5), (11, 1025)], b3)"
  by (rule bitbuffer_fields_roundtrip) (simp_all add: heap_ok_def)

text \<open>
  C22. \<open>bitbuffer_getbuffer\<close> copies the bytes with \<open>memcpy\<close> at a byte boundary and takes
  them eight bits at a time elsewhere; inside the object the two paths deliver the same:
  the bytes that the bit sequence spells from the cursor on.
\<close>

theorem bitbuffer_getbuffer_paths_agree:
  assumes "0 \<le> bb_index b" and "0 \<le> n" and "bb_index b + 8 * n \<le> 8 * int (length (bb_buffer b))"
    and "bb_index b + 8 * n < 2 ^ 31"
  shows "bitbuffer_getbuffer b n =
    Ok (map (\<lambda>k. ucast (bval (membit (bb_buffer b)) (nat (bb_index b) + 8 * k) 8 0)) [0..<nat n],
        b\<lparr>bb_index := bb_index b + 8 * n\<rparr>)"
proof (cases "bb_index b mod 8 = 0")
  case False
  then show ?thesis
    using getbuffer_loop_ok [of b "nat (bb_index b)" "nat n"] assms
    by (auto simp: bitbuffer_getbuffer_def)
next
  case True
  define j where "j = nat (bb_index b div 8)"
  have "bb_index b = 8 * int j" using True assms(1) by (simp add: j_def) presburger
  then have j: "nat (bb_index b) = 8 * j" "bb_index b = 8 * int j" by simp_all
  have l: "j + nat n \<le> length (bb_buffer b)" using assms j by linarith
  have "take (nat n) (drop j (bb_buffer b)) =
      map (\<lambda>k. ucast (bval (membit (bb_buffer b)) (8 * j + 8 * k) 8 0)) [0..<nat n]"
    unfolding distrib_left [symmetric] bval_byte_ucast
    by (rule nth_equalityI) (use l in auto)
  then show ?thesis
    using assms j l by (simp add: bitbuffer_getbuffer_def mult.commute)
qed

lemma bitbuffer_getbuffer_paths_agree_witness:
  "\<exists>b'. bitbuffer_getbuffer \<lparr>bb_buffer = [0xA5, 0xF0, 0x0F], bb_end = 3, bb_size = 3, bb_bsize = 24,
      bb_index = 4, bb_external = True\<rparr> 2 = Ok ([0x5F, 0x00], b')"
proof -
  have "map (\<lambda>k. ucast (bval (membit [0xA5, 0xF0, 0x0F]) (nat 4 + 8 * k) 8 0)) [0..<nat 2] =
      [0x5F, 0x00 :: byte]" by code_simp
  then show ?thesis
    using bitbuffer_getbuffer_paths_agree [of "\<lparr>bb_buffer = [0xA5, 0xF0, 0x0F], bb_end = 3,
      bb_size = 3, bb_bsize = 24, bb_index = 4, bb_external = True\<rparr>" 2] by simp
qed

end
