(* ===== verification/Buffer.thy ===== *)
theory Buffer
  imports Smash_Prelude
begin

text \<open>
  \<open>src/mkfs/buffer.c\<close>: the growable byte buffer in which \<open>mkfs.smashfs\<close> collects the
  parts of an image and \<open>unfs.smashfs\<close> the parts it has read.

  \<open>bf_buffer\<close> holds the bytes of the object that have been written (a prefix of its
  \<open>bf_size\<close> bytes), \<open>bf_length\<close> how many of them count.
\<close>

section \<open>The structure and its operations\<close>

record buffer =
  bf_buffer :: memory
  bf_size :: nat
  bf_length :: nat

definition buffer_init :: buffer where
  "buffer_init = \<lparr>bf_buffer = [], bf_size = 0, bf_length = 0\<rparr>"

definition buffer_reset :: "buffer \<Rightarrow> buffer" where
  "buffer_reset b = b\<lparr>bf_length := 0\<rparr>"

text \<open>\<open>buffer_uninit\<close> frees the object and leaves the structure as it is.\<close>

definition buffer_uninit :: "buffer \<Rightarrow> buffer" where
  "buffer_uninit b = b\<lparr>bf_buffer := []\<rparr>"

definition buffer_length :: "buffer \<Rightarrow> int" where
  "buffer_length b = int (bf_length b)"

definition buffer_buffer :: "buffer \<Rightarrow> memory" where
  "buffer_buffer b = bf_buffer b"

text \<open>The doubling loop of \<open>buffer_add\<close>: the size becomes greater than \<open>need\<close>.\<close>

function grow :: "nat \<Rightarrow> nat \<Rightarrow> nat" where
  "grow need sz = (if need \<ge> sz then grow need (if sz = 0 then 1 else sz * 2) else sz)"
  by pat_completeness auto
termination
  by (relation "measure (\<lambda>(need, sz). need + 1 - sz)") auto

declare grow.simps [simp del]

text \<open>
  \<open>buffer_add\<close> returns the added size converted to \<open>int\<close>, with the new buffer.  When
  the larger object cannot be had it returns -1; every caller then gives up.
\<close>

definition buffer_add :: "heap \<Rightarrow> buffer \<Rightarrow> memory \<Rightarrow> u32 \<Rightarrow> (int \<times> buffer) res" where
  "buffer_add alloc b data sz =
     (let need = bf_length b + unat sz;
          size' = (if need \<ge> bf_size b then grow need (bf_size b) else bf_size b);
          kept = (if need \<ge> bf_size b then take (bf_length b) (bf_buffer b) else bf_buffer b) in
      rbind (check (need < bf_size b \<or> malloc_ok alloc (int size')) Minus1) (\<lambda>_.
      rbind (mem_slice data 0 (uint sz)) (\<lambda>d.
      Ok (sint sz,
          \<lparr>bf_buffer = take (bf_length b) kept @ d @ drop need kept,
           bf_size = size', bf_length = need\<rparr>))))"

section \<open>The buffer is the sequence of the bytes added to it\<close>

definition buffer_wf :: "buffer \<Rightarrow> bool" where
  "buffer_wf b \<longleftrightarrow> bf_length b \<le> length (bf_buffer b) \<and> length (bf_buffer b) \<le> bf_size b \<and>
     (bf_size b = 0 \<or> bf_length b < bf_size b)"

definition buffer_contents :: "buffer \<Rightarrow> memory" where
  "buffer_contents b = take (bf_length b) (bf_buffer b)"

lemma grow_greater: "need < grow need sz"
proof (induction need sz rule: grow.induct)
  case (1 need sz)
  then show ?case by (subst grow.simps) auto
qed

lemma grow_bound: "grow need sz \<le> max sz (2 * need + 1)"
proof (induction need sz rule: grow.induct)
  case (1 need sz)
  then show ?case by (subst grow.simps) (auto simp: max_def split: if_splits)
qed

lemma buffer_wf_init [simp]: "buffer_wf buffer_init" "buffer_contents buffer_init = []"
  by (simp_all add: buffer_wf_def buffer_init_def buffer_contents_def)

lemma length_buffer_contents: "buffer_wf b \<Longrightarrow> length (buffer_contents b) = bf_length b"
  by (simp add: buffer_wf_def buffer_contents_def)

lemma buffer_length_contents: "buffer_wf b \<Longrightarrow> buffer_length b = int (length (buffer_contents b))"
  by (simp add: length_buffer_contents buffer_length_def)

lemma buffer_wf_reset: "buffer_wf b \<Longrightarrow> buffer_wf (buffer_reset b)"
  by (auto simp: buffer_wf_def buffer_reset_def)

lemma buffer_reset_contents [simp]: "buffer_contents (buffer_reset b) = []"
  by (simp add: buffer_contents_def buffer_reset_def)

text \<open>
  The interface its clients rely on: a sink of bytes.  \<open>add s d\<close> appends the whole of
  \<open>d\<close> or fails, and a run of additions appends the concatenation.
\<close>

locale byte_sink =
  fixes add :: "'s \<Rightarrow> memory \<Rightarrow> u32 \<Rightarrow> (int \<times> 's) res"
    and contents :: "'s \<Rightarrow> memory"
    and wf :: "'s \<Rightarrow> bool"
    and cap :: "'s \<Rightarrow> nat"
    and roomy :: bool
  assumes add_contents: "wf s \<Longrightarrow> add s d n = Ok (r, s') \<Longrightarrow>
      wf s' \<and> r = sint n \<and> contents s' = contents s @ take (unat n) d \<and> unat n \<le> length d"
    and add_total: "wf s \<Longrightarrow> roomy \<Longrightarrow> length (contents s) + unat n < 2 ^ 60 \<Longrightarrow>
      cap s \<le> 2 ^ 61 \<Longrightarrow> unat n \<le> length d \<Longrightarrow> \<exists>r. add s d n = Ok r"
    and add_cap: "wf s \<Longrightarrow> add s d n = Ok (r, s') \<Longrightarrow> length (contents s') < 2 ^ 60 \<Longrightarrow>
      cap s \<le> 2 ^ 61 \<Longrightarrow> cap s' \<le> 2 ^ 61"
begin

definition adds :: "memory list \<Rightarrow> 's \<Rightarrow> 's res" where
  "adds ds s = rfold (\<lambda>d s. rbind (add s d (of_nat (length d))) (\<lambda>(r, s). Ok s)) ds s"

lemma add_whole:
  assumes "wf s" and "roomy" and "length d < 2147483648"
    and "cap s \<le> 2 ^ 61" and "length (contents s) + length d < 2 ^ 60"
  shows "\<exists>s'. add s d (of_nat (length d)) = Ok (int (length d), s') \<and> wf s' \<and>
    cap s' \<le> 2 ^ 61 \<and> contents s' = contents s @ d"
proof -
  have u: "unat (of_nat (length d) :: u32) = length d"
    using assms(3) by (simp add: unat_of_nat)
  have i: "sint (of_nat (length d) :: u32) = int (length d)"
    using assms(3) sint_to_u32_id [of "int (length d)"] by simp
  from add_total [OF assms(1,2), of "of_nat (length d)" d] u assms(4,5)
  obtain r s' where a: "add s d (of_nat (length d)) = Ok (r, s')" by auto
  have c: "wf s'" "r = int (length d)" "contents s' = contents s @ d"
    using add_contents [OF assms(1) a] u i by auto
  then have "cap s' \<le> 2 ^ 61"
    using add_cap [OF assms(1) a _ assms(4)] assms(5) by simp
  with a c show ?thesis by auto
qed

lemma adds_contents:
  assumes "wf s" and "roomy" and "\<forall>d \<in> set ds. length d < 2147483648"
    and "cap s \<le> 2 ^ 61" and "length (contents s) + length (concat ds) < 2 ^ 60"
  shows "\<exists>s'. adds ds s = Ok s' \<and> wf s' \<and> cap s' \<le> 2 ^ 61 \<and>
    contents s' = contents s @ concat ds"
  using assms
proof (induction ds arbitrary: s)
  case (Cons d ds)
  obtain s1 where "add s d (of_nat (length d)) = Ok (int (length d), s1)" "wf s1"
    "cap s1 \<le> 2 ^ 61" "contents s1 = contents s @ d"
    using add_whole [of s d] Cons.prems by auto
  then show ?case using Cons.IH [of s1] Cons.prems by (auto simp: adds_def)
qed (simp add: adds_def)

end

interpretation sink: byte_sink "buffer_add alloc" buffer_contents buffer_wf bf_size "heap_ok alloc"
  for alloc
proof unfold_locales
  fix s d n r s'
  assume wf: "buffer_wf s" and a: "buffer_add alloc s d n = Ok (r, s')"
  from a have d: "unat n \<le> length d" and "r = sint n"
    by (auto simp: buffer_add_def Let_def mem_slice_eq_Ok)
  define need where "need = bf_length s + unat n"
  define k where "k = (if need \<ge> bf_size s then take (bf_length s) (bf_buffer s) else bf_buffer s)"
  from a have s': "s' = \<lparr>bf_buffer = take (bf_length s) k @ take (unat n) d @ drop need k,
      bf_size = (if need \<ge> bf_size s then grow need (bf_size s) else bf_size s), bf_length = need\<rparr>"
    by (auto simp: buffer_add_def Let_def mem_slice_eq_Ok need_def k_def)
  have k: "take (bf_length s) k = buffer_contents s" "bf_length s \<le> length k"
    "length k \<le> bf_size s"
    using wf by (auto simp: k_def buffer_contents_def buffer_wf_def)
  have "buffer_wf s'"
    using wf d k length_buffer_contents [OF wf] grow_greater [of need "bf_size s"]
    by (auto simp: s' buffer_wf_def need_def k_def split: if_splits)
  moreover have "buffer_contents s' = take need (bf_buffer s')"
    by (simp add: buffer_contents_def s')
  then have "buffer_contents s' = buffer_contents s @ take (unat n) d"
    using d k(1,2) length_buffer_contents [OF wf] by (simp add: s' need_def)
  ultimately show "buffer_wf s' \<and> r = sint n \<and>
      buffer_contents s' = buffer_contents s @ take (unat n) d \<and> unat n \<le> length d"
    using d \<open>r = sint n\<close> by simp
next
  fix s :: buffer and d :: memory and n :: u32
  assume wf: "buffer_wf s" and h: "heap_ok alloc" and l: "length (buffer_contents s) + unat n < 2 ^ 60"
    and c: "bf_size s \<le> 2 ^ 61" and d: "unat n \<le> length d"
  have "grow (bf_length s + unat n) (bf_size s) \<le> max (bf_size s) (2 * (bf_length s + unat n) + 1)"
    by (rule grow_bound)
  then have "grow (bf_length s + unat n) (bf_size s) \<le> 2 ^ 61"
    using l c length_buffer_contents [OF wf] by simp
  then have "malloc_ok alloc (int (grow (bf_length s + unat n) (bf_size s)))"
    using h by (intro heap_okD) auto
  then show "\<exists>r. buffer_add alloc s d n = Ok r"
    using d by (auto simp: buffer_add_def Let_def mem_slice_def)
next
  fix s d n r s'
  assume wf: "buffer_wf s" and a: "buffer_add alloc s d n = Ok (r, s')"
    and l: "length (buffer_contents s') < 2 ^ 60" and c: "bf_size s \<le> 2 ^ 61"
  have s': "bf_length s' = bf_length s + unat n" "bf_length s' \<le> length (bf_buffer s')"
    "bf_size s' \<le> max (bf_size s) (grow (bf_length s + unat n) (bf_size s))"
    using wf a by (auto simp: buffer_add_def Let_def mem_slice_eq_Ok buffer_wf_def split: if_splits)
  moreover have "grow (bf_length s + unat n) (bf_size s) \<le> max (bf_size s) (2 * (bf_length s + unat n) + 1)"
    by (rule grow_bound)
  ultimately show "bf_size s' \<le> 2 ^ 61"
    using l c by (auto simp: buffer_contents_def)
qed

text \<open>The form in which the writers use it, with the bounds of the buffer in one place.\<close>

definition buffer_ok :: "buffer \<Rightarrow> bool" where
  "buffer_ok b \<longleftrightarrow> buffer_wf b \<and> bf_size b \<le> 2 ^ 61"

lemma buffer_ok_init [simp]: "buffer_ok buffer_init"
  by (simp add: buffer_ok_def) (simp add: buffer_init_def)

lemma buffer_add_ok:
  assumes "buffer_ok b" and "heap_ok alloc" and "length d < 2147483648"
    and "length (buffer_contents b) + length d < 2 ^ 60"
  shows "\<exists>b'. buffer_add alloc b d (of_nat (length d)) = Ok (int (length d), b') \<and>
    buffer_ok b' \<and> buffer_contents b' = buffer_contents b @ d"
  using sink.add_whole [of b alloc d] assms by (auto simp: buffer_ok_def)

lemma buffer_ok_length: "buffer_ok b \<Longrightarrow> buffer_length b = int (length (buffer_contents b))"
  by (simp add: buffer_ok_def buffer_length_contents)

lemma buffer_buffer_prefix: "buffer_ok b \<Longrightarrow> take (bf_length b) (buffer_buffer b) = buffer_contents b"
  by (simp add: buffer_contents_def buffer_buffer_def)

section \<open>Properties\<close>

text \<open>
  C21. Adding to the buffer: with memory to be had, \<open>buffer_add\<close> returns the number of
  bytes, keeps the invariant of the structure (in particular \<open>length < size\<close>), and the
  contents grow by exactly the bytes added.
\<close>

theorem buffer_add_appends:
  assumes "buffer_wf b" and "bf_size b \<le> 2 ^ 61" and "heap_ok alloc" and "length d < 2 ^ 31"
    and "length (buffer_contents b) + length d < 2 ^ 60"
  shows "\<exists>b'. buffer_add alloc b d (of_nat (length d)) = Ok (int (length d), b') \<and>
    buffer_wf b' \<and> bf_size b' \<le> 2 ^ 61 \<and> buffer_contents b' = buffer_contents b @ d \<and>
    buffer_length b' = buffer_length b + int (length d)"
proof -
  obtain b' where "buffer_add alloc b d (of_nat (length d)) = Ok (int (length d), b')"
    "buffer_ok b'" "buffer_contents b' = buffer_contents b @ d"
    using buffer_add_ok [of b alloc d] assms by (auto simp: buffer_ok_def)
  then show ?thesis
    using assms(1) by (auto simp: buffer_ok_def buffer_length_contents)
qed

lemma buffer_add_appends_witness:
  "\<exists>b'. buffer_add (\<lambda>_. True) buffer_init [1, 2, 3] (of_nat (length [1, 2, 3 :: byte])) =
      Ok (int (length [1, 2, 3 :: byte]), b') \<and>
    buffer_wf b' \<and> bf_size b' \<le> 2 ^ 61 \<and> buffer_contents b' = buffer_contents buffer_init @ [1, 2, 3] \<and>
    buffer_length b' = buffer_length buffer_init + int (length [1, 2, 3 :: byte])"
  by (rule buffer_add_appends) (simp_all add: heap_ok_def, simp add: buffer_init_def)


end
