(* ===== verification/Compressor.thy ===== *)
theory Compressor
  imports Smashfs_Format
begin

text \<open>
  \<open>src/mkfs/compressor*.c\<close> and \<open>src/linux/compressor*.c\<close>: the table of compression
  methods and their wrappers.

  A method is called with the source bytes and the size of the destination and returns
  the \<open>int\<close> of the C function together with the bytes it has put into the destination.
  zlib, liblzma, liblzo2 and the kernel's decompressors are not part of this repository:
  the calls the wrappers make to them are the fields of \<open>libraries\<close>, an argument of the
  wrappers.  \<open>None\<close> stands for any return code but the one the wrapper accepts.
\<close>

type_synonym codec_fn = "memory \<Rightarrow> int \<Rightarrow> int \<times> memory"

record libraries =
  compressBound :: "int \<Rightarrow> int"
  deflateInit2 :: bool
  deflate :: "memory \<Rightarrow> int \<Rightarrow> memory option"
  deflateEnd :: bool
  inflateInit2 :: bool
  inflate :: "memory \<Rightarrow> int \<Rightarrow> memory option"
  inflateEnd :: bool
  lzma_alone_encoder :: "int \<Rightarrow> bool"
  lzma_encode :: "int \<Rightarrow> memory \<Rightarrow> int \<Rightarrow> memory option"
  lzma_alone_decoder :: "int \<Rightarrow> bool"
  lzma_decode :: "memory \<Rightarrow> int \<Rightarrow> memory option"
  lzo_workmem :: bool
  lzo1x_999_compress :: "memory \<Rightarrow> memory option"
  lzo1x_decompress_safe :: "memory \<Rightarrow> int \<Rightarrow> memory option"
  lzma_easy_buffer_encode :: "memory \<Rightarrow> int \<Rightarrow> memory option"
  lzma_stream_buffer_decode :: "int \<Rightarrow> memory \<Rightarrow> int \<Rightarrow> (memory \<times> int) option"

section \<open>The wrappers of the tools\<close>

definition none_compress :: codec_fn where
  "none_compress src dsize =
     (if dsize < int (length src) then (-1, []) else (to_s32 (int (length src)), src))"

definition none_uncompress :: codec_fn where
  "none_uncompress src dsize =
     (if dsize < int (length src) then (-1, []) else (to_s32 (int (length src)), src))"

definition gzip_compress :: "libraries \<Rightarrow> codec_fn" where
  "gzip_compress lib src dsize =
     (let zlen = compressBound lib (int (length src)); avail_out = uint (to_u32 zlen) in
      if zlen > dsize then (-1, [])
      else if avail_out \<noteq> zlen then (-1, [])
      else if \<not> deflateInit2 lib then (-1, [])
      else case deflate lib src avail_out of
        None \<Rightarrow> (-1, [])
      | Some out \<Rightarrow>
          if \<not> deflateEnd lib then (-1, out) else (to_s32 (int (length out)), out))"

definition gzip_uncompress :: "libraries \<Rightarrow> codec_fn" where
  "gzip_uncompress lib src dsize =
     (if \<not> inflateInit2 lib then (-1, [])
      else case inflate lib src dsize of
        None \<Rightarrow> (-1, [])
      | Some out \<Rightarrow>
          if \<not> inflateEnd lib then (-1, out) else (to_s32 (int (length out)), out))"

definition LZMA_MEMLIMIT :: int where
  "LZMA_MEMLIMIT = 256 * 1024 * 1024"

definition lzma_compress :: "libraries \<Rightarrow> codec_fn" where
  "lzma_compress lib src dsize =
     (let ssize = int (length src);
          dict_size = (if 4096 > ssize then 4096 else ssize) in
      if \<not> lzma_alone_encoder lib dict_size then (-1, [])
      else case lzma_encode lib dict_size src dsize of
        None \<Rightarrow> (-1, [])
      | Some out \<Rightarrow> (to_s32 (int (length out)), out))"

text \<open>The decoder's size is not looked at: success returns \<open>dsize\<close>.\<close>

definition lzma_uncompress :: "libraries \<Rightarrow> codec_fn" where
  "lzma_uncompress lib src dsize =
     (if \<not> lzma_alone_decoder lib LZMA_MEMLIMIT then (-1, [])
      else case lzma_decode lib src dsize of
        None \<Rightarrow> (-1, [])
      | Some out \<Rightarrow> (to_s32 dsize, out))"

text \<open>\<open>dsize\<close> is ignored, and what has been written is there whatever is returned.\<close>

definition lzo_compress :: "libraries \<Rightarrow> codec_fn" where
  "lzo_compress lib src dsize =
     (if \<not> lzo_workmem lib then (-1, [])
      else case lzo1x_999_compress lib src of
        None \<Rightarrow> (-1, [])
      | Some out \<Rightarrow>
          if int (length out) \<ge> int (length src) then (-1, out)
          else (to_s32 (int (length out)), out))"

definition lzo_uncompress :: "libraries \<Rightarrow> codec_fn" where
  "lzo_uncompress lib src dsize =
     (case lzo1x_decompress_safe lib src dsize of
        None \<Rightarrow> (-1, [])
      | Some out \<Rightarrow> (to_s32 (int (length out)), out))"

definition xz_compress :: "libraries \<Rightarrow> codec_fn" where
  "xz_compress lib src dsize =
     (case lzma_easy_buffer_encode lib src dsize of
        None \<Rightarrow> (-1, [])
      | Some out \<Rightarrow> (to_s32 (int (length out)), out))"

definition xz_uncompress :: "libraries \<Rightarrow> codec_fn" where
  "xz_uncompress lib src dsize =
     (case lzma_stream_buffer_decode lib LZMA_MEMLIMIT src dsize of
        None \<Rightarrow> (-1, [])
      | Some (out, src_pos) \<Rightarrow>
          if int (length src) = src_pos then (to_s32 (int (length out)), out) else (-1, out))"

section \<open>The table of the tools\<close>

text \<open>The \<open>SMASHFS_ENABLE_*\<close> switches of the build.\<close>

record build =
  enable_gzip :: bool
  enable_lzma :: bool
  enable_lzo :: bool
  enable_xz :: bool

record compressor =
  c_name :: string
  c_type :: compression_type
  c_compress :: codec_fn
  c_uncompress :: codec_fn

definition none_method :: compressor where
  "none_method = \<lparr>c_name = ''none'', c_type = compression_type_none,
     c_compress = none_compress, c_uncompress = none_uncompress\<rparr>"

definition compressors :: "build \<Rightarrow> libraries \<Rightarrow> compressor list" where
  "compressors bld lib =
     [none_method] @
     (if enable_gzip bld then
        [\<lparr>c_name = ''gzip'', c_type = compression_type_gzip,
          c_compress = gzip_compress lib, c_uncompress = gzip_uncompress lib\<rparr>] else []) @
     (if enable_lzma bld then
        [\<lparr>c_name = ''lzma'', c_type = compression_type_lzma,
          c_compress = lzma_compress lib, c_uncompress = lzma_uncompress lib\<rparr>] else []) @
     (if enable_lzo bld then
        [\<lparr>c_name = ''lzo'', c_type = compression_type_lzo,
          c_compress = lzo_compress lib, c_uncompress = lzo_uncompress lib\<rparr>] else []) @
     (if enable_xz bld then
        [\<lparr>c_name = ''xz'', c_type = compression_type_xz,
          c_compress = xz_compress lib, c_uncompress = xz_uncompress lib\<rparr>] else [])"

fun compressor_create_name :: "compressor list \<Rightarrow> string \<Rightarrow> compressor option" where
  "compressor_create_name [] name = None"
| "compressor_create_name (c # cs) name =
     (if c_name c = name then Some c else compressor_create_name cs name)"

fun compressor_create_type :: "compressor list \<Rightarrow> u32 \<Rightarrow> compressor option" where
  "compressor_create_type [] t = None"
| "compressor_create_type (c # cs) t =
     (if compression_code (c_type c) = t then Some c else compressor_create_type cs t)"

definition compressor_type :: "compressor \<Rightarrow> u32" where
  "compressor_type c = compression_code (c_type c)"

definition compressor_compress :: "compressor \<Rightarrow> codec_fn" where
  "compressor_compress c src dsize = c_compress c src dsize"

definition compressor_uncompress :: "compressor \<Rightarrow> codec_fn" where
  "compressor_uncompress c src dsize = c_uncompress c src dsize"

section \<open>The contract of a compression method\<close>

text \<open>
  What \<open>mkfs.smashfs\<close> and the readers rely on: a successful compression writes exactly
  the number of bytes it returns and nothing past the destination, and uncompressing them
  into a destination of the original size gives the original back, all of it.
\<close>

locale codec =
  fixes comp :: codec_fn and decomp :: codec_fn
  assumes comp_fits: "0 \<le> d \<Longrightarrow> comp src d = (rc, out) \<Longrightarrow> int (length out) \<le> d"
    and comp_returns: "length src < 2147483648 \<Longrightarrow> comp src d = (rc, out) \<Longrightarrow> 0 \<le> rc \<Longrightarrow>
      rc = int (length out)"
    and comp_decomp: "length src < 2147483648 \<Longrightarrow> comp src d = (rc, out) \<Longrightarrow> 0 \<le> rc \<Longrightarrow>
      decomp out (int (length src)) = (int (length src), src)"
begin

lemma decomp_prefix:
  assumes "length src < 2147483648" and "comp src d = (rc, out)" and "0 \<le> rc"
  shows "decomp (take (nat rc) (out @ rest)) (int (length src)) = (int (length src), src)"
  using comp_returns [OF assms] comp_decomp [OF assms] by simp

lemma comp_inject:
  assumes "comp src d = (rc, out)" and "comp src' d' = (rc', out)" and "0 \<le> rc" and "0 \<le> rc'"
    and "length src = length src'" and "length src < 2147483648"
  shows "src = src'"
proof -
  have "length src' < 2147483648" using assms(5,6) by simp
  from comp_decomp [OF assms(6,1,3)] comp_decomp [OF this assms(2,4)] assms(5) show ?thesis
    by (metis prod.inject)
qed

end

interpretation none: codec none_compress none_uncompress
proof unfold_locales
  fix d and src :: memory and rc out
  assume l: "length src < 2147483648" and c: "none_compress src d = (rc, out)" "0 \<le> rc"
  have "out = src" using c by (simp add: none_compress_def split: if_split_asm)
  with l c show "rc = int (length out)" "none_uncompress out (int (length src)) = (int (length src), src)"
    by (simp_all add: none_compress_def none_uncompress_def split: if_split_asm)
qed (auto simp: none_compress_def split: if_split_asm)

text \<open>
  For the other methods the contract follows from the documented behaviour of the
  library: what it has compressed it uncompresses, into no more than the room given.
\<close>

definition zlib_ok :: "libraries \<Rightarrow> bool" where
  "zlib_ok lib \<longleftrightarrow> inflateInit2 lib \<and> inflateEnd lib \<and>
     (\<forall>src d out. deflate lib src d = Some out \<longrightarrow>
        int (length out) \<le> d \<and> inflate lib out (int (length src)) = Some src)"

lemma gzip_codec:
  assumes "zlib_ok lib"
  shows "codec (gzip_compress lib) (gzip_uncompress lib)"
proof unfold_locales
  fix d src rc out
  assume "0 \<le> d" "gzip_compress lib src d = (rc, out)"
  then show "int (length out) \<le> d"
    using assms by (fastforce simp: gzip_compress_def zlib_ok_def Let_def
        split: if_splits option.splits)
next
  fix d and src :: memory and rc out
  assume l: "length src < 2147483648" and c: "gzip_compress lib src d = (rc, out)" "0 \<le> rc"
  let ?n = "uint (to_u32 (compressBound lib (int (length src))))"
  have d: "deflate lib src ?n = Some out" "rc = to_s32 (int (length out))"
    using c by (auto simp: gzip_compress_def Let_def split: if_splits option.splits)
  have "int (length out) \<le> ?n" "?n < 4294967296"
    using assms d(1) uint_lt2p [of "to_u32 (compressBound lib (int (length src)))"]
    by (auto simp: zlib_ok_def)
  then show "rc = int (length out)" using c(2) d(2) to_s32_sign [of "int (length out)"] by simp
  show "gzip_uncompress lib out (int (length src)) = (int (length src), src)"
    using assms d(1) l by (auto simp: gzip_uncompress_def zlib_ok_def)
qed

text \<open>A library that stores what it is given behaves as documented.\<close>

definition stored_lib :: libraries where
  "stored_lib = \<lparr>compressBound = id, deflateInit2 = True,
     deflate = (\<lambda>src d. if int (length src) \<le> d then Some src else None), deflateEnd = True,
     inflateInit2 = True, inflate = (\<lambda>src d. if int (length src) \<le> d then Some src else None),
     inflateEnd = True, lzma_alone_encoder = (\<lambda>_. True),
     lzma_encode = (\<lambda>_ src d. if int (length src) \<le> d then Some src else None),
     lzma_alone_decoder = (\<lambda>_. True), lzma_decode = (\<lambda>src d. Some src), lzo_workmem = True,
     lzo1x_999_compress = Some, lzo1x_decompress_safe = (\<lambda>src d. Some src),
     lzma_easy_buffer_encode = (\<lambda>src d. if int (length src) \<le> d then Some src else None),
     lzma_stream_buffer_decode = (\<lambda>_ src d. Some (src, int (length src)))\<rparr>"

lemma stored_lib_ok: "zlib_ok stored_lib"
  by (simp add: zlib_ok_def stored_lib_def)

text \<open>A method is found again by the type that the image records for it.\<close>

lemma compressor_create_type_hit:
  assumes "compressor_create_name cs name = Some c"
    and "distinct (map c_type cs)"
  shows "compressor_create_type cs (compressor_type c) = Some c"
  using assms
proof (induction cs)
  case (Cons a cs)
  have "c \<in> set cs" if "compressor_create_name cs name = Some c"
    using that by (induction cs) (auto split: if_splits)
  with Cons show ?case
    by (auto simp: compressor_type_def compression_code_inject split: if_splits)
qed simp

lemma distinct_compressors: "distinct (map c_type (compressors bld lib))"
  by (simp add: compressors_def none_method_def)

section \<open>Properties\<close>

text \<open>
  The method that \<open>mkfs.smashfs\<close> has chosen by its name is the one that a reader built
  with the same switches finds by the type recorded in the super block.
\<close>

lemma compressor_name_type_roundtrip:
  assumes "compressor_create_name (compressors bld lib) name = Some c"
  shows "compressor_create_type (compressors bld lib) (compressor_type c) = Some c"
  using assms distinct_compressors by (rule compressor_create_type_hit)

lemma compressor_name_type_roundtrip_witness:
  "\<forall>lib. compressor_create_type (compressors \<lparr>enable_gzip = True, enable_lzma = False,
      enable_lzo = False, enable_xz = False\<rparr> lib)
    (compressor_type \<lparr>c_name = ''gzip'', c_type = compression_type_gzip,
       c_compress = gzip_compress lib, c_uncompress = gzip_uncompress lib\<rparr>) =
    Some \<lparr>c_name = ''gzip'', c_type = compression_type_gzip,
       c_compress = gzip_compress lib, c_uncompress = gzip_uncompress lib\<rparr>"
  by (rule allI, rule compressor_name_type_roundtrip [of _ _ "''gzip''"]) (simp add: compressors_def none_method_def)



end
