(* ===== verification/Mkfs_Jobs.thy ===== *)
theory Mkfs_Jobs
  imports Compressor
begin

text \<open>
  \<open>src/mkfs/mkfs.c\<close>: \<open>struct block\<close> and the thread function \<open>job\<close>, of which
  \<open>output_write\<close> starts \<open>njobs\<close> copies over one array of blocks.  A thread is a program
  counter; a step is what it does between two points where another thread may run: the
  part under the mutex that looks at and claims a block, the compression with the write
  of its result, and the part under the mutex that publishes it.
\<close>

section \<open>Blocks and threads\<close>

text \<open>\<open>bl_buffer\<close> is the offset of the block in the entry buffer.\<close>

record block =
  bl_offset :: int
  bl_size :: int
  bl_compressed_size :: int
  bl_buffer :: int
  bl_cbuffer :: memory
  bl_status :: int

datatype pc = Scan nat | Compress nat | Publish nat | Exited

record jstate =
  js_blocks :: "block list"
  js_pcs :: "pc list"

definition set_pc :: "nat \<Rightarrow> pc \<Rightarrow> jstate \<Rightarrow> jstate" where
  "set_pc t p s = s\<lparr>js_pcs := (js_pcs s)[t := p]\<rparr>"

definition set_block :: "nat \<Rightarrow> block \<Rightarrow> jstate \<Rightarrow> jstate" where
  "set_block b k s = s\<lparr>js_blocks := (js_blocks s)[b := k]\<rparr>"

text \<open>
  The next step of thread \<open>t\<close>; \<open>entry\<close> is the entry buffer.  The destination of the
  compressor has twice the size of the block; a method that writes more overflows it.
\<close>

definition job_scan :: "nat \<Rightarrow> nat \<Rightarrow> jstate \<Rightarrow> jstate" where
  "job_scan t b s =
     (if \<not> b < length (js_blocks s) then set_pc t Exited s
      else if bl_status (js_blocks s ! b) \<noteq> 0 then set_pc t (Scan (Suc b)) s
      else set_pc t (Compress b)
             (set_block b ((js_blocks s ! b)\<lparr>bl_status := 1\<rparr>) s))"

definition job_compress :: "compressor \<Rightarrow> memory \<Rightarrow> nat \<Rightarrow> nat \<Rightarrow> jstate \<Rightarrow> jstate res" where
  "job_compress c entry t b s =
     (let k = js_blocks s ! b in
      rbind (mem_slice entry (bl_buffer k) (as_u32 (bl_size k))) (\<lambda>src.
      let (rc, out) = compressor_compress c src (as_u32 (bl_size k * 2)) in
      if int (length out) > bl_size k * 2 then Undef
      else if rc < 0 then Ok (set_pc t Exited s)
      else if rc > bl_size k then Ok (set_pc t Exited s)
      else Ok (set_pc t (Publish b)
             (set_block b (k\<lparr>bl_compressed_size := rc, bl_cbuffer := out\<rparr>) s))))"

definition job_publish :: "nat \<Rightarrow> nat \<Rightarrow> jstate \<Rightarrow> jstate" where
  "job_publish t b s =
     set_pc t (Scan (Suc b)) (set_block b ((js_blocks s ! b)\<lparr>bl_status := 2\<rparr>) s)"

definition job :: "compressor \<Rightarrow> memory \<Rightarrow> nat \<Rightarrow> jstate \<Rightarrow> jstate res" where
  "job c entry t s =
     (if \<not> t < length (js_pcs s) then Ok s
      else case js_pcs s ! t of
        Scan b \<Rightarrow> Ok (job_scan t b s)
      | Compress b \<Rightarrow> job_compress c entry t b s
      | Publish b \<Rightarrow> Ok (job_publish t b s)
      | Exited \<Rightarrow> Ok s)"

text \<open>
  What the threads do between \<open>pthread_create\<close> and the last \<open>pthread_join\<close>: the
  scheduler lets them run in the order \<open>sched\<close>, and then each of them to its end.  Every
  complete interleaving is such a run, with itself as \<open>sched\<close>.
\<close>

definition job_drain :: "nat \<Rightarrow> nat \<Rightarrow> nat list" where
  "job_drain njobs nblocks = concat (map (replicate (3 * nblocks + 4)) [0..<njobs])"

definition run_jobs ::
  "compressor \<Rightarrow> memory \<Rightarrow> nat list \<Rightarrow> nat \<Rightarrow> block list \<Rightarrow> block list res" where
  "run_jobs c entry sched njobs blocks =
     rbind (rfold (job c entry) (sched @ job_drain njobs (length blocks))
             \<lparr>js_blocks = blocks, js_pcs = replicate njobs (Scan 0)\<rparr>)
       (\<lambda>s. Ok (js_blocks s))"

section \<open>The steps as a relation\<close>

inductive job_step :: "compressor \<Rightarrow> memory \<Rightarrow> jstate \<Rightarrow> jstate \<Rightarrow> bool"
  for c :: compressor and entry :: memory where
  scan: "t < length (js_pcs s) \<Longrightarrow> js_pcs s ! t = Scan b \<Longrightarrow> job_step c entry s (job_scan t b s)"
| compress: "t < length (js_pcs s) \<Longrightarrow> js_pcs s ! t = Compress b \<Longrightarrow>
    job_compress c entry t b s = Ok s' \<Longrightarrow> job_step c entry s s'"
| publish: "t < length (js_pcs s) \<Longrightarrow> js_pcs s ! t = Publish b \<Longrightarrow>
    job_step c entry s (job_publish t b s)"

inductive job_reach :: "compressor \<Rightarrow> memory \<Rightarrow> jstate \<Rightarrow> jstate \<Rightarrow> bool"
  for c :: compressor and entry :: memory and s :: jstate where
  refl: "job_reach c entry s s"
| step: "job_reach c entry s t \<Longrightarrow> job_step c entry t u \<Longrightarrow> job_reach c entry s u"

inductive_cases job_step_cases: "job_step c entry s s'"

lemma job_is_step:
  "job c entry t s = Ok s' \<Longrightarrow> s' = s \<or> job_step c entry s s'"
  by (auto simp: job_def split: if_splits pc.splits intro: job_step.intros)

lemma job_run_reach:
  "rfold (job c entry) ts s = Ok s' \<Longrightarrow> job_reach c entry s0 s \<Longrightarrow> job_reach c entry s0 s'"
proof (induction ts arbitrary: s)
  case (Cons t ts)
  then obtain s1 where s1: "job c entry t s = Ok s1" "rfold (job c entry) ts s1 = Ok s'" by auto
  from job_is_step [OF s1(1)] Cons.prems(2) have "job_reach c entry s0 s1"
    by (auto intro: job_reach.step)
  with Cons.IH s1(2) show ?case by blast
qed simp

section \<open>The invariant\<close>

text \<open>
  \<open>working s b\<close> are the threads that have claimed block \<open>b\<close> and not published it.  A
  block with status 0 is untouched, one with status 2 holds the compressor's result, and
  one with status 1 has at most one thread at work on it: the only one to write it.
\<close>

definition working :: "jstate \<Rightarrow> nat \<Rightarrow> nat set" where
  "working s b = {t. t < length (js_pcs s) \<and> (js_pcs s ! t = Compress b \<or> js_pcs s ! t = Publish b)}"

definition publishing :: "jstate \<Rightarrow> nat \<Rightarrow> nat set" where
  "publishing s b = {t. t < length (js_pcs s) \<and> js_pcs s ! t = Publish b}"

definition block_input :: "memory \<Rightarrow> block \<Rightarrow> memory" where
  "block_input entry k = take (nat (bl_size k)) (drop (nat (bl_buffer k)) entry)"

definition compressed :: "compressor \<Rightarrow> memory \<Rightarrow> block \<Rightarrow> block \<Rightarrow> bool" where
  "compressed c entry k k' \<longleftrightarrow>
     (\<exists>rc out. compressor_compress c (block_input entry k) (bl_size k * 2) = (rc, out) \<and>
        0 \<le> rc \<and> rc \<le> bl_size k \<and> int (length out) \<le> bl_size k * 2 \<and>
        bl_compressed_size k' = rc \<and> bl_cbuffer k' = out)"

definition same_block :: "block \<Rightarrow> block \<Rightarrow> bool" where
  "same_block k k' \<longleftrightarrow> bl_offset k' = bl_offset k \<and> bl_size k' = bl_size k \<and> bl_buffer k' = bl_buffer k"

definition block_inv :: "compressor \<Rightarrow> memory \<Rightarrow> block \<Rightarrow> block \<Rightarrow> nat set \<Rightarrow> nat set \<Rightarrow> bool" where
  "block_inv c entry k k' W P \<longleftrightarrow>
     same_block k k' \<and> bl_status k' \<in> {0, 1, 2} \<and>
     (bl_status k' = 2 \<longrightarrow> compressed c entry k k') \<and>
     (bl_status k' \<noteq> 1 \<longrightarrow> W = {}) \<and>
     (\<forall>t \<in> W. \<forall>t' \<in> W. t = t') \<and>
     (P \<noteq> {} \<longrightarrow> compressed c entry k k')"

definition job_inv :: "compressor \<Rightarrow> memory \<Rightarrow> block list \<Rightarrow> jstate \<Rightarrow> bool" where
  "job_inv c entry blocks s \<longleftrightarrow>
     length (js_blocks s) = length blocks \<and>
     (\<forall>b < length blocks. block_inv c entry (blocks ! b) (js_blocks s ! b) (working s b) (publishing s b)) \<and>
     (\<forall>b. length blocks \<le> b \<longrightarrow> working s b = {})"

text \<open>The blocks of a call are small enough for the sizes to be \<open>unsigned int\<close>.\<close>

definition block_fits :: "memory \<Rightarrow> block \<Rightarrow> bool" where
  "block_fits entry k \<longleftrightarrow> 0 \<le> bl_size k \<and> bl_size k < 2 ^ 31 \<and> 0 \<le> bl_buffer k \<and>
     bl_buffer k + bl_size k \<le> int (length entry)"

lemma set_pc_simps [simp]:
  "js_blocks (set_pc t p s) = js_blocks s"
  "js_pcs (set_pc t p s) = (js_pcs s)[t := p]"
  "js_blocks (set_block b k s) = (js_blocks s)[b := k]"
  "js_pcs (set_block b k s) = js_pcs s"
  by (simp_all add: set_pc_def set_block_def)

lemma working_set_pc:
  "t < length (js_pcs s) \<Longrightarrow> working (set_pc t p s) b =
     (working s b - {t}) \<union> (if p = Compress b \<or> p = Publish b then {t} else {})"
  by (auto simp: working_def nth_list_update split: if_splits)

lemma publishing_set_pc:
  "t < length (js_pcs s) \<Longrightarrow> publishing (set_pc t p s) b =
     (publishing s b - {t}) \<union> (if p = Publish b then {t} else {})"
  by (auto simp: publishing_def nth_list_update split: if_splits)

lemma working_set_block [simp]:
  "working (set_block b k s) b' = working s b'" "publishing (set_block b k s) b' = publishing s b'"
  by (simp_all add: working_def publishing_def)

lemma workingI: "t < length (js_pcs s) \<Longrightarrow> js_pcs s ! t = Compress b \<or> js_pcs s ! t = Publish b \<Longrightarrow> t \<in> working s b"
  by (simp add: working_def)

lemma publishing_working: "publishing s b \<subseteq> working s b"
  by (auto simp: publishing_def working_def)

lemma not_working:
  "js_pcs s ! t = Scan b' \<Longrightarrow> t \<notin> working s b"
  by (auto simp: working_def)

lemma working_other:
  "js_pcs s ! t = Compress b' \<or> js_pcs s ! t = Publish b' \<Longrightarrow> b \<noteq> b' \<Longrightarrow> t \<notin> working s b"
  by (auto simp: working_def)

text \<open>A step rewrites one block at most, and moves one thread that works on no other block.\<close>

lemma job_inv_update:
  assumes inv: "job_inv c entry blocks s" and t: "t < length (js_pcs s)" and b: "b < length blocks"
    and other: "\<And>b'. b' \<noteq> b \<Longrightarrow> t \<notin> working s b'"
    and p: "\<And>b'. b' \<noteq> b \<Longrightarrow> p \<noteq> Compress b' \<and> p \<noteq> Publish b'"
    and k: "block_inv c entry (blocks ! b) k (working (set_pc t p s) b) (publishing (set_pc t p s) b)"
  shows "job_inv c entry blocks (set_pc t p (set_block b k s))"
proof -
  have W: "working (set_pc t p s) b' = working s b'" "publishing (set_pc t p s) b' = publishing s b'"
    if "b' \<noteq> b" for b'
    using other [OF that] p [OF that] publishing_working [of s b'] t
    by (auto simp: working_set_pc publishing_set_pc)
  have s': "working (set_pc t p (set_block b k s)) b' = working (set_pc t p s) b'"
    "publishing (set_pc t p (set_block b k s)) b' = publishing (set_pc t p s) b'" for b'
    by (simp_all add: working_def publishing_def)
  show ?thesis
    unfolding job_inv_def s'
  proof (intro conjI allI impI)
    fix b'
    assume "b' < length blocks"
    then show "block_inv c entry (blocks ! b') (js_blocks (set_pc t p (set_block b k s)) ! b')
        (working (set_pc t p s) b') (publishing (set_pc t p s) b')"
      using inv k W [of b'] b by (cases "b' = b") (simp_all add: job_inv_def)
  next
    fix b'
    assume "length blocks \<le> b'"
    then show "working (set_pc t p s) b' = {}"
      using inv W [of b'] b by (cases "b' = b") (simp_all add: job_inv_def)
  qed (use inv in \<open>simp add: job_inv_def\<close>)
qed

lemma job_inv_move:
  assumes inv: "job_inv c entry blocks s" and t: "t < length (js_pcs s)"
    and other: "\<And>b'. t \<notin> working s b'"
    and p: "\<And>b'. p \<noteq> Compress b' \<and> p \<noteq> Publish b'"
  shows "job_inv c entry blocks (set_pc t p s)"
proof -
  have "working (set_pc t p s) b' = working s b'" "publishing (set_pc t p s) b' = publishing s b'" for b'
    using other [of b'] p [of b'] publishing_working [of s b'] t
    by (auto simp: working_set_pc publishing_set_pc)
  with inv show ?thesis by (simp add: job_inv_def)
qed

lemma job_inv_scan:
  assumes inv: "job_inv c entry blocks s" and t: "t < length (js_pcs s)" "js_pcs s ! t = Scan b"
  shows "job_inv c entry blocks (job_scan t b s)"
proof -
  have tW: "t \<notin> working s b'" for b' using t(2) by (rule not_working)
  consider "\<not> b < length (js_blocks s)" | "b < length (js_blocks s)" "bl_status (js_blocks s ! b) \<noteq> 0"
    | "b < length (js_blocks s)" "bl_status (js_blocks s ! b) = 0" by blast
  then show ?thesis
  proof cases
    case 3
    then have b: "b < length blocks" and i: "block_inv c entry (blocks ! b) (js_blocks s ! b)
        (working s b) (publishing s b)"
      using inv by (auto simp: job_inv_def)
    then have "working s b = {}" "publishing s b = {}"
      using 3 publishing_working [of s b] by (auto simp: block_inv_def)
    then have "working (set_pc t (Compress b) s) b = {t}" "publishing (set_pc t (Compress b) s) b = {}"
      using t by (auto simp: working_set_pc publishing_set_pc)
    then have "job_inv c entry blocks (set_pc t (Compress b) (set_block b ((js_blocks s ! b)\<lparr>bl_status := 1\<rparr>) s))"
      using i by (intro job_inv_update [OF inv t(1) b]) (auto simp: tW block_inv_def same_block_def)
    with 3 show ?thesis by (simp add: job_scan_def)
  qed (use inv t tW in \<open>auto simp: job_scan_def intro!: job_inv_move\<close>)
qed

lemma job_inv_active:
  assumes inv: "job_inv c entry blocks s" and t: "t < length (js_pcs s)"
    and pc: "js_pcs s ! t = Compress b \<or> js_pcs s ! t = Publish b"
  shows "b < length blocks" and "\<And>b'. b' \<noteq> b \<Longrightarrow> t \<notin> working s b'" and "working s b = {t}"
    and "same_block (blocks ! b) (js_blocks s ! b)" and "bl_status (js_blocks s ! b) = 1"
proof -
  have tW: "t \<in> working s b" using t pc by (rule workingI)
  then show b: "b < length blocks" using inv by (auto simp: job_inv_def not_less [symmetric])
  with inv have "block_inv c entry (blocks ! b) (js_blocks s ! b) (working s b) (publishing s b)"
    by (simp add: job_inv_def)
  with tW show "working s b = {t}" and "same_block (blocks ! b) (js_blocks s ! b)"
    and "bl_status (js_blocks s ! b) = 1"
    by (auto simp: block_inv_def)
  show "\<And>b'. b' \<noteq> b \<Longrightarrow> t \<notin> working s b'" using pc by (rule working_other)
qed

lemma job_inv_publish:
  assumes inv: "job_inv c entry blocks s" and t: "t < length (js_pcs s)" "js_pcs s ! t = Publish b"
  shows "job_inv c entry blocks (job_publish t b s)"
proof -
  note a = job_inv_active [OF inv t(1) disjI2 [OF t(2)]]
  have W: "working (set_pc t (Scan (Suc b)) s) b = {}" "publishing (set_pc t (Scan (Suc b)) s) b = {}"
    using t(1) a(3) publishing_working [of s b] by (auto simp: working_set_pc publishing_set_pc)
  have "t \<in> publishing s b" using t by (simp add: publishing_def)
  then have "compressed c entry (blocks ! b) (js_blocks s ! b)"
    using inv a(1) by (auto simp: job_inv_def block_inv_def)
  then have "block_inv c entry (blocks ! b) ((js_blocks s ! b)\<lparr>bl_status := 2\<rparr>) {} {}"
    using a(4) by (simp add: block_inv_def same_block_def compressed_def)
  then show ?thesis
    unfolding job_publish_def by (intro job_inv_update [OF inv t(1) a(1)]) (simp_all add: a(2) W)
qed

lemma job_inv_compress:
  assumes inv: "job_inv c entry blocks s" and t: "t < length (js_pcs s)" "js_pcs s ! t = Compress b"
    and fits: "\<forall>k \<in> set blocks. block_fits entry k"
    and c: "job_compress c entry t b s = Ok s'"
  shows "job_inv c entry blocks s'"
proof -
  note a = job_inv_active [OF inv t(1) disjI1 [OF t(2)]]
  let ?k = "js_blocks s ! b"
  have f: "block_fits entry (blocks ! b)" using fits a(1) by simp
  obtain rc out where co: "compressor_compress c (block_input entry (blocks ! b)) (bl_size (blocks ! b) * 2) = (rc, out)"
    by fastforce
  have u: "as_u32 (bl_size ?k) = bl_size ?k" "as_u32 (bl_size ?k * 2) = bl_size ?k * 2"
    using a(4) f by (auto simp: same_block_def block_fits_def)
  have m: "mem_slice entry (bl_buffer ?k) (bl_size ?k) = Ok (block_input entry (blocks ! b))"
    using a(4) f by (auto simp: same_block_def block_fits_def block_input_def)
  have s': "int (length out) \<le> bl_size ?k * 2" "s' = (if rc < 0 \<or> rc > bl_size ?k then set_pc t Exited s
      else set_pc t (Publish b) (set_block b (?k\<lparr>bl_compressed_size := rc, bl_cbuffer := out\<rparr>) s))"
    using c co a(4) by (auto simp: job_compress_def u m same_block_def Let_def split: if_splits)
  show ?thesis
  proof (cases "rc < 0 \<or> rc > bl_size ?k")
    case True
    have W: "working (set_pc t Exited s) b = {}" "publishing (set_pc t Exited s) b = {}"
      using t(1) a(3) publishing_working [of s b] by (auto simp: working_set_pc publishing_set_pc)
    have "set_block b ?k s = s" by (simp add: set_block_def)
    moreover have "job_inv c entry blocks (set_pc t Exited (set_block b ?k s))"
      using a(4,5) by (intro job_inv_update [OF inv t(1) a(1)]) (simp_all add: a(2) W block_inv_def)
    moreover have "s' = set_pc t Exited s" using True s'(2) by simp
    ultimately show ?thesis by metis
  next
    case False
    have W: "working (set_pc t (Publish b) s) b = {t}" "publishing (set_pc t (Publish b) s) b \<subseteq> {t}"
      using t(1) a(3) publishing_working [of s b] by (auto simp: working_set_pc publishing_set_pc)
    have "compressed c entry (blocks ! b) (?k\<lparr>bl_compressed_size := rc, bl_cbuffer := out\<rparr>)"
      using co s'(1) a(4) False by (auto simp: compressed_def same_block_def)
    then show ?thesis
      using False s'(2) a(4,5)
      by (simp add: job_inv_update [OF inv t(1) a(1)] a(2) W(1) block_inv_def same_block_def)
  qed
qed

lemma job_inv_step:
  assumes "job_step c entry s s'" and "job_inv c entry blocks s"
    and "\<forall>k \<in> set blocks. block_fits entry k"
  shows "job_inv c entry blocks s'"
  using assms by cases (auto intro: job_inv_scan job_inv_compress job_inv_publish)

lemma job_inv_reach:
  assumes "job_reach c entry s s'" and "job_inv c entry blocks s"
    and "\<forall>k \<in> set blocks. block_fits entry k"
  shows "job_inv c entry blocks s'"
  using assms by (induction rule: job_reach.induct) (auto intro: job_inv_step)

lemma job_inv_init:
  assumes "\<forall>k \<in> set blocks. bl_status k = 0"
  shows "job_inv c entry blocks \<lparr>js_blocks = blocks, js_pcs = replicate njobs (Scan 0)\<rparr>"
  using assms by (auto simp: job_inv_def block_inv_def working_def publishing_def same_block_def)

section \<open>Every thread ends, and a run without a failure compresses every block\<close>

definition pc_rank :: "nat \<Rightarrow> pc \<Rightarrow> nat" where
  "pc_rank n p = (case p of Scan b \<Rightarrow> 3 * (n - b) + 1 | Compress b \<Rightarrow> 3 * (n - b)
     | Publish b \<Rightarrow> 3 * (n - b) - 1 | Exited \<Rightarrow> 0)"

lemma pc_rank_0: "pc_rank n p = 0 \<Longrightarrow> p = Exited \<or> (\<exists>b \<ge> n. p = Compress b \<or> p = Publish b)"
  by (auto simp: pc_rank_def split: pc.splits)

lemma job_compress_cases:
  assumes "job_compress c entry t b s = Ok s'"
  obtains "s' = set_pc t Exited s"
    | rc out where "s' = set_pc t (Publish b)
        (set_block b ((js_blocks s ! b)\<lparr>bl_compressed_size := rc, bl_cbuffer := out\<rparr>) s)"
proof -
  let ?k = "js_blocks s ! b"
  obtain src where m: "mem_slice entry (bl_buffer ?k) (as_u32 (bl_size ?k)) = Ok src"
    using assms by (auto simp: job_compress_def Let_def)
  obtain rc out where "compressor_compress c src (as_u32 (bl_size ?k * 2)) = (rc, out)" by fastforce
  with assms m that show thesis by (auto simp: job_compress_def Let_def split: if_split_asm)
qed

lemma job_rank:
  assumes "job c entry t s = Ok s'" and "job_inv c entry blocks s" and "t < length (js_pcs s)"
  shows "pc_rank (length blocks) (js_pcs s' ! t) \<le> pc_rank (length blocks) (js_pcs s ! t) - 1"
    and "length (js_pcs s') = length (js_pcs s)"
    and "\<And>t'. t' \<noteq> t \<Longrightarrow> js_pcs s' ! t' = js_pcs s ! t'"
proof -
  have len: "length (js_blocks s) = length blocks" using assms(2) by (simp add: job_inv_def)
  have act: "b < length blocks" if "js_pcs s ! t = Compress b \<or> js_pcs s ! t = Publish b" for b
    using job_inv_active(1) [OF assms(2,3) that] .
  show "length (js_pcs s') = length (js_pcs s)" "\<And>t'. t' \<noteq> t \<Longrightarrow> js_pcs s' ! t' = js_pcs s ! t'"
    using assms(1,3) by (auto simp: job_def job_scan_def job_publish_def elim!: job_compress_cases
        split: if_split_asm pc.split_asm)
  show "pc_rank (length blocks) (js_pcs s' ! t) \<le> pc_rank (length blocks) (js_pcs s ! t) - 1"
  proof (cases "js_pcs s ! t")
    case (Scan b)
    with assms(1,3) len show ?thesis
      by (cases "b < length blocks") (auto simp: job_def job_scan_def pc_rank_def)
  next
    case (Compress b)
    with assms(1,3) act [of b] show ?thesis
      by (auto simp: job_def pc_rank_def elim!: job_compress_cases)
  next
    case (Publish b)
    with assms(1,3) act [of b] show ?thesis by (auto simp: job_def job_publish_def pc_rank_def)
  qed (use assms in \<open>auto simp: job_def pc_rank_def\<close>)
qed

lemma job_inv_job:
  "job c entry t s = Ok s' \<Longrightarrow> job_inv c entry blocks s \<Longrightarrow> \<forall>k \<in> set blocks. block_fits entry k \<Longrightarrow>
    job_inv c entry blocks s'"
  using job_is_step job_inv_step by metis

lemma job_replicate:
  assumes "rfold (job c entry) (replicate k t) s = Ok s'" and "job_inv c entry blocks s"
    and "\<forall>k \<in> set blocks. block_fits entry k" and "t < length (js_pcs s)"
  shows "pc_rank (length blocks) (js_pcs s' ! t) \<le> pc_rank (length blocks) (js_pcs s ! t) - k \<and>
    length (js_pcs s') = length (js_pcs s) \<and> (\<forall>t'. t' \<noteq> t \<longrightarrow> js_pcs s' ! t' = js_pcs s ! t') \<and>
    job_inv c entry blocks s'"
  using assms
proof (induction k arbitrary: s)
  case (Suc k)
  then obtain s1 where s1: "job c entry t s = Ok s1" "rfold (job c entry) (replicate k t) s1 = Ok s'"
    by auto
  note r = job_rank [OF s1(1) Suc.prems(2,4)]
  from Suc.IH [OF s1(2) job_inv_job [OF s1(1) Suc.prems(2,3)] Suc.prems(3)] r Suc.prems(4)
  show ?case by auto
qed simp

lemma job_drain_exits:
  assumes "rfold (job c entry) (concat (map (replicate (3 * length blocks + 4)) ts)) s = Ok s'"
    and "job_inv c entry blocks s" and "\<forall>k \<in> set blocks. block_fits entry k"
    and "\<forall>t \<in> set ts. t < length (js_pcs s)" and "distinct ts"
  shows "length (js_pcs s') = length (js_pcs s) \<and> job_inv c entry blocks s' \<and>
    (\<forall>t \<in> set ts. js_pcs s' ! t = Exited) \<and> (\<forall>t. t \<notin> set ts \<longrightarrow> js_pcs s' ! t = js_pcs s ! t)"
  using assms
proof (induction ts arbitrary: s)
  case (Cons t ts)
  obtain s1 where s1: "rfold (job c entry) (replicate (3 * length blocks + 4) t) s = Ok s1"
    and s': "rfold (job c entry) (concat (map (replicate (3 * length blocks + 4)) ts)) s1 = Ok s'"
    using Cons.prems(1) by (auto simp del: replicate_add simp: rfold_append)
  have t: "t < length (js_pcs s)" using Cons.prems(4) by simp
  note r = job_replicate [OF s1 Cons.prems(2,3) t]
  have "pc_rank (length blocks) (js_pcs s ! t) \<le> 3 * length blocks + 1"
    by (auto simp: pc_rank_def split: pc.splits)
  with r have "pc_rank (length blocks) (js_pcs s1 ! t) = 0" by simp
  then have "js_pcs s1 ! t = Exited \<or> (\<exists>b \<ge> length blocks. js_pcs s1 ! t = Compress b \<or> js_pcs s1 ! t = Publish b)"
    by (rule pc_rank_0)
  moreover have "b < length blocks" if "js_pcs s1 ! t = Compress b \<or> js_pcs s1 ! t = Publish b" for b
    using job_inv_active(1) [of c entry blocks s1 t b] that r t by simp
  ultimately have "js_pcs s1 ! t = Exited" by (meson not_less)
  with Cons.IH [OF s'] r Cons.prems show ?case by auto
qed simp

definition all_compress :: "compressor \<Rightarrow> memory \<Rightarrow> block list \<Rightarrow> bool" where
  "all_compress c entry blocks \<longleftrightarrow>
     (\<forall>k \<in> set blocks. \<exists>rc out. compressor_compress c (block_input entry k) (bl_size k * 2) = (rc, out) \<and>
        0 \<le> rc \<and> rc \<le> bl_size k \<and> int (length out) \<le> bl_size k * 2)"

definition passed :: "pc \<Rightarrow> nat \<Rightarrow> bool" where
  "passed p b \<longleftrightarrow> (case p of Scan b' \<Rightarrow> b < b' | Compress b' \<Rightarrow> b < b' | Publish b' \<Rightarrow> b < b' | Exited \<Rightarrow> True)"

definition cover :: "jstate \<Rightarrow> bool" where
  "cover s \<longleftrightarrow> (\<forall>b < length (js_blocks s).
     (\<forall>t < length (js_pcs s). passed (js_pcs s ! t) b \<longrightarrow> bl_status (js_blocks s ! b) \<noteq> 0) \<and>
     (bl_status (js_blocks s ! b) = 1 \<longrightarrow> working s b \<noteq> {}))"

lemma job_compress_total:
  assumes inv: "job_inv c entry blocks s" and t: "t < length (js_pcs s)" "js_pcs s ! t = Compress b"
    and fits: "\<forall>k \<in> set blocks. block_fits entry k" and ac: "all_compress c entry blocks"
  shows "\<exists>rc out. job_compress c entry t b s =
    Ok (set_pc t (Publish b) (set_block b ((js_blocks s ! b)\<lparr>bl_compressed_size := rc, bl_cbuffer := out\<rparr>) s))"
proof -
  note a = job_inv_active [OF inv t(1) disjI1 [OF t(2)]]
  let ?k = "js_blocks s ! b"
  have f: "block_fits entry (blocks ! b)" using fits a(1) by simp
  obtain rc out where co: "compressor_compress c (block_input entry (blocks ! b)) (bl_size (blocks ! b) * 2) = (rc, out)"
    "0 \<le> rc" "rc \<le> bl_size (blocks ! b)" "int (length out) \<le> bl_size (blocks ! b) * 2"
    using ac a(1) by (fastforce simp: all_compress_def)
  have k: "bl_size ?k = bl_size (blocks ! b)" using a(4) by (simp add: same_block_def)
  have u: "as_u32 (bl_size (blocks ! b)) = bl_size (blocks ! b)"
    "as_u32 (bl_size (blocks ! b) * 2) = bl_size (blocks ! b) * 2"
    using f by (auto simp: block_fits_def)
  have m: "mem_slice entry (bl_buffer ?k) (bl_size (blocks ! b)) = Ok (block_input entry (blocks ! b))"
    using a(4) f by (auto simp: same_block_def block_fits_def block_input_def)
  from co show ?thesis by (intro exI [of _ rc] exI [of _ out]) (simp add: job_compress_def k u m)
qed

lemma cover_job:
  assumes inv: "job_inv c entry blocks s" and cov: "cover s" and t: "t < length (js_pcs s)"
    and fits: "\<forall>k \<in> set blocks. block_fits entry k" and ac: "all_compress c entry blocks"
  shows "\<exists>s'. job c entry t s = Ok s' \<and> cover s'"
proof (cases "js_pcs s ! t")
  case (Scan b)
  note tW = not_working [OF Scan]
  have len: "length (js_blocks s) = length blocks" using inv by (simp add: job_inv_def)
  consider "\<not> b < length blocks" | "b < length blocks" "bl_status (js_blocks s ! b) \<noteq> 0"
    | "b < length blocks" "bl_status (js_blocks s ! b) = 0" by blast
  then have "cover (job_scan t b s)"
  proof cases
    case 3
    then show ?thesis
      using cov t len tW Scan
      by (auto simp: cover_def job_scan_def working_set_pc nth_list_update passed_def split: if_splits)
  qed (use cov t len tW Scan in \<open>auto simp: cover_def job_scan_def working_set_pc nth_list_update
      passed_def less_Suc_eq split: if_splits\<close>)
  with t Scan show ?thesis by (simp add: job_def)
next
  case (Compress b)
  note a = job_inv_active [OF inv t disjI1 [OF Compress]]
  have o: "working s b' - {t} = {} \<longleftrightarrow> working s b' = {}" "working s b' \<subseteq> {t} \<longleftrightarrow> working s b' = {}"
    if "b' \<noteq> b" for b' using a(2) [OF that] by blast+
  obtain rc out where r: "job_compress c entry t b s =
      Ok (set_pc t (Publish b) (set_block b ((js_blocks s ! b)\<lparr>bl_compressed_size := rc, bl_cbuffer := out\<rparr>) s))"
    using job_compress_total [OF inv t Compress fits ac] by auto
  have "cover (set_pc t (Publish b) (set_block b ((js_blocks s ! b)\<lparr>bl_compressed_size := rc, bl_cbuffer := out\<rparr>) s))"
    using cov t Compress o
    by (auto simp: cover_def working_set_pc nth_list_update passed_def split: if_splits)
  with r t Compress show ?thesis by (simp add: job_def)
next
  case (Publish b)
  note a = job_inv_active [OF inv t disjI2 [OF Publish]]
  have o: "working s b' - {t} = {} \<longleftrightarrow> working s b' = {}" "working s b' \<subseteq> {t} \<longleftrightarrow> working s b' = {}"
    if "b' \<noteq> b" for b' using a(2) [OF that] by blast+
  have lb: "b < length (js_blocks s)" using a(1) inv by (simp add: job_inv_def)
  have "cover (job_publish t b s)"
    using cov t Publish o lb
    by (auto simp: cover_def job_publish_def working_set_pc nth_list_update passed_def less_Suc_eq
        split: if_splits)
  with t Publish show ?thesis by (simp add: job_def)
next
  case Exited
  with cov t show ?thesis by (simp add: job_def)
qed

lemma cover_run:
  assumes "job_inv c entry blocks s" and "cover s"
    and "\<forall>k \<in> set blocks. block_fits entry k" and "all_compress c entry blocks"
  shows "\<exists>s'. rfold (job c entry) ts s = Ok s' \<and> cover s' \<and> job_inv c entry blocks s' \<and>
    length (js_pcs s') = length (js_pcs s)"
  using assms
proof (induction ts arbitrary: s)
  case (Cons t ts)
  show ?case
  proof (cases "t < length (js_pcs s)")
    case True
    obtain s1 where s1: "job c entry t s = Ok s1" "cover s1"
      using cover_job [OF Cons.prems(1,2) True Cons.prems(3,4)] by auto
    have "job_inv c entry blocks s1" "length (js_pcs s1) = length (js_pcs s)"
      using job_inv_job [OF s1(1) Cons.prems(1,3)] job_rank(2) [OF s1(1) Cons.prems(1) True] by auto
    with Cons.IH [of s1] s1 Cons.prems show ?thesis by simp
  next
    case False
    then have "job c entry t s = Ok s" by (simp add: job_def)
    with Cons.IH [of s] Cons.prems show ?thesis by simp
  qed
qed simp

section \<open>The blocks after the threads have ended\<close>

lemma run_jobs_inv:
  assumes r: "run_jobs c entry sched njobs blocks = Ok blocks'"
    and z: "\<forall>k \<in> set blocks. bl_status k = 0" and fits: "\<forall>k \<in> set blocks. block_fits entry k"
  obtains s where "rfold (job c entry) (sched @ job_drain njobs (length blocks))
      \<lparr>js_blocks = blocks, js_pcs = replicate njobs (Scan 0)\<rparr> = Ok s"
    and "job_inv c entry blocks s" and "blocks' = js_blocks s"
    and "length (js_pcs s) = njobs" and "\<forall>t < njobs. js_pcs s ! t = Exited"
proof -
  let ?s0 = "\<lparr>js_blocks = blocks, js_pcs = replicate njobs (Scan 0)\<rparr>"
  obtain s1 s where s1: "rfold (job c entry) sched ?s0 = Ok s1"
    and s: "rfold (job c entry) (job_drain njobs (length blocks)) s1 = Ok s" "blocks' = js_blocks s"
    using r by (auto simp: run_jobs_def rfold_append)
  have "job_reach c entry ?s0 s1" using s1 by (rule job_run_reach) (rule job_reach.refl)
  then have i1: "job_inv c entry blocks s1" using job_inv_init [OF z] fits by (rule job_inv_reach)
  have l1: "length (js_pcs s1) = njobs"
  proof (rule rfold_invariant [OF s1, where P = "\<lambda>s. job_inv c entry blocks s \<and> length (js_pcs s) = njobs", THEN conjunct2])
    show "job_inv c entry blocks ?s0 \<and> length (js_pcs ?s0) = njobs"
      using job_inv_init [OF z] by simp
  next
    fix t s s'
    assume i: "job_inv c entry blocks s \<and> length (js_pcs s) = njobs" and j: "job c entry t s = Ok s'"
    then show "job_inv c entry blocks s' \<and> length (js_pcs s') = njobs"
      using job_inv_job [OF j _ fits] job_rank(2) [OF j, of blocks] j
      by (cases "t < length (js_pcs s)") (auto simp: job_def)
  qed
  have "length (js_pcs s) = length (js_pcs s1) \<and> job_inv c entry blocks s \<and>
    (\<forall>t \<in> set [0..<njobs]. js_pcs s ! t = Exited) \<and> (\<forall>t. t \<notin> set [0..<njobs] \<longrightarrow> js_pcs s ! t = js_pcs s1 ! t)"
    using s(1) i1 fits l1 by (intro job_drain_exits) (auto simp: job_drain_def)
  with that [of s] l1 s1 s show thesis by (simp add: rfold_append)
qed

lemma run_jobs_compressed:
  assumes r: "run_jobs c entry sched njobs blocks = Ok blocks'"
    and z: "\<forall>k \<in> set blocks. bl_status k = 0" and fits: "\<forall>k \<in> set blocks. block_fits entry k"
    and fin: "\<forall>k \<in> set blocks'. bl_status k = 2"
  shows "list_all2 (\<lambda>k k'. same_block k k' \<and> compressed c entry k k') blocks blocks'"
proof -
  obtain s where s: "job_inv c entry blocks s" "blocks' = js_blocks s"
    using run_jobs_inv [OF r z fits] by metis
  show ?thesis
    using s fin by (auto simp: list_all2_conv_all_nth job_inv_def block_inv_def)
qed

lemma run_jobs_total:
  assumes z: "\<forall>k \<in> set blocks. bl_status k = 0" and fits: "\<forall>k \<in> set blocks. block_fits entry k"
    and ac: "all_compress c entry blocks" and n: "0 < njobs"
  shows "\<exists>blocks'. run_jobs c entry sched njobs blocks = Ok blocks' \<and> (\<forall>k \<in> set blocks'. bl_status k = 2)"
proof -
  let ?s0 = "\<lparr>js_blocks = blocks, js_pcs = replicate njobs (Scan 0)\<rparr>"
  have "cover ?s0" using z by (auto simp: cover_def passed_def)
  from cover_run [OF job_inv_init [OF z] this fits ac]
  obtain s where s: "rfold (job c entry) (sched @ job_drain njobs (length blocks)) ?s0 = Ok s" "cover s"
    by blast
  then have r: "run_jobs c entry sched njobs blocks = Ok (js_blocks s)" by (simp add: run_jobs_def)
  have inv: "job_inv c entry blocks s" "length (js_pcs s) = njobs" "\<forall>t < njobs. js_pcs s ! t = Exited"
    using run_jobs_inv [OF r z fits] s(1) by (metis res.inject(1))+
  have "bl_status (js_blocks s ! b) = 2" if b: "b < length (js_blocks s)" for b
  proof -
    have "bl_status (js_blocks s ! b) \<noteq> 0"
      using s(2) b n inv(2,3) by (auto simp: cover_def passed_def)
    moreover have "working s b = {}" using inv(2,3) by (auto simp: working_def)
    then have "bl_status (js_blocks s ! b) \<noteq> 1" using s(2) b by (auto simp: cover_def)
    moreover have "bl_status (js_blocks s ! b) \<in> {0, 1, 2}"
      using inv(1) b by (simp add: job_inv_def block_inv_def)
    ultimately show ?thesis by blast
  qed
  with r show ?thesis by (auto simp: in_set_conv_nth)
qed

text \<open>The result of a complete run does not depend on the order the threads ran in.\<close>

lemma compressed_unique:
  "same_block k k1 \<Longrightarrow> same_block k k2 \<Longrightarrow> compressed c entry k k1 \<Longrightarrow> compressed c entry k k2 \<Longrightarrow>
    bl_status k1 = bl_status k2 \<Longrightarrow> k1 = (k2 :: block)"
  by (auto simp: same_block_def compressed_def)

lemma list_all2_unique:
  "list_all2 P xs ys \<Longrightarrow> list_all2 P xs zs \<Longrightarrow>
    (\<And>x y z. x \<in> set xs \<Longrightarrow> y \<in> set ys \<Longrightarrow> z \<in> set zs \<Longrightarrow> P x y \<Longrightarrow> P x z \<Longrightarrow> y = z) \<Longrightarrow> ys = zs"
  by (rule nth_equalityI) (auto simp: list_all2_conv_all_nth, metis nth_mem)

lemma run_jobs_unique:
  assumes r: "run_jobs c entry sched njobs blocks = Ok blocks1"
    "run_jobs c entry sched' njobs' blocks = Ok blocks2"
    and z: "\<forall>k \<in> set blocks. bl_status k = 0" and fits: "\<forall>k \<in> set blocks. block_fits entry k"
    and fin: "\<forall>k \<in> set blocks1. bl_status k = 2" "\<forall>k \<in> set blocks2. bl_status k = 2"
  shows "blocks1 = blocks2"
  by (rule list_all2_unique [OF run_jobs_compressed [OF r(1) z fits fin(1)] run_jobs_compressed [OF r(2) z fits fin(2)]])
    (use fin compressed_unique in auto)

section \<open>Properties\<close>

text \<open>
  C17. Mutual exclusion: from a fresh block array, whatever the interleaving of the threads,
  at most one thread is ever at work on a block, only blocks with status 1 are worked on,
  and a block that has reached status 2 holds the compressor's result for its bytes.
\<close>

theorem job_mutual_exclusion:
  assumes "job_reach c entry \<lparr>js_blocks = blocks, js_pcs = replicate njobs (Scan 0)\<rparr> s"
    and "\<forall>k \<in> set blocks. bl_status k = 0 \<and> block_fits entry k" and "b < length blocks"
  shows "(\<forall>t \<in> working s b. \<forall>t' \<in> working s b. t = t') \<and>
    (working s b \<noteq> {} \<longrightarrow> bl_status (js_blocks s ! b) = 1) \<and>
    (bl_status (js_blocks s ! b) = 2 \<longrightarrow> compressed c entry (blocks ! b) (js_blocks s ! b))"
proof -
  have "job_inv c entry blocks s"
    using job_inv_reach [OF assms(1) job_inv_init] assms(2) by auto
  with assms(3) show ?thesis by (auto simp: job_inv_def block_inv_def)
qed

lemma job_mutual_exclusion_witness:
  "let k = \<lparr>bl_offset = 0, bl_size = 2, bl_compressed_size = 0, bl_buffer = 1, bl_cbuffer = [], bl_status = 0\<rparr>;
       s0 = \<lparr>js_blocks = [k], js_pcs = replicate 2 (Scan 0)\<rparr>; s = job_scan 1 0 s0 in
   (\<forall>t \<in> working s 0. \<forall>t' \<in> working s 0. t = t') \<and>
   (working s 0 \<noteq> {} \<longrightarrow> bl_status (js_blocks s ! 0) = 1) \<and>
   (bl_status (js_blocks s ! 0) = 2 \<longrightarrow> compressed none_method [5, 6, 7] ([k] ! 0) (js_blocks s ! 0))"
  unfolding Let_def
  by (rule job_mutual_exclusion [where njobs = 2])
    (auto simp: block_fits_def intro!: job_reach.step [OF job_reach.refl] job_step.scan)

text \<open>
  C18. Completeness: when the method compresses every block into no more than its size,
  every schedule of at least one thread ends with all blocks at status 2, each with the
  result of compressing its own bytes.
\<close>

theorem run_jobs_compresses_all:
  assumes "\<forall>k \<in> set blocks. bl_status k = 0 \<and> block_fits entry k"
    and "all_compress c entry blocks" and "0 < njobs"
  shows "\<exists>blocks'. run_jobs c entry sched njobs blocks = Ok blocks' \<and>
    (\<forall>k \<in> set blocks'. bl_status k = 2) \<and>
    list_all2 (\<lambda>k k'. same_block k k' \<and> compressed c entry k k') blocks blocks'"
  using run_jobs_total [of blocks entry c njobs sched] run_jobs_compressed [of c entry sched njobs blocks] assms
  by blast

lemma run_jobs_compresses_all_witness:
  "let bs = [\<lparr>bl_offset = 0, bl_size = 2, bl_compressed_size = 0, bl_buffer = 1, bl_cbuffer = [], bl_status = 0\<rparr>] in
   \<exists>blocks'. run_jobs none_method [5, 6, 7] [1, 0, 1] 2 bs = Ok blocks' \<and>
    (\<forall>k \<in> set blocks'. bl_status k = 2) \<and>
    list_all2 (\<lambda>k k'. same_block k k' \<and> compressed none_method [5, 6, 7] k k') bs blocks'"
  unfolding Let_def
  by (rule run_jobs_compresses_all)
    (simp_all add: block_fits_def all_compress_def block_input_def compressor_compress_def
      none_method_def none_compress_def)

text \<open>
  C19. Schedule independence: two runs in which all blocks get compressed end with the same
  blocks, whatever the order of the steps and the number of threads, so the image does
  not depend on \<open>--jobs\<close> nor on the scheduler.
\<close>

theorem run_jobs_schedule_independent:
  assumes "\<forall>k \<in> set blocks. bl_status k = 0 \<and> block_fits entry k"
    and "run_jobs c entry sched njobs blocks = Ok blocks1" and "\<forall>k \<in> set blocks1. bl_status k = 2"
    and "run_jobs c entry sched' njobs' blocks = Ok blocks2" and "\<forall>k \<in> set blocks2. bl_status k = 2"
  shows "blocks1 = blocks2"
  using run_jobs_unique [OF assms(2,4) _ _ assms(3,5)] assms(1) by blast

lemma run_jobs_schedule_independent_witness:
  "let bs = [\<lparr>bl_offset = 0, bl_size = 2, bl_compressed_size = 0, bl_buffer = 1, bl_cbuffer = [], bl_status = 0\<rparr>] in
   \<exists>bs1 bs2. run_jobs none_method [5, 6, 7] [1, 0, 1] 2 bs = Ok bs1 \<and>
     run_jobs none_method [5, 6, 7] [] 1 bs = Ok bs2 \<and> bs1 = bs2"
proof -
  let ?bs = "[\<lparr>bl_offset = 0, bl_size = 2, bl_compressed_size = 0, bl_buffer = 1, bl_cbuffer = [], bl_status = 0\<rparr>]"
  let ?r = "[\<lparr>bl_offset = 0, bl_size = 2, bl_compressed_size = 2, bl_buffer = 1, bl_cbuffer = [6, 7], bl_status = 2\<rparr>]"
  have r: "run_jobs none_method [5, 6, 7] [1, 0, 1] 2 ?bs = Ok ?r"
    "run_jobs none_method [5, 6, 7] [] 1 ?bs = Ok ?r" by code_simp+
  then show ?thesis
    unfolding Let_def
    using run_jobs_schedule_independent [OF _ r(1) _ r(2)] by (simp add: block_fits_def)
qed

end
