(* ===== verification/Mkfs_Write.thy ===== *)
theory Mkfs_Write
  imports Bitbuffer Buffer Mkfs_Node Mkfs_Jobs
begin

text \<open>
  \<open>src/mkfs/mkfs.c\<close>, \<open>output_write\<close>: from the node table to the bytes of the image, in
  the stages that the function's messages name.  Its local variables become arguments and
  results of the stages; the \<open>long long\<close> and \<open>ssize_t\<close> variables are HOL integers, which
  for them is exact below \<open>2 ^ 62\<close>.
\<close>

unbundle bit_operations_syntax

section \<open>Options and environment\<close>

text \<open>The command line options that \<open>output_write\<close> reads, in static variables.\<close>

record options =
  o_block_size :: u32
  o_njobs :: u32
  o_no_group_mode :: bool
  o_no_other_mode :: bool
  o_no_uid :: bool
  o_no_gid :: bool
  o_no_ctime :: bool
  o_no_mtime :: bool
  o_no_padding :: bool

text \<open>
  What the system decides: memory, threads, files, the order in which the threads run,
  and what the stack held where the super block is built.
\<close>

record environment =
  e_alloc :: heap
  e_thread :: "nat \<Rightarrow> bool"
  e_sched :: "nat list"
  e_open :: bool
  e_write :: "nat \<Rightarrow> bool"
  e_stack :: super_block

definition MAX_JOBS :: nat where
  "MAX_JOBS = 16"

definition LONG_LONG_MAX :: int where
  "LONG_LONG_MAX = 2 ^ 63 - 1"

section \<open>Maxima and minima of the nodes\<close>

record maxima =
  x_min_ctime :: int
  x_min_mtime :: int
  x_type :: int
  x_owner_mode :: int
  x_group_mode :: int
  x_other_mode :: int
  x_uid :: int
  x_gid :: int
  x_ctime :: int
  x_mtime :: int
  x_parent :: int
  x_nentries :: int
  x_entry_number :: int
  x_entry_length :: int
  x_entry_type :: int

definition maxima_init :: maxima where
  "maxima_init =
     \<lparr>x_min_ctime = LONG_LONG_MAX, x_min_mtime = LONG_LONG_MAX, x_type = -1,
      x_owner_mode = -1, x_group_mode = -1, x_other_mode = -1, x_uid = -1, x_gid = -1,
      x_ctime = -1, x_mtime = -1, x_parent = -1, x_nentries = -1, x_entry_number = -1,
      x_entry_length = -1, x_entry_type = -1\<rparr>"

definition maxima_entry :: "dentry \<Rightarrow> maxima \<Rightarrow> maxima" where
  "maxima_entry e x = x
     \<lparr>x_entry_number := max (x_entry_number x) (de_number e),
      x_entry_length := max (x_entry_length x) (de_length e),
      x_entry_type := max (x_entry_type x) (de_type e)\<rparr>"

text \<open>
  One turn of the loop over the nodes.  The minima are taken of the running maxima, as in
  the code, not of the node's times.
\<close>

definition maxima_node :: "mnode \<Rightarrow> maxima \<Rightarrow> maxima res" where
  "maxima_node n x =
     (let ctime = max (x_ctime x) (n_ctime n); mtime = max (x_mtime x) (n_mtime n);
          x = x\<lparr>x_type := max (x_type x) (n_type n),
                x_owner_mode := max (x_owner_mode x) (n_owner_mode n),
                x_group_mode := max (x_group_mode x) (n_group_mode n),
                x_other_mode := max (x_other_mode x) (n_other_mode n),
                x_uid := max (x_uid x) (n_uid n), x_gid := max (x_gid x) (n_gid n),
                x_ctime := ctime, x_mtime := mtime,
                x_min_ctime := min ctime (x_min_ctime x),
                x_min_mtime := min mtime (x_min_mtime x)\<rparr> in
      if n_type n = inode_code regular_file then Ok x
      else if n_type n = inode_code directory then
        (case n_payload n of
           Directory_payload parent es \<Rightarrow>
             Ok (fold maxima_entry es
                  (x\<lparr>x_parent := max (x_parent x) parent,
                     x_nentries := max (x_nentries x) (int (length es))\<rparr>))
         | _ \<Rightarrow> Undef)
      else Ok x)"

definition maxima_disable :: "options \<Rightarrow> maxima \<Rightarrow> maxima" where
  "maxima_disable opt x = x
     \<lparr>x_group_mode := if o_no_group_mode opt then -1 else x_group_mode x,
      x_other_mode := if o_no_other_mode opt then -1 else x_other_mode x,
      x_uid := if o_no_uid opt then -1 else x_uid x,
      x_gid := if o_no_gid opt then -1 else x_gid x,
      x_ctime := if o_no_ctime opt then -1 else x_ctime x,
      x_mtime := if o_no_mtime opt then -1 else x_mtime x\<rparr>"

definition super_1 :: "options \<Rightarrow> compressor \<Rightarrow> mnode list \<Rightarrow> maxima \<Rightarrow> super_block \<Rightarrow> super_block" where
  "super_1 opt c nodes x s = s
     \<lparr>sb_magic := SMASHFS_MAGIC, sb_version := SMASHFS_VERSION_0, sb_ctime := 0,
      sb_block_size := o_block_size opt, sb_block_log2 := slog (o_block_size opt),
      sb_inodes := HASH_CNT nodes, sb_root := 0, sb_compression_type := compressor_type c,
      sb_min := (sb_min s)\<lparr>min_ctime := to_u32 (x_min_ctime x), min_mtime := to_u32 (x_min_mtime x)\<rparr>,
      sb_ibits := (sb_ibits s)
        \<lparr>ib_type := to_u32 (blog (x_type x)), ib_owner_mode := to_u32 (blog (x_owner_mode x)),
         ib_group_mode := to_u32 (blog (x_group_mode x)),
         ib_other_mode := to_u32 (blog (x_other_mode x)),
         ib_uid := to_u32 (blog (x_uid x)), ib_gid := to_u32 (blog (x_gid x)),
         ib_ctime := to_u32 (blog (x_ctime x - x_min_ctime x)),
         ib_mtime := to_u32 (blog (x_mtime x - x_min_mtime x)),
         ib_parent := to_u32 (blog (x_parent x)), ib_nentries := to_u32 (blog (x_nentries x)),
         ib_entry_number := to_u32 (blog (x_entry_number x)),
         ib_entry_length := to_u32 (blog (x_entry_length x)),
         ib_entry_type := to_u32 (blog (x_entry_type x))\<rparr>\<rparr>"

section \<open>Filling the entry blocks\<close>

text \<open>
  The code's way to append packed fields to a buffer: a fresh bit buffer of \<open>sz\<close> bytes,
  the fields, and the bytes of the bit buffer added to \<open>b\<close>.  The result is \<open>buffer_add\<close>'s.
\<close>

definition add_fields :: "heap \<Rightarrow> int \<Rightarrow> field list \<Rightarrow> buffer \<Rightarrow> (int \<times> buffer) res" where
  "add_fields alloc sz fs b =
     rbind (bitbuffer_init alloc (to_s32 sz)) (\<lambda>bb.
     rbind (putbits_seq fs bb) (\<lambda>bb.
     rbind (buffer_add alloc b (bitbuffer_buffer bb) (to_u32 sz)) (\<lambda>(rc, b).
     rbind (check (0 \<le> rc) Minus1) (\<lambda>_. Ok (rc, b)))))"

definition add_bytes :: "heap \<Rightarrow> memory \<Rightarrow> int \<Rightarrow> buffer \<Rightarrow> (int \<times> buffer) res" where
  "add_bytes alloc d sz b =
     rbind (buffer_add alloc b d (to_u32 sz)) (\<lambda>(rc, b).
     rbind (check (0 \<le> rc) Minus1) (\<lambda>_. Ok (rc, b)))"

definition bytes_of_bits :: "int \<Rightarrow> int" where
  "bytes_of_bits bits = (bits + 7) div 8"

definition directory_fields :: "super_block \<Rightarrow> int \<Rightarrow> int \<Rightarrow> field list" where
  "directory_fields s parent nentries =
     [(sint (ib_parent (sb_ibits s)), to_u32 parent),
      (sint (ib_nentries (sb_ibits s)), to_u32 nentries)]"

definition directory_size :: "super_block \<Rightarrow> int" where
  "directory_size s = bytes_of_bits (uint (ib_parent (sb_ibits s)) + uint (ib_nentries (sb_ibits s)))"

definition entry_fields :: "super_block \<Rightarrow> dentry \<Rightarrow> field list" where
  "entry_fields s e =
     [(sint (ib_entry_number (sb_ibits s)), to_u32 (de_number e)),
      (sint (ib_entry_length (sb_ibits s)), to_u32 (de_length e)),
      (sint (ib_entry_type (sb_ibits s)), to_u32 (de_type e))]"

definition entry_size :: "super_block \<Rightarrow> int" where
  "entry_size s = bytes_of_bits (uint (ib_entry_number (sb_ibits s)) +
     uint (ib_entry_length (sb_ibits s)) + uint (ib_entry_type (sb_ibits s)))"

definition write_entry :: "heap \<Rightarrow> super_block \<Rightarrow> dentry \<Rightarrow> int \<times> buffer \<Rightarrow> (int \<times> buffer) res" where
  "write_entry alloc s e = (\<lambda>(sz, eb).
     rbind (add_fields alloc (entry_size s) (entry_fields s e) eb) (\<lambda>(rc, eb).
     rbind (add_bytes alloc (de_name e) (de_length e) eb) (\<lambda>(rc', eb).
     Ok (sz + rc + rc', eb))))"

definition write_directory ::
  "heap \<Rightarrow> super_block \<Rightarrow> int \<Rightarrow> dentry list \<Rightarrow> buffer \<Rightarrow> (int \<times> buffer) res" where
  "write_directory alloc s parent es eb =
     rbind (add_fields alloc (directory_size s) (directory_fields s parent (int (length es))) eb)
       (\<lambda>(rc, eb). rfold (write_entry alloc s) es (rc, eb))"

definition write_payload :: "heap \<Rightarrow> super_block \<Rightarrow> mnode \<Rightarrow> buffer \<Rightarrow> (int \<times> buffer) res" where
  "write_payload alloc s n eb =
     (if n_type n = inode_code regular_file then
        (case n_payload n of File_payload d \<Rightarrow> add_bytes alloc d (int (length d)) eb | _ \<Rightarrow> Undef)
      else if n_type n = inode_code directory then
        (case n_payload n of Directory_payload p es \<Rightarrow> write_directory alloc s p es eb | _ \<Rightarrow> Undef)
      else
        (case n_payload n of
           Link_payload p \<Rightarrow> add_bytes alloc p (int (length (c_str p)) + 1) eb
         | _ \<Rightarrow> Undef))"

text \<open>Where an object that starts at \<open>offset\<close> in the entry buffer is: block and index.\<close>

definition block_of :: "super_block \<Rightarrow> int \<Rightarrow> int" where
  "block_of s offset = drop_bit (unat (sb_block_log2 s)) offset"

definition index_of :: "super_block \<Rightarrow> int \<Rightarrow> int" where
  "index_of s offset = offset AND (push_bit (unat (sb_block_log2 s)) 1 - 1)"

definition write_node ::
  "heap \<Rightarrow> super_block \<Rightarrow> mnode \<Rightarrow> mnode list \<times> int \<times> buffer \<Rightarrow> (mnode list \<times> int \<times> buffer) res" where
  "write_node alloc s n = (\<lambda>(ns, offset, eb).
     if n_type n \<notin> {inode_code regular_file, inode_code directory, inode_code symbolic_link}
     then Ok (ns @ [n], offset, eb)
     else rbind (write_payload alloc s n eb) (\<lambda>(sz, eb).
       Ok (ns @ [n\<lparr>n_size := sz, n_block := block_of s offset, n_index := index_of s offset\<rparr>],
           offset + sz, eb)))"

section \<open>The blocks\<close>

definition super_2 :: "mnode list \<Rightarrow> buffer \<Rightarrow> super_block \<Rightarrow> super_block" where
  "super_2 nodes eb s = s
     \<lparr>sb_blocks := to_u32 (drop_bit (unat (sb_block_log2 s)) (buffer_length eb + uint (sb_block_size s - 1))),
      sb_ibits := (sb_ibits s)
        \<lparr>ib_size := to_u32 (blog (fold (\<lambda>n m. max m (n_size n)) nodes (-1))),
         ib_block := to_u32 (blog (fold (\<lambda>n m. max m (n_block n)) nodes (-1))),
         ib_index := to_u32 (blog (fold (\<lambda>n m. max m (n_index n)) nodes (-1)))\<rparr>\<rparr>"

definition sizeof_block :: int where
  "sizeof_block = 48"

definition new_block :: "super_block \<Rightarrow> buffer \<Rightarrow> nat \<Rightarrow> block" where
  "new_block s eb b =
     (let bb = int b * uint (sb_block_size s) in
      \<lparr>bl_offset = 0, bl_size = min (uint (sb_block_size s)) (buffer_length eb - bb),
       bl_compressed_size = 0, bl_buffer = bb, bl_cbuffer = [], bl_status = 0\<rparr>)"

definition new_blocks :: "heap \<Rightarrow> super_block \<Rightarrow> buffer \<Rightarrow> block list res" where
  "new_blocks alloc s eb =
     rbind (check (malloc_ok alloc (uint (sb_blocks s) * sizeof_block)) Minus1) (\<lambda>_.
     rbind (check (malloc_ok alloc (uint (sb_block_size s * 2))) Minus1) (\<lambda>_.
     rbind (check (\<forall>b \<in> set [0..<unat (sb_blocks s)]. malloc_ok alloc (bl_size (new_block s eb b) * 2)) Minus1) (\<lambda>_.
     Ok (map (new_block s eb) [0..<unat (sb_blocks s)]))))"

text \<open>
  Starting the threads.  Past the 16th the code writes behind the array \<open>jobs\<close>; when a
  thread cannot be started after others have been, the code frees the blocks they work on.
\<close>

definition start_jobs :: "environment \<Rightarrow> options \<Rightarrow> unit res" where
  "start_jobs env opt =
     (case find (\<lambda>b. MAX_JOBS \<le> b \<or> \<not> e_thread env b) [0..<unat (o_njobs opt)] of
        None \<Rightarrow> Ok ()
      | Some b \<Rightarrow> if MAX_JOBS \<le> b \<or> 0 < b then Undef else Err Minus1)"

definition store_block ::
  "heap \<Rightarrow> block \<Rightarrow> block list \<times> int \<times> buffer \<Rightarrow> (block list \<times> int \<times> buffer) res" where
  "store_block alloc k = (\<lambda>(ks, offset, cb).
     rbind (buffer_add alloc cb (bl_cbuffer k) (to_u32 (bl_compressed_size k))) (\<lambda>(rc, cb).
     rbind (check (rc = bl_compressed_size k) Minus1) (\<lambda>_.
     Ok (ks @ [k\<lparr>bl_offset := offset\<rparr>], offset + rc, cb))))"

definition store_blocks :: "heap \<Rightarrow> block list \<Rightarrow> (block list \<times> buffer) res" where
  "store_blocks alloc ks =
     rbind (rfold (store_block alloc) ks ([], 0, buffer_init)) (\<lambda>(ks, _, cb).
     rbind (check (\<forall>k \<in> set ks. bl_status k = 2) Minus1) (\<lambda>_. Ok (ks, cb)))"

text \<open>The last block's size is \<open>blocks[b - 1]\<close>, also when there is none.\<close>

definition min_compressed :: "block list \<Rightarrow> int" where
  "min_compressed ks = fold (\<lambda>k m. min m (bl_compressed_size k)) ks LONG_LONG_MAX"

definition super_3 :: "block list \<Rightarrow> super_block \<Rightarrow> super_block res" where
  "super_3 ks s =
     (if ks = [] then Undef
      else let last_size = max (-1) (bl_size (last ks));
               offset = fold (\<lambda>k m. max m (bl_offset k)) ks (-1);
               csize = fold (\<lambda>k m. max m (bl_compressed_size k)) ks (-1) in
        Ok (s\<lparr>sb_kbits := \<lparr>kb_offset = to_u32 (blog offset),
                 kb_compressed_size = to_u32 (blog (csize - min_compressed ks)),
                 kb_size = to_u32 (blog last_size)\<rparr>,
              sb_min := (sb_min s)\<lparr>min_compressed_size := to_u32 (min_compressed ks)\<rparr>\<rparr>))"

definition block_fields :: "super_block \<Rightarrow> int \<Rightarrow> block \<Rightarrow> field list" where
  "block_fields s m k =
     [(sint (kb_offset (sb_kbits s)), to_u32 (bl_offset k)),
      (sint (kb_compressed_size (sb_kbits s)), to_u32 (bl_compressed_size k - m))]"

definition block_table_fields :: "super_block \<Rightarrow> block list \<Rightarrow> field list" where
  "block_table_fields s ks =
     concat (map (block_fields s (min_compressed ks)) ks) @
     [(sint (kb_size (sb_kbits s)), to_u32 (bl_size (last ks)))]"

definition block_table_size :: "super_block \<Rightarrow> int" where
  "block_table_size s =
     bytes_of_bits ((uint (kb_offset (sb_kbits s)) + uint (kb_compressed_size (sb_kbits s))) *
       uint (sb_blocks s) + uint (kb_size (sb_kbits s)))"

section \<open>The inode table\<close>

definition inode_fields :: "super_block \<Rightarrow> mnode \<Rightarrow> field list" where
  "inode_fields s n =
     (let i = sb_ibits s in
     [(sint (ib_type i), to_u32 (n_type n)),
      (sint (ib_owner_mode i), to_u32 (n_owner_mode n)),
      (sint (ib_group_mode i), to_u32 (n_group_mode n)),
      (sint (ib_other_mode i), to_u32 (n_other_mode n)),
      (sint (ib_uid i), to_u32 (n_uid n)),
      (sint (ib_gid i), to_u32 (n_gid n)),
      (sint (ib_ctime i), to_u32 (n_ctime n - uint (min_ctime (sb_min s)))),
      (sint (ib_mtime i), to_u32 (n_mtime n - uint (min_mtime (sb_min s)))),
      (sint (ib_size i), to_u32 (n_size n)),
      (sint (ib_block i), to_u32 (n_block n)),
      (sint (ib_index i), to_u32 (n_index n))])"

definition max_inode_size :: "inode_bits \<Rightarrow> int" where
  "max_inode_size i =
     uint (ib_type i) + uint (ib_owner_mode i) + uint (ib_group_mode i) + uint (ib_other_mode i) +
     uint (ib_uid i) + uint (ib_gid i) + uint (ib_ctime i) + uint (ib_mtime i) +
     uint (ib_size i) + uint (ib_block i) + uint (ib_index i)"

definition inode_table_size :: "super_block \<Rightarrow> int" where
  "inode_table_size s = bytes_of_bits (uint (sb_inodes s) * max_inode_size (sb_ibits s))"

definition compress_inodes :: "heap \<Rightarrow> compressor \<Rightarrow> int \<Rightarrow> buffer \<Rightarrow> buffer res" where
  "compress_inodes alloc c sz ib =
     rbind (check (malloc_ok alloc (sz * 2)) Minus1) (\<lambda>_.
     rbind (mem_slice (buffer_buffer ib) 0 (as_u32 sz)) (\<lambda>src.
     let (rc, out) = compressor_compress c src (as_u32 (sz * 2)) in
     if int (length out) > sz * 2 then Undef
     else rbind (check (0 \<le> rc) Minus1) (\<lambda>_.
          rbind (check (rc \<le> sz) Minus1) (\<lambda>_.
          rbind (add_bytes alloc out rc buffer_init) (\<lambda>(_, cb). Ok cb)))))"

definition super_4 :: "buffer \<Rightarrow> buffer \<Rightarrow> buffer \<Rightarrow> buffer \<Rightarrow> super_block \<Rightarrow> super_block" where
  "super_4 ib icb bb ecb s =
     (let inodes_offset = to_u32 sizeof_super; inodes_csize = to_u32 (buffer_length icb);
          blocks_offset = inodes_offset + inodes_csize; blocks_size = to_u32 (buffer_length bb) in
      s\<lparr>sb_inodes_offset := inodes_offset, sb_inodes_size := to_u32 (buffer_length ib),
        sb_inodes_csize := inodes_csize, sb_blocks_offset := blocks_offset,
        sb_blocks_size := blocks_size, sb_entries_offset := blocks_offset + blocks_size,
        sb_entries_size := to_u32 (buffer_length ecb)\<rparr>)"

section \<open>Writing the image\<close>

text \<open>The file after the \<open>i\<close>-th \<open>write\<close> of \<open>n\<close> bytes, which may fall short.\<close>

definition write_part :: "environment \<Rightarrow> nat \<Rightarrow> memory \<Rightarrow> int \<Rightarrow> memory \<Rightarrow> memory res" where
  "write_part env i d n file =
     rbind (check (e_write env i) Minus1) (\<lambda>_.
     rbind (mem_slice d 0 n) (\<lambda>d. Ok (file @ d)))"

definition write_buffer :: "environment \<Rightarrow> nat \<Rightarrow> buffer \<Rightarrow> memory \<Rightarrow> memory res" where
  "write_buffer env i b = write_part env i (buffer_buffer b) (buffer_length b)"

definition write_padding :: "environment \<Rightarrow> options \<Rightarrow> memory \<Rightarrow> memory res" where
  "write_padding env opt file =
     (let index = int (length file) AND (4096 - 1) in
      if \<not> o_no_padding opt \<and> index \<noteq> 0
      then write_part env 4 (replicate 4096 0) (4096 - index) file else Ok file)"

definition write_image ::
  "environment \<Rightarrow> options \<Rightarrow> super_block \<Rightarrow> buffer \<Rightarrow> buffer \<Rightarrow> buffer \<Rightarrow> memory res" where
  "write_image env opt s icb bb ecb =
     rbind (add_bytes (e_alloc env) (super_bytes s) sizeof_super buffer_init) (\<lambda>(_, sb).
     rbind (check (e_open env) Minus1) (\<lambda>_.
     rbind (write_buffer env 0 sb []) (\<lambda>file.
     rbind (write_buffer env 1 icb file) (\<lambda>file.
     rbind (write_buffer env 2 bb file) (\<lambda>file.
     rbind (write_buffer env 3 ecb file) (\<lambda>file. write_padding env opt file))))))"

section \<open>The whole function\<close>

definition scan_maxima :: "options \<Rightarrow> compressor \<Rightarrow> mnode list \<Rightarrow> super_block \<Rightarrow> super_block res" where
  "scan_maxima opt c nodes s =
     rbind (rfold maxima_node nodes maxima_init) (\<lambda>x.
     Ok (super_1 opt c nodes (maxima_disable opt x) s))"

definition fill_entries ::
  "heap \<Rightarrow> super_block \<Rightarrow> mnode list \<Rightarrow> (mnode list \<times> buffer) res" where
  "fill_entries alloc s nodes =
     rbind (rfold (write_node alloc s) nodes ([], 0, buffer_init)) (\<lambda>(ns, _, eb). Ok (ns, eb))"

definition compress_blocks ::
  "environment \<Rightarrow> options \<Rightarrow> compressor \<Rightarrow> super_block \<Rightarrow> buffer \<Rightarrow> (block list \<times> buffer) res" where
  "compress_blocks env opt c s eb =
     rbind (new_blocks (e_alloc env) s eb) (\<lambda>ks.
     rbind (start_jobs env opt) (\<lambda>_.
     rbind (run_jobs c (buffer_contents eb) (e_sched env) (unat (o_njobs opt)) ks) (\<lambda>ks.
     store_blocks (e_alloc env) ks)))"

text \<open>From the third super block stage on: the tables and the file.\<close>

definition write_tables ::
  "environment \<Rightarrow> options \<Rightarrow> compressor \<Rightarrow> super_block \<Rightarrow> mnode list \<Rightarrow> block list \<Rightarrow> buffer \<Rightarrow>
    (mnode list \<times> memory) res" where
  "write_tables env opt c s nodes ks ecb =
     rbind (super_3 ks s) (\<lambda>s.
     rbind (add_fields (e_alloc env) (block_table_size s) (block_table_fields s ks) buffer_init) (\<lambda>(_, bb).
     let nodes = HASH_SRT nodes_sort_by_number nodes in
     rbind (add_fields (e_alloc env) (inode_table_size s) (concat (map (inode_fields s) nodes)) buffer_init) (\<lambda>(_, ib).
     rbind (compress_inodes (e_alloc env) c (inode_table_size s) ib) (\<lambda>icb.
     rbind (write_image env opt (super_4 ib icb bb ecb s) icb bb ecb) (\<lambda>file.
     Ok (nodes, file))))))"

text \<open>The node table as the function leaves it, and the file.\<close>

definition output_write ::
  "environment \<Rightarrow> options \<Rightarrow> compressor \<Rightarrow> mnode list \<Rightarrow> (mnode list \<times> memory) res" where
  "output_write env opt c nodes =
     rbind (scan_maxima opt c nodes (e_stack env)) (\<lambda>s.
     rbind (fill_entries (e_alloc env) s (HASH_SRT nodes_sort_by_type nodes)) (\<lambda>(nodes, eb).
     let s = super_2 nodes eb s in
     rbind (compress_blocks env opt c s eb) (\<lambda>(ks, ecb).
     write_tables env opt c s nodes ks ecb)))"

end
