(* ===== verification/Mkfs_Image.thy ===== *)
theory Mkfs_Image
  imports Mkfs_Write
begin

text \<open>
  What \<open>output_write\<close> produces: \<open>node_bytes\<close> is the serialization of a node's contents,
  \<open>placed\<close> gives the nodes their place in the entry data, and \<open>image_layout\<close> states how
  the parts of an image lie in the file.  The lemmas follow the stages of the function.
\<close>

unbundle bit_operations_syntax

section \<open>Packed fields\<close>

definition fresh_bitbuffer :: "int \<Rightarrow> bitbuffer" where
  "fresh_bitbuffer sz =
     \<lparr>bb_buffer = replicate (nat sz) 0, bb_end = sz, bb_size = sz, bb_bsize = sz * 8,
      bb_index = 0, bb_external = False\<rparr>"

definition pack :: "int \<Rightarrow> field list \<Rightarrow> memory" where
  "pack sz fs = (case putbits_seq fs (fresh_bitbuffer sz) of Ok b \<Rightarrow> bb_buffer b | _ \<Rightarrow> [])"

lemma membit_zero: "k < 8 * n \<Longrightarrow> \<not> membit (replicate n 0) k"
  by (simp add: membit_def nth_replicate less_mult_imp_div_less mult.commute)

lemma pack_ok:
  assumes "widths_ok fs" and "0 \<le> sz" and "sz < 2 ^ 28" and "int (width_sum fs) \<le> 8 * sz"
  shows "\<exists>b. putbits_seq fs (fresh_bitbuffer sz) = Ok b \<and> bb_buffer b = pack sz fs"
    and "length (pack sz fs) = nat sz" and "holds (membit (pack sz fs)) 0 fs"
proof -
  have "bb_wf (fresh_bitbuffer sz)"
    "nat (bb_index (fresh_bitbuffer sz)) + width_sum fs \<le> 8 * length (bb_buffer (fresh_bitbuffer sz))"
    "\<forall>k \<ge> nat (bb_index (fresh_bitbuffer sz)). k < 8 * length (bb_buffer (fresh_bitbuffer sz)) \<longrightarrow>
       \<not> membit (bb_buffer (fresh_bitbuffer sz)) k"
    using assms by (auto simp: bb_wf_def nat_le_iff fresh_bitbuffer_def membit_zero)
  from bb.put_seq_ok [OF this(1) assms(1) this(2,3)]
  obtain b where "putbits_seq fs (fresh_bitbuffer sz) = Ok b"
    "length (bb_buffer b) = nat sz" "holds (membit (bb_buffer b)) 0 fs"
    by (auto simp: fresh_bitbuffer_def)
  then show "\<exists>b. putbits_seq fs (fresh_bitbuffer sz) = Ok b \<and> bb_buffer b = pack sz fs"
    and "length (pack sz fs) = nat sz" and "holds (membit (pack sz fs)) 0 fs"
    by (simp_all add: pack_def)
qed

lemma add_fields_ok:
  assumes b: "buffer_ok b" and h: "heap_ok alloc"
    and fs: "widths_ok fs" "0 \<le> sz" "sz < 2 ^ 28" "int (width_sum fs) \<le> 8 * sz"
    and l: "int (length (buffer_contents b)) + sz < 2 ^ 60"
  shows "\<exists>b'. add_fields alloc sz fs b = Ok (sz, b') \<and> buffer_ok b' \<and>
    buffer_contents b' = buffer_contents b @ pack sz fs"
proof -
  obtain bb where bb: "putbits_seq fs (fresh_bitbuffer sz) = Ok bb" "bb_buffer bb = pack sz fs"
    using pack_ok(1) [OF fs] by auto
  have i: "bitbuffer_init alloc (to_s32 sz) = Ok (fresh_bitbuffer sz)"
    using fs h by (simp add: bitbuffer_init_def fresh_bitbuffer_def)
  have len: "length (pack sz fs) = nat sz" using fs by (rule pack_ok(2))
  have "to_u32 sz = of_nat (length (pack sz fs))" "int (length (pack sz fs)) = sz"
    using fs(2) len by (simp_all add: of_nat_nat)
  moreover have "length (pack sz fs) < 2147483648" "length (buffer_contents b) + length (pack sz fs) < 2 ^ 60"
    using fs(2,3) len l by auto
  then obtain b' where "buffer_add alloc b (pack sz fs) (of_nat (length (pack sz fs))) =
      Ok (int (length (pack sz fs)), b')" "buffer_ok b'"
    "buffer_contents b' = buffer_contents b @ pack sz fs"
    using buffer_add_ok [OF b h, of "pack sz fs"] by blast
  ultimately show ?thesis
    using i bb fs(2) by (simp add: add_fields_def bitbuffer_buffer_def)
qed

lemma add_bytes_ok:
  assumes b: "buffer_ok b" and h: "heap_ok alloc" and n: "0 \<le> n" "n < 2 ^ 31" "n \<le> int (length d)"
    and l: "int (length (buffer_contents b)) + n < 2 ^ 60"
  shows "\<exists>b'. add_bytes alloc d n b = Ok (n, b') \<and> buffer_ok b' \<and>
    buffer_contents b' = buffer_contents b @ take (nat n) d"
proof -
  have u: "unat (to_u32 n) = nat n" "sint (to_u32 n) = n"
    using n by (simp_all add: unat_eq_nat_uint)
  have "buffer_wf b" "bf_size b \<le> 2 ^ 61" using b by (simp_all add: buffer_ok_def)
  moreover have "length (buffer_contents b) + unat (to_u32 n) < 2 ^ 60" "unat (to_u32 n) \<le> length d"
    unfolding u(1) using n l by auto
  ultimately obtain rc b' where a: "buffer_add alloc b d (to_u32 n) = Ok (rc, b')"
    using sink.add_total [of b alloc "to_u32 n" d] h by auto
  have c: "buffer_wf b'" "rc = n" "buffer_contents b' = buffer_contents b @ take (nat n) d"
    using sink.add_contents [OF _ a] b u by (auto simp: buffer_ok_def)
  have "bf_size b' \<le> 2 ^ 61"
    using sink.add_cap [OF _ a] b c(3) l n by (auto simp: buffer_ok_def)
  with a c n(1) show ?thesis by (auto simp: add_bytes_def buffer_ok_def)
qed

section \<open>The serialization of a node\<close>

definition entry_bytes :: "super_block \<Rightarrow> dentry \<Rightarrow> memory" where
  "entry_bytes s e = pack (entry_size s) (entry_fields s e) @ de_name e"

definition directory_bytes :: "super_block \<Rightarrow> int \<Rightarrow> dentry list \<Rightarrow> memory" where
  "directory_bytes s parent es =
     pack (directory_size s) (directory_fields s parent (int (length es))) @
     concat (map (entry_bytes s) es)"

definition node_bytes :: "super_block \<Rightarrow> mnode \<Rightarrow> memory" where
  "node_bytes s n = (case n_payload n of
       No_payload \<Rightarrow> [] | File_payload d \<Rightarrow> d
     | Directory_payload p es \<Rightarrow> directory_bytes s p es
     | Link_payload p \<Rightarrow> c_str p @ [0])"

text \<open>A node as \<open>node_new\<close> makes it: the payload of its type, attributes of 32 bits.\<close>

definition u32_range :: "int \<Rightarrow> bool" where
  "u32_range v \<longleftrightarrow> 0 \<le> v \<and> v < 2 ^ 32"

definition dentry_ok :: "dentry \<Rightarrow> bool" where
  "dentry_ok e \<longleftrightarrow> u32_range (de_number e) \<and> u32_range (de_type e) \<and> de_length e < 2 ^ 31"

definition payload_ok :: "mnode \<Rightarrow> bool" where
  "payload_ok n \<longleftrightarrow> (case n_payload n of
       No_payload \<Rightarrow> False
     | File_payload d \<Rightarrow> n_type n = inode_code regular_file \<and> length d < 2 ^ 31
     | Directory_payload p es \<Rightarrow> n_type n = inode_code directory \<and> u32_range p \<and>
         length es < 2 ^ 31 \<and> (\<forall>e \<in> set es. dentry_ok e)
     | Link_payload p \<Rightarrow> n_type n = inode_code symbolic_link \<and> 0 \<in> set p \<and> length p < 2 ^ 31)"

definition node_ok :: "mnode \<Rightarrow> bool" where
  "node_ok n \<longleftrightarrow> payload_ok n \<and> u32_range (n_owner_mode n) \<and> u32_range (n_group_mode n) \<and>
     u32_range (n_other_mode n) \<and> u32_range (n_uid n) \<and> u32_range (n_gid n) \<and>
     u32_range (n_ctime n) \<and> u32_range (n_mtime n)"

lemma payload_ok_cases:
  assumes "payload_ok n"
  obtains d where "n_payload n = File_payload d" "n_type n = 1" "length d < 2 ^ 31"
    | p es where "n_payload n = Directory_payload p es" "n_type n = 2" "u32_range p"
        "length es < 2 ^ 31" "\<forall>e \<in> set es. dentry_ok e"
    | p where "n_payload n = Link_payload p" "n_type n = 3" "0 \<in> set p" "length p < 2 ^ 31"
  using assms by (cases "n_payload n") (auto simp: payload_ok_def)

text \<open>The widths of a super block are those of a field of at most 32 bits.\<close>

definition ibits_widths :: "inode_bits \<Rightarrow> u32 list" where
  "ibits_widths i = [ib_type i, ib_owner_mode i, ib_group_mode i, ib_other_mode i, ib_uid i,
     ib_gid i, ib_ctime i, ib_mtime i, ib_size i, ib_block i, ib_index i, ib_parent i,
     ib_nentries i, ib_entry_number i, ib_entry_length i, ib_entry_type i]"

definition entry_widths_ok :: "super_block \<Rightarrow> bool" where
  "entry_widths_ok s \<longleftrightarrow> (\<forall>w \<in> {ib_parent (sb_ibits s), ib_nentries (sb_ibits s),
     ib_entry_number (sb_ibits s), ib_entry_length (sb_ibits s), ib_entry_type (sb_ibits s)}.
     uint w \<le> 32)"

lemma width_sint: "uint (w :: u32) \<le> 32 \<Longrightarrow> sint w = uint w"
  by (rule sint_eq_uint_small) simp

lemma bytes_of_bits_bounds: "bits \<le> 8 * bytes_of_bits bits" "8 * bytes_of_bits bits \<le> bits + 7"
  unfolding bytes_of_bits_def by presburger+

lemma bytes_of_bits_nonneg: "0 \<le> bits \<Longrightarrow> 0 \<le> bytes_of_bits bits"
  by (simp add: bytes_of_bits_def)

lemma directory_fields_ok:
  assumes "entry_widths_ok s"
  shows "widths_ok (directory_fields s p k)" and "0 \<le> directory_size s" and "directory_size s \<le> 8"
    and "int (width_sum (directory_fields s p k)) \<le> 8 * directory_size s"
proof -
  let ?b = "uint (ib_parent (sb_ibits s)) + uint (ib_nentries (sb_ibits s))"
  have w: "uint (ib_parent (sb_ibits s)) \<le> 32" "uint (ib_nentries (sb_ibits s)) \<le> 32"
    using assms by (auto simp: entry_widths_ok_def)
  then show "widths_ok (directory_fields s p k)" by (simp add: directory_fields_def width_sint)
  have "int (width_sum (directory_fields s p k)) = ?b"
    using w by (simp add: directory_fields_def width_sint)
  then show "int (width_sum (directory_fields s p k)) \<le> 8 * directory_size s"
    using bytes_of_bits_bounds(1) [of ?b] by (simp add: directory_size_def)
  show "0 \<le> directory_size s" by (simp add: directory_size_def bytes_of_bits_nonneg)
  show "directory_size s \<le> 8"
    using bytes_of_bits_bounds(2) [of ?b] w by (simp add: directory_size_def)
qed

lemma entry_fields_ok:
  assumes "entry_widths_ok s"
  shows "widths_ok (entry_fields s e)" and "0 \<le> entry_size s" and "entry_size s \<le> 12"
    and "int (width_sum (entry_fields s e)) \<le> 8 * entry_size s"
proof -
  let ?i = "sb_ibits s"
  let ?b = "uint (ib_entry_number ?i) + uint (ib_entry_length ?i) + uint (ib_entry_type ?i)"
  have w: "uint (ib_entry_number ?i) \<le> 32" "uint (ib_entry_length ?i) \<le> 32" "uint (ib_entry_type ?i) \<le> 32"
    using assms by (auto simp: entry_widths_ok_def)
  then show "widths_ok (entry_fields s e)" by (simp add: entry_fields_def width_sint)
  have "int (width_sum (entry_fields s e)) = ?b"
    using w by (simp add: entry_fields_def width_sint)
  then show "int (width_sum (entry_fields s e)) \<le> 8 * entry_size s"
    using bytes_of_bits_bounds(1) [of ?b] by (simp add: entry_size_def)
  show "0 \<le> entry_size s" by (simp add: entry_size_def bytes_of_bits_nonneg)
  show "entry_size s \<le> 12"
    using bytes_of_bits_bounds(2) [of ?b] w by (simp add: entry_size_def)
qed

lemma length_entry_bytes:
  "entry_widths_ok s \<Longrightarrow> int (length (entry_bytes s e)) = entry_size s + de_length e"
  using entry_fields_ok(1,4) [of s e] entry_fields_ok(2,3) [of s] pack_ok(2) [of "entry_fields s e" "entry_size s"]
  by (simp add: entry_bytes_def de_length_def)

lemma write_entry_ok:
  assumes b: "buffer_ok eb" and h: "heap_ok alloc" and w: "entry_widths_ok s"
    and e: "de_length e < 2 ^ 31"
    and l: "length (buffer_contents eb) + length (entry_bytes s e) < 2 ^ 60"
  shows "\<exists>eb'. write_entry alloc s e (sz, eb) = Ok (sz + int (length (entry_bytes s e)), eb') \<and>
    buffer_ok eb' \<and> buffer_contents eb' = buffer_contents eb @ entry_bytes s e"
proof -
  note f = entry_fields_ok(1) [OF w, of e] entry_fields_ok(2,3) [OF w] entry_fields_ok(4) [OF w, of e]
  have l': "int (length (buffer_contents eb)) + entry_size s + de_length e < 2 ^ 60"
    using l length_entry_bytes [OF w, of e] by simp
  have p: "int (length (pack (entry_size s) (entry_fields s e))) = entry_size s"
    using f pack_ok(2) [of "entry_fields s e" "entry_size s"] by simp
  have d: "0 \<le> de_length e" "nat (de_length e) = length (de_name e)" by (simp_all add: de_length_def)
  have "entry_size s < 2 ^ 28" "int (length (buffer_contents eb)) + entry_size s < 2 ^ 60"
    using f(3) l' d(1) by simp_all
  from add_fields_ok [OF b h f(1,2) this(1) f(4) this(2)]
  obtain b1 where b1: "add_fields alloc (entry_size s) (entry_fields s e) eb = Ok (entry_size s, b1)"
    "buffer_ok b1" "buffer_contents b1 = buffer_contents eb @ pack (entry_size s) (entry_fields s e)"
    by blast
  have "int (length (buffer_contents b1)) + de_length e < 2 ^ 60"
    using l' p by (simp add: b1(3))
  from add_bytes_ok [OF b1(2) h d(1) e _ this, of "de_name e"]
  obtain b2 where "add_bytes alloc (de_name e) (de_length e) b1 = Ok (de_length e, b2)"
    "buffer_ok b2" "buffer_contents b2 = buffer_contents b1 @ de_name e"
    using d(2) by (auto simp: de_length_def)
  with b1 show ?thesis
    by (simp add: write_entry_def entry_bytes_def p de_length_def)
qed

lemma write_entries_ok:
  assumes "buffer_ok eb" and h: "heap_ok alloc" and w: "entry_widths_ok s"
    and "\<forall>e \<in> set es. de_length e < 2 ^ 31"
    and "length (buffer_contents eb) + length (concat (map (entry_bytes s) es)) < 2 ^ 60"
  shows "\<exists>eb'. rfold (write_entry alloc s) es (sz, eb) =
      Ok (sz + int (length (concat (map (entry_bytes s) es))), eb') \<and>
    buffer_ok eb' \<and> buffer_contents eb' = buffer_contents eb @ concat (map (entry_bytes s) es)"
  using assms
proof (induction es arbitrary: sz eb)
  case (Cons e es)
  have "de_length e < 2 ^ 31" "length (buffer_contents eb) + length (entry_bytes s e) < 2 ^ 60"
    using Cons.prems(4,5) by simp_all
  from write_entry_ok [OF Cons.prems(1) h w this, of sz]
  obtain b1 where b1: "write_entry alloc s e (sz, eb) = Ok (sz + int (length (entry_bytes s e)), b1)"
    "buffer_ok b1" "buffer_contents b1 = buffer_contents eb @ entry_bytes s e" by blast
  with Cons.IH [of b1 "sz + int (length (entry_bytes s e))"] Cons.prems show ?case
    by (auto simp: ac_simps)
qed simp

lemma write_directory_ok:
  assumes b: "buffer_ok eb" and h: "heap_ok alloc" and w: "entry_widths_ok s"
    and e: "\<forall>e \<in> set es. de_length e < 2 ^ 31"
    and l: "length (buffer_contents eb) + length (directory_bytes s p es) < 2 ^ 60"
  shows "\<exists>eb'. write_directory alloc s p es eb = Ok (int (length (directory_bytes s p es)), eb') \<and>
    buffer_ok eb' \<and> buffer_contents eb' = buffer_contents eb @ directory_bytes s p es"
proof -
  let ?fs = "directory_fields s p (int (length es))"
  note f = directory_fields_ok(1) [OF w, of p "int (length es)"] directory_fields_ok(2,3) [OF w]
    directory_fields_ok(4) [OF w, of p "int (length es)"]
  have sz: "directory_size s < 2 ^ 28" using f(3) by simp
  have p: "int (length (pack (directory_size s) ?fs)) = directory_size s"
    using f sz pack_ok(2) [of ?fs "directory_size s"] by simp
  have "int (length (buffer_contents eb)) + directory_size s < 2 ^ 60"
    using l p by (simp add: directory_bytes_def)
  from add_fields_ok [OF b h f(1,2) sz f(4) this]
  obtain b1 where b1: "add_fields alloc (directory_size s) ?fs eb = Ok (directory_size s, b1)"
    "buffer_ok b1" "buffer_contents b1 = buffer_contents eb @ pack (directory_size s) ?fs" by blast
  have "length (buffer_contents b1) + length (concat (map (entry_bytes s) es)) < 2 ^ 60"
    using l b1(3) by (simp add: directory_bytes_def)
  from write_entries_ok [OF b1(2) h w e this, of "directory_size s"] b1 p show ?thesis
    by (auto simp: write_directory_def directory_bytes_def)
qed

lemma c_str_less: "0 \<in> set p \<Longrightarrow> length (c_str p) < length p"
  unfolding c_str_def by (induction p) auto

lemma write_payload_ok:
  assumes b: "buffer_ok eb" and h: "heap_ok alloc" and w: "entry_widths_ok s" and n: "payload_ok n"
    and l: "length (buffer_contents eb) + length (node_bytes s n) < 2 ^ 60"
  shows "\<exists>eb'. write_payload alloc s n eb = Ok (int (length (node_bytes s n)), eb') \<and>
    buffer_ok eb' \<and> buffer_contents eb' = buffer_contents eb @ node_bytes s n"
  using n
proof (cases rule: payload_ok_cases)
  case (1 d)
  then show ?thesis
    using add_bytes_ok [OF b h, of "int (length d)" d] l
    by (simp add: write_payload_def node_bytes_def)
next
  case (2 p es)
  then show ?thesis
    using write_directory_ok [OF b h w, of es p] l
    by (simp add: write_payload_def node_bytes_def dentry_ok_def)
next
  case (3 p)
  let ?k = "length (c_str p)"
  have k: "?k < length p" using 3(3) by (rule c_str_less)
  have "p ! ?k = 0" using k nth_length_takeWhile [of "\<lambda>c. c \<noteq> 0" p] by (simp add: c_str_def)
  then have t: "take (nat (int ?k + 1)) p = c_str p @ [0]"
    using k by (simp add: nat_add_distrib take_Suc_conv_app_nth c_str_def takeWhile_eq_take [symmetric]
        del: of_nat_Suc)
  have "int ?k + 1 < 2 ^ 31" "int ?k + 1 \<le> int (length p)"
    "int (length (buffer_contents eb)) + (int ?k + 1) < 2 ^ 60"
    using 3 k l by (simp_all add: node_bytes_def)
  from add_bytes_ok [OF b h _ this] 3 t show ?thesis
    by (auto simp: write_payload_def node_bytes_def add.commute)
qed

section \<open>The entry data and the places in it\<close>

fun placed :: "super_block \<Rightarrow> int \<Rightarrow> mnode list \<Rightarrow> mnode list" where
  "placed s offset [] = []"
| "placed s offset (n # ns) =
     n\<lparr>n_size := int (length (node_bytes s n)), n_block := block_of s offset,
       n_index := index_of s offset\<rparr> # placed s (offset + int (length (node_bytes s n))) ns"

definition entry_data :: "super_block \<Rightarrow> mnode list \<Rightarrow> memory" where
  "entry_data s ns = concat (map (node_bytes s) ns)"

lemma entry_data_simps [simp]:
  "entry_data s [] = []" "entry_data s (n # ns) = node_bytes s n @ entry_data s ns"
  by (simp_all add: entry_data_def)

lemma node_type_known: "payload_ok n \<Longrightarrow> n_type n \<in> {1, 2, 3}"
  by (erule payload_ok_cases) auto

lemma write_nodes_ok:
  assumes "buffer_ok eb" and h: "heap_ok alloc" and w: "entry_widths_ok s"
    and "\<forall>n \<in> set ns. payload_ok n"
    and "length (buffer_contents eb) + length (entry_data s ns) < 2 ^ 60"
  shows "\<exists>eb'. rfold (write_node alloc s) ns (acc, offset, eb) =
      Ok (acc @ placed s offset ns, offset + int (length (entry_data s ns)), eb') \<and>
    buffer_ok eb' \<and> buffer_contents eb' = buffer_contents eb @ entry_data s ns"
  using assms
proof (induction ns arbitrary: acc offset eb)
  case (Cons n ns)
  have n: "payload_ok n" "length (buffer_contents eb) + length (node_bytes s n) < 2 ^ 60"
    using Cons.prems(4,5) by simp_all
  from write_payload_ok [OF Cons.prems(1) h w this]
  obtain b1 where b1: "write_payload alloc s n eb = Ok (int (length (node_bytes s n)), b1)"
    "buffer_ok b1" "buffer_contents b1 = buffer_contents eb @ node_bytes s n" by blast
  let ?n = "n\<lparr>n_size := int (length (node_bytes s n)), n_block := block_of s offset,
       n_index := index_of s offset\<rparr>"
  have "write_node alloc s n (acc, offset, eb) =
      Ok (acc @ [?n], offset + int (length (node_bytes s n)), b1)"
    using b1(1) node_type_known [OF n(1)] by (auto simp: write_node_def)
  with Cons.IH [of b1 "acc @ [?n]" "offset + int (length (node_bytes s n))"] b1 Cons.prems
  show ?case by (auto simp: ac_simps)
qed simp

lemma fill_entries_ok:
  assumes "heap_ok alloc" and "entry_widths_ok s" and "\<forall>n \<in> set ns. payload_ok n"
    and "length (entry_data s ns) < 2 ^ 60"
  shows "\<exists>eb. fill_entries alloc s ns = Ok (placed s 0 ns, eb) \<and> buffer_ok eb \<and>
    buffer_contents eb = entry_data s ns"
  using write_nodes_ok [of buffer_init alloc s ns "[]" 0] assms by (auto simp: fill_entries_def)

text \<open>The bytes of a node lie where its place says, whatever the size of the blocks.\<close>

lemma length_placed [simp]: "length (placed s offset ns) = length ns"
  by (induction ns arbitrary: offset) auto

lemma nth_placed:
  "i < length ns \<Longrightarrow> placed s offset ns ! i =
    (ns ! i)\<lparr>n_size := int (length (node_bytes s (ns ! i))),
       n_block := block_of s (offset + int (length (entry_data s (take i ns)))),
       n_index := index_of s (offset + int (length (entry_data s (take i ns))))\<rparr>"
proof (induction ns arbitrary: offset i)
  case (Cons n ns)
  then show ?case by (cases i) (simp_all add: add.assoc)
qed simp

lemma slice_concat:
  "i < length xs \<Longrightarrow> take (length (xs ! i)) (drop (length (concat (take i xs))) (concat xs)) = xs ! i"
proof (induction xs arbitrary: i)
  case (Cons x xs)
  then show ?case by (cases i) simp_all
qed simp

lemma entry_data_slice:
  "i < length ns \<Longrightarrow>
    take (length (node_bytes s (ns ! i))) (drop (length (entry_data s (take i ns))) (entry_data s ns)) =
      node_bytes s (ns ! i)"
  using slice_concat [of i "map (node_bytes s) ns"] by (simp add: entry_data_def take_map)

lemma block_index_sum:
  "0 \<le> offset \<Longrightarrow> block_of s offset * 2 ^ unat (sb_block_log2 s) + index_of s offset = offset \<and>
    0 \<le> index_of s offset \<and> index_of s offset < 2 ^ unat (sb_block_log2 s) \<and> 0 \<le> block_of s offset"
  using div_mult_mod_eq [of offset "2 ^ unat (sb_block_log2 s)"]
  by (simp add: block_of_def index_of_def and_pow2_minus_1 shiftr_div pos_imp_zdiv_nonneg_iff)

section \<open>The blocks and their compressed data\<close>

text \<open>A super block whose block size is a power of two that \<open>slog\<close> knows.\<close>

definition block_size_ok :: "super_block \<Rightarrow> nat \<Rightarrow> bool" where
  "block_size_ok s k \<longleftrightarrow> 12 \<le> k \<and> k \<le> 20 \<and> sb_block_size s = 2 ^ k \<and> sb_block_log2 s = of_nat k"

lemma block_size_okD:
  assumes "block_size_ok s k"
  shows "unat (sb_block_log2 s) = k" and "uint (sb_block_size s) = 2 ^ k"
    and "uint (sb_block_size s - 1) = 2 ^ k - 1" and "(2 :: int) ^ k \<le> 2 ^ 20" and "(0 :: int) < 2 ^ k"
    and "uint (sb_block_size s * 2) = 2 ^ k * 2"
proof -
  have k: "12 \<le> k" "k \<le> 20" using assms by (auto simp: block_size_ok_def)
  have "unat (of_nat k :: u32) = k" using k by (simp add: unat_of_nat)
  then show "unat (sb_block_log2 s) = k" using assms by (simp add: block_size_ok_def)
  show p: "(2 :: int) ^ k \<le> 2 ^ 20" using k by (intro power_increasing) auto
  have u: "uint (to_u32 (2 ^ k + i)) = 2 ^ k + i" if "-1 \<le> i" "i \<le> 2 ^ k" for i
  proof (rule uint_to_u32_id)
    have "(1 :: int) \<le> 2 ^ k" by simp
    with that show "0 \<le> 2 ^ k + i" by linarith
    show "2 ^ k + i < 4294967296" using p that by simp
  qed
  have e: "sb_block_size s = to_u32 (2 ^ k)" using assms by (simp add: block_size_ok_def)
  show "uint (sb_block_size s) = 2 ^ k" using u [of 0] by (simp add: e)
  have q: "- 1 \<le> (2 :: int) ^ k" by (rule order_trans [of _ 0]) simp_all
  show "uint (sb_block_size s - 1) = 2 ^ k - 1" using u [of "-1"] q by (simp add: e)
  show "uint (sb_block_size s * 2) = 2 ^ k * 2" using u [of "2 ^ k"] q by (simp add: e mult.commute)
  show "(0 :: int) < 2 ^ k" by simp
qed

definition block_bytes :: "nat \<Rightarrow> memory \<Rightarrow> nat \<Rightarrow> memory" where
  "block_bytes k entry b = take (2 ^ k) (drop (b * 2 ^ k) entry)"

lemma super_2_bits [simp]:
  "sb_block_size (super_2 ns eb s) = sb_block_size s" "sb_block_log2 (super_2 ns eb s) = sb_block_log2 s"
  "sb_inodes (super_2 ns eb s) = sb_inodes s" "sb_min (super_2 ns eb s) = sb_min s"
  by (simp_all add: super_2_def)

lemma block_size_ok_super_2 [simp]: "block_size_ok (super_2 ns eb s) k = block_size_ok s k"
  by (simp add: block_size_ok_def)

definition block_count :: "nat \<Rightarrow> memory \<Rightarrow> int" where
  "block_count k entry = (int (length entry) + (2 ^ k - 1)) div 2 ^ k"

lemma super_2_blocks:
  assumes "block_size_ok s k" and "buffer_ok eb" and "length (buffer_contents eb) < 2 ^ 31"
  shows "uint (sb_blocks (super_2 ns eb s)) = block_count k (buffer_contents eb)"
    and "0 \<le> block_count k (buffer_contents eb)" and "block_count k (buffer_contents eb) \<le> 2 ^ 31"
proof -
  note b = block_size_okD [OF assms(1)]
  let ?n = "int (length (buffer_contents eb))"
  have 0: "0 \<le> block_count k (buffer_contents eb)"
    using b(5) by (simp add: block_count_def pos_imp_zdiv_nonneg_iff)
  have "?n + (2 ^ k - 1) < 2 ^ 31 * 2 ^ k"
  proof -
    have "(1 :: int) * 2 ^ k \<le> 2 ^ k * 2 ^ k" using b(5) by (intro mult_right_mono) auto
    have "?n + (2 ^ k - 1) \<le> (2 ^ 31 - 1) * 1 + (2 ^ k - 1)" using assms(3) by simp
    also have "\<dots> \<le> (2 ^ 31 - 1) * 2 ^ k + (2 ^ k - 1)" by (intro add_mono mult_left_mono) auto
    finally show ?thesis by (simp add: algebra_simps)
  qed
  then show le: "block_count k (buffer_contents eb) \<le> 2 ^ 31"
    using le_div_iff [OF b(5), of "2 ^ 31" "?n + (2 ^ k - 1)"] by (simp add: block_count_def not_le)
  show "0 \<le> block_count k (buffer_contents eb)" by fact
  have "buffer_length eb + uint (sb_block_size s - 1) = ?n + (2 ^ k - 1)"
    using assms(2) b(3) by (simp add: buffer_ok_length)
  then show "uint (sb_blocks (super_2 ns eb s)) = block_count k (buffer_contents eb)"
    using 0 le by (simp add: super_2_def b(1) drop_bit_eq_div block_count_def [symmetric])
qed

lemma block_count_less:
  "0 \<le> i \<Longrightarrow> i < block_count k entry \<longleftrightarrow> i * 2 ^ k < int (length entry)"
  by (simp add: block_count_def less_ceil_div)

text \<open>The blocks of the entry data before they are compressed.\<close>

lemma new_block_ok:
  assumes "block_size_ok s k" and "buffer_ok eb" and "int b < block_count k (buffer_contents eb)"
  shows "block_fits (buffer_contents eb) (new_block s eb b)"
    and "block_input (buffer_contents eb) (new_block s eb b) = block_bytes k (buffer_contents eb) b"
    and "bl_size (new_block s eb b) = int (length (block_bytes k (buffer_contents eb) b))"
    and "0 < bl_size (new_block s eb b)" and "bl_size (new_block s eb b) \<le> 2 ^ 20"
    and "bl_status (new_block s eb b) = 0" and "bl_buffer (new_block s eb b) = int b * 2 ^ k"
proof -
  note d = block_size_okD [OF assms(1)]
  let ?e = "buffer_contents eb"
  have l: "int b * 2 ^ k < int (length ?e)" using assms(3) block_count_less [of "int b" k ?e] by simp
  have n: "nat (2 ^ k) = 2 ^ k" "nat (int b * 2 ^ k) = b * 2 ^ k"
    by (simp_all add: nat_mult_distrib nat_power_eq)
  have l': "b * 2 ^ k < length ?e" using l by (metis of_nat_less_iff of_nat_mult of_nat_numeral of_nat_power)
  have sz: "bl_size (new_block s eb b) = min (2 ^ k) (int (length ?e) - int b * 2 ^ k)"
    "bl_buffer (new_block s eb b) = int b * 2 ^ k"
    using assms(2) d(2) by (simp_all add: new_block_def Let_def buffer_ok_length)
  have "int (length ?e - b * 2 ^ k) = int (length ?e) - int b * 2 ^ k"
    using l' by (simp add: of_nat_diff)
  then show szl: "bl_size (new_block s eb b) = int (length (block_bytes k ?e b))"
    by (simp add: sz block_bytes_def of_nat_min min.commute)
  show p: "0 < bl_size (new_block s eb b)" using l d(5) by (simp add: sz)
  show q: "bl_size (new_block s eb b) \<le> 2 ^ 20" using d(4) by (simp add: sz min_def)
  show "block_fits ?e (new_block s eb b)" using p q sz by (simp add: block_fits_def)
  show "bl_buffer (new_block s eb b) = int b * 2 ^ k" by (fact sz(2))
  show "bl_status (new_block s eb b) = 0" by (simp add: new_block_def Let_def)
  have "block_input ?e (new_block s eb b) = take (length (block_bytes k ?e b)) (drop (b * 2 ^ k) ?e)"
    by (simp add: block_input_def szl sz(2) n)
  then show "block_input ?e (new_block s eb b) = block_bytes k ?e b"
    by (simp add: block_bytes_def min_def)
qed

lemma new_blocks_ok:
  assumes "heap_ok alloc" and "block_size_ok s k" and "buffer_ok eb"
    and "uint (sb_blocks s) = block_count k (buffer_contents eb)"
  shows "new_blocks alloc s eb = Ok (map (new_block s eb) [0..<unat (sb_blocks s)])"
proof -
  have "malloc_ok alloc (uint (sb_blocks s) * sizeof_block)"
    using assms(1) uint_lt2p [of "sb_blocks s"] by (intro heap_okD) (auto simp: sizeof_block_def)
  moreover have "malloc_ok alloc (uint (sb_block_size s * 2))"
    using assms(1) uint_lt2p [of "sb_block_size s * 2"] by (intro heap_okD) auto
  moreover have "malloc_ok alloc (bl_size (new_block s eb b) * 2)" if "b < unat (sb_blocks s)" for b
  proof -
    have "int b < block_count k (buffer_contents eb)"
      using that assms(4) by (metis int_nat_eq nat_uint of_nat_less_iff uint_nonnegative)
    from new_block_ok(4,5) [OF assms(2,3) this] show ?thesis using assms(1) by (intro heap_okD) auto
  qed
  ultimately show ?thesis by (simp add: new_blocks_def)
qed

lemma start_jobs_ok:
  assumes "\<forall>b. e_thread env b" and "unat (o_njobs opt) \<le> MAX_JOBS"
  shows "start_jobs env opt = Ok ()"
proof -
  have "find (\<lambda>b. MAX_JOBS \<le> b \<or> \<not> e_thread env b) [0..<unat (o_njobs opt)] = None"
    using assms by (auto simp: find_None_iff)
  then show ?thesis by (simp add: start_jobs_def)
qed

text \<open>The offsets that the compressed blocks get.\<close>

fun stored :: "int \<Rightarrow> block list \<Rightarrow> block list" where
  "stored offset [] = []"
| "stored offset (k # ks) = k\<lparr>bl_offset := offset\<rparr> # stored (offset + bl_compressed_size k) ks"

definition cbuffer_ok :: "block \<Rightarrow> bool" where
  "cbuffer_ok k \<longleftrightarrow> bl_compressed_size k = int (length (bl_cbuffer k)) \<and> length (bl_cbuffer k) < 2 ^ 31"

lemma store_block_run:
  assumes "heap_ok alloc" and "buffer_ok cb" and "\<forall>k \<in> set ks. cbuffer_ok k"
    and "length (buffer_contents cb) + length (concat (map bl_cbuffer ks)) < 2 ^ 60"
  shows "\<exists>cb'. rfold (store_block alloc) ks (acc, offset, cb) =
      Ok (acc @ stored offset ks, offset + int (length (concat (map bl_cbuffer ks))), cb') \<and>
    buffer_ok cb' \<and> buffer_contents cb' = buffer_contents cb @ concat (map bl_cbuffer ks)"
  using assms
proof (induction ks arbitrary: acc offset cb)
  case (Cons k ks)
  have k: "bl_compressed_size k = int (length (bl_cbuffer k))" "length (bl_cbuffer k) < 2147483648"
    using Cons.prems(3) by (simp_all add: cbuffer_ok_def)
  obtain b1 where b1: "buffer_add alloc cb (bl_cbuffer k) (of_nat (length (bl_cbuffer k))) =
      Ok (int (length (bl_cbuffer k)), b1)" "buffer_ok b1"
    "buffer_contents b1 = buffer_contents cb @ bl_cbuffer k"
    using buffer_add_ok [OF Cons.prems(2,1) k(2)] Cons.prems(4) by auto
  then have "store_block alloc k (acc, offset, cb) =
      Ok (acc @ [k\<lparr>bl_offset := offset\<rparr>], offset + int (length (bl_cbuffer k)), b1)"
    by (simp add: store_block_def k(1))
  with Cons.IH [of b1 "acc @ [k\<lparr>bl_offset := offset\<rparr>]" "offset + int (length (bl_cbuffer k))"] b1 Cons.prems
  show ?case by (auto simp: k(1) ac_simps)
qed simp

lemma length_stored [simp]: "length (stored offset ks) = length ks"
  by (induction ks arbitrary: offset) auto

lemma nth_stored:
  "\<forall>k \<in> set ks. cbuffer_ok k \<Longrightarrow> i < length ks \<Longrightarrow> stored offset ks ! i =
    (ks ! i)\<lparr>bl_offset := offset + int (length (concat (map bl_cbuffer (take i ks))))\<rparr>"
proof (induction ks arbitrary: offset i)
  case (Cons k ks)
  then show ?case by (cases i) (simp_all add: cbuffer_ok_def add.assoc)
qed simp

lemma store_blocks_ok:
  assumes "heap_ok alloc" and "\<forall>k \<in> set ks. cbuffer_ok k \<and> bl_status k = 2"
    and "length (concat (map bl_cbuffer ks)) < 2 ^ 60"
  shows "\<exists>cb. store_blocks alloc ks = Ok (stored 0 ks, cb) \<and> buffer_ok cb \<and>
    buffer_contents cb = concat (map bl_cbuffer ks)"
proof -
  have "\<forall>k \<in> set ks. cbuffer_ok k" using assms(2) by blast
  moreover from this have "\<forall>k \<in> set (stored 0 ks). bl_status k = 2"
    using assms(2) by (auto simp: all_set_conv_all_nth nth_stored)
  ultimately show ?thesis
    using store_block_run [OF assms(1) buffer_ok_init, of ks "[]" 0] assms(3)
    by (auto simp: store_blocks_def)
qed

text \<open>The blocks of the entry data are the entry data.\<close>

lemma concat_blocks: "concat (map (block_bytes k entry) [0..<n]) = take (n * 2 ^ k) entry"
proof (induction n)
  case (Suc n)
  then show ?case
    using take_drop_append [of "n * 2 ^ k" 0 entry "2 ^ k"]
    by (simp add: block_bytes_def add.commute)
qed simp

definition shrinks :: "compressor \<Rightarrow> memory \<Rightarrow> bool" where
  "shrinks c d \<longleftrightarrow> (\<exists>rc out. compressor_compress c d (int (length d) * 2) = (rc, out) \<and>
     0 \<le> rc \<and> rc \<le> int (length d))"

text \<open>\<open>decomp\<close> gets every block of the entry data back from the compressed data.\<close>

definition stored_block_ok :: "codec_fn \<Rightarrow> nat \<Rightarrow> memory \<Rightarrow> memory \<Rightarrow> nat \<Rightarrow> block \<Rightarrow> bool" where
  "stored_block_ok decomp k entry data b bl \<longleftrightarrow>
     bl_size bl = int (length (block_bytes k entry b)) \<and>
     0 \<le> bl_compressed_size bl \<and> bl_compressed_size bl \<le> bl_size bl \<and>
     0 \<le> bl_offset bl \<and> bl_offset bl + bl_compressed_size bl \<le> int (length data) \<and>
     decomp (take (nat (bl_compressed_size bl)) (drop (nat (bl_offset bl)) data)) (bl_size bl) =
       (bl_size bl, block_bytes k entry b)"

definition stored_blocks_ok :: "codec_fn \<Rightarrow> nat \<Rightarrow> memory \<Rightarrow> memory \<Rightarrow> block list \<Rightarrow> bool" where
  "stored_blocks_ok decomp k entry data ks \<longleftrightarrow>
     int (length ks) = block_count k entry \<and> length data \<le> length entry \<and>
     (\<forall>b < length ks. stored_block_ok decomp k entry data b (ks ! b))"

lemma compressed_block:
  assumes c: "codec (compressor_compress c) decomp" and b: "block_size_ok s k" "buffer_ok eb"
      "int b < block_count k (buffer_contents eb)"
    and k': "same_block (new_block s eb b) k'" "compressed c (buffer_contents eb) (new_block s eb b) k'"
  shows "cbuffer_ok k'" and "bl_size k' = int (length (block_bytes k (buffer_contents eb) b))"
    and "length (bl_cbuffer k') \<le> length (block_bytes k (buffer_contents eb) b)"
    and "decomp (bl_cbuffer k') (bl_size k') = (bl_size k', block_bytes k (buffer_contents eb) b)"
proof -
  note n = new_block_ok [OF b]
  let ?d = "block_bytes k (buffer_contents eb) b"
  obtain rc out where co: "compressor_compress c ?d (bl_size (new_block s eb b) * 2) = (rc, out)"
    "0 \<le> rc" "rc \<le> bl_size (new_block s eb b)" "bl_compressed_size k' = rc" "bl_cbuffer k' = out"
    using k'(2) by (auto simp: compressed_def n(2))
  show sz: "bl_size k' = int (length ?d)" using k'(1) n(3) by (simp add: same_block_def)
  have l: "length ?d < 2147483648" using n(3,5) by simp
  have rc: "rc = int (length out)" using codec.comp_returns [OF c l co(1,2)] .
  with co n(3) show "length (bl_cbuffer k') \<le> length ?d" by simp
  with l rc co show "cbuffer_ok k'" by (simp add: cbuffer_ok_def)
  show "decomp (bl_cbuffer k') (bl_size k') = (bl_size k', ?d)"
    using codec.comp_decomp [OF c l co(1,2)] co(5) sz by simp
qed

lemma compress_blocks_ok:
  assumes env: "heap_ok (e_alloc env)" "\<forall>b. e_thread env b"
    and j: "0 < o_njobs opt" "unat (o_njobs opt) \<le> MAX_JOBS"
    and s: "block_size_ok s k" "buffer_ok eb" "uint (sb_blocks s) = block_count k (buffer_contents eb)"
      "length (buffer_contents eb) < 2 ^ 31"
    and c: "codec (compressor_compress c) decomp"
    and sh: "\<forall>b. int b < block_count k (buffer_contents eb) \<longrightarrow> shrinks c (block_bytes k (buffer_contents eb) b)"
  shows "\<exists>ks cb. compress_blocks env opt c s eb = Ok (ks, cb) \<and> buffer_ok cb \<and>
    stored_blocks_ok decomp k (buffer_contents eb) (buffer_contents cb) ks"
proof -
  let ?e = "buffer_contents eb" and ?n = "unat (sb_blocks s)"
  let ?ks = "map (new_block s eb) [0..<?n]"
  have n: "int ?n = block_count k ?e" using s(3) by simp
  have b: "int b < block_count k ?e" if "b < ?n" for b using that n by linarith
  have z: "\<forall>k \<in> set ?ks. bl_status k = 0" "\<forall>k \<in> set ?ks. block_fits ?e k"
    using new_block_ok(1,6) [OF s(1,2)] b by auto
  have "all_compress c ?e ?ks"
    unfolding all_compress_def
  proof (clarsimp)
    fix i assume i: "i < ?n"
    note nb = new_block_ok [OF s(1,2) b [OF i]]
    obtain rc out where co: "compressor_compress c (block_bytes k ?e i) (bl_size (new_block s eb i) * 2) = (rc, out)"
      "0 \<le> rc" "rc \<le> bl_size (new_block s eb i)"
      using sh b [OF i] nb(3) by (auto simp: shrinks_def)
    moreover have "int (length out) \<le> bl_size (new_block s eb i) * 2"
      using codec.comp_fits [OF c _ co(1)] nb(4) by simp
    ultimately show "\<exists>rc out. compressor_compress c (block_input ?e (new_block s eb i))
        (bl_size (new_block s eb i) * 2) = (rc, out) \<and> 0 \<le> rc \<and> rc \<le> bl_size (new_block s eb i) \<and>
        int (length out) \<le> bl_size (new_block s eb i) * 2"
      by (simp add: nb(2))
  qed
  moreover have "0 < unat (o_njobs opt)" using j(1) by (simp add: unat_gt_0)
  ultimately obtain ks where ks: "run_jobs c ?e (e_sched env) (unat (o_njobs opt)) ?ks = Ok ks"
    "\<forall>k \<in> set ks. bl_status k = 2"
    using run_jobs_total [OF z, of c "unat (o_njobs opt)" "e_sched env"] by blast
  have l2: "list_all2 (\<lambda>k k'. same_block k k' \<and> compressed c ?e k k') ?ks ks"
    using run_jobs_compressed [OF ks(1) z ks(2)] .
  have len: "length ks = ?n" using l2 by (simp add: list_all2_lengthD [symmetric])
  have nth: "same_block (new_block s eb i) (ks ! i)" "compressed c ?e (new_block s eb i) (ks ! i)" if "i < ?n" for i
    using l2 that by (auto simp: list_all2_conv_all_nth)
  note cb = compressed_block [OF c s(1,2) b nth]
  have ok: "\<forall>k \<in> set ks. cbuffer_ok k \<and> bl_status k = 2"
    using cb(1) ks(2) len by (auto simp: in_set_conv_nth)
  have "length (concat (map bl_cbuffer ks)) \<le> length (concat (map (block_bytes k ?e) [0..<?n]))"
    unfolding length_concat map_map
    by (rule sum_list_mono2) (use cb(3) len in auto)
  then have tot: "length (concat (map bl_cbuffer ks)) \<le> length ?e" by (simp add: concat_blocks)
  then obtain cb' where st: "store_blocks (e_alloc env) ks = Ok (stored 0 ks, cb')" "buffer_ok cb'"
    "buffer_contents cb' = concat (map bl_cbuffer ks)"
    using store_blocks_ok [OF env(1) ok] s(4) by auto
  have "compress_blocks env opt c s eb = Ok (stored 0 ks, cb')"
    using new_blocks_ok [OF env(1) s(1,2,3)] start_jobs_ok [OF env(2) j(2)] ks(1) st(1)
    by (simp add: compress_blocks_def)
  moreover have "stored_blocks_ok decomp k ?e (buffer_contents cb') (stored 0 ks)"
    unfolding stored_blocks_ok_def st(3)
  proof (intro conjI allI impI)
    fix i assume "i < length (stored 0 ks)"
    then have i: "i < ?n" "i < length ks" using len by simp_all
    have o: "stored 0 ks ! i = (ks ! i)\<lparr>bl_offset := int (length (concat (map bl_cbuffer (take i ks))))\<rparr>"
      using nth_stored [of ks i 0] ok i by auto
    have sl: "take (length (bl_cbuffer (ks ! i))) (drop (length (concat (map bl_cbuffer (take i ks))))
        (concat (map bl_cbuffer ks))) = bl_cbuffer (ks ! i)"
      using slice_concat [of i "map bl_cbuffer ks"] i by (simp add: take_map)
    moreover have "length (concat (map bl_cbuffer (take i ks))) + length (bl_cbuffer (ks ! i)) \<le>
        length (concat (map bl_cbuffer ks))"
      using arg_cong [OF id_take_nth_drop [OF i(2)], of "\<lambda>ks. length (concat (map bl_cbuffer ks))"] by simp
    ultimately show "stored_block_ok decomp k ?e (concat (map bl_cbuffer ks)) i (stored 0 ks ! i)"
      using cb [OF i(1) i(1) i(1)] o by (auto simp: stored_block_ok_def cbuffer_ok_def)
  qed (use len n tot in simp_all)
  ultimately show ?thesis using st(2) by blast
qed

section \<open>Maxima\<close>

lemma fold_max_ge: "a \<le> fold (\<lambda>x m. max m (f x)) xs (a :: int)"
  by (induction xs arbitrary: a) (auto intro: order_trans [OF max.cobounded1])

lemma fold_max_member: "x \<in> set xs \<Longrightarrow> f x \<le> fold (\<lambda>x m. max m (f x)) xs (a :: int)"
  by (induction xs arbitrary: a) (auto intro: order_trans [OF max.cobounded2 fold_max_ge])

lemma fold_max_less: "(a :: int) < m \<Longrightarrow> \<forall>x \<in> set xs. f x < m \<Longrightarrow> fold (\<lambda>x m. max m (f x)) xs a < m"
  by (induction xs arbitrary: a) auto

lemma fold_min_le: "fold (\<lambda>x m. min m (f x)) xs (a :: int) \<le> a"
  by (induction xs arbitrary: a) (auto intro: order_trans [OF _ min.cobounded1])

lemma fold_min_member: "x \<in> set xs \<Longrightarrow> fold (\<lambda>x m. min m (f x)) xs (a :: int) \<le> f x"
  by (induction xs arbitrary: a) (auto intro: order_trans [OF fold_min_le min.cobounded2])

lemma fold_min_ge: "m \<le> (a :: int) \<Longrightarrow> \<forall>x \<in> set xs. m \<le> f x \<Longrightarrow> m \<le> fold (\<lambda>x m. min m (f x)) xs a"
  by (induction xs arbitrary: a) auto

text \<open>A field whose width was chosen for a maximum keeps every value up to it.\<close>

lemma blog_width_word:
  assumes "m < 2 ^ 32"
  shows "uint (to_u32 (blog m)) = blog m" and "sint (to_u32 (blog m)) = blog m" and "blog m \<le> 32"
    and "0 \<le> blog m"
  using blog_le_32 [OF assms] by simp_all

lemma field_exact:
  assumes "0 \<le> v" and "v \<le> m" and "m < 2 ^ 32"
  shows "field_value (sint (to_u32 (blog m)), to_u32 v) = to_u32 v"
  using blog_fits [OF assms] blog_width_word [OF assms(3)] by (simp add: field_value_def)

section \<open>The block table\<close>

definition block_widths_ok :: "super_block \<Rightarrow> bool" where
  "block_widths_ok s \<longleftrightarrow> uint (kb_offset (sb_kbits s)) \<le> 32 \<and>
     uint (kb_compressed_size (sb_kbits s)) \<le> 32 \<and> uint (kb_size (sb_kbits s)) \<le> 32"

text \<open>The fields of the blocks are wide enough, and the minimum is recorded.\<close>

definition block_fields_exact :: "super_block \<Rightarrow> block list \<Rightarrow> bool" where
  "block_fields_exact s ks \<longleftrightarrow> block_widths_ok s \<and> ks \<noteq> [] \<and>
     uint (min_compressed_size (sb_min s)) = min_compressed ks \<and>
     (\<forall>k \<in> set ks. map field_value (block_fields s (min_compressed ks) k) =
        [to_u32 (bl_offset k), to_u32 (bl_compressed_size k - min_compressed ks)] \<and>
        min_compressed ks \<le> bl_compressed_size k) \<and>
     field_value (sint (kb_size (sb_kbits s)), to_u32 (bl_size (last ks))) = to_u32 (bl_size (last ks))"

lemma stored_block_range:
  assumes "stored_blocks_ok decomp k entry data ks" and "length entry < 2 ^ 31" and "x \<in> set ks"
  shows "0 \<le> bl_offset x" "bl_offset x < 2 ^ 31" "0 \<le> bl_compressed_size x" "bl_compressed_size x < 2 ^ 31"
    "0 \<le> bl_size x" "bl_size x < 2 ^ 31"
proof -
  obtain i where "i < length ks" "x = ks ! i" using assms(3) by (auto simp: in_set_conv_nth)
  then have x: "stored_block_ok decomp k entry data i x" "length data \<le> length entry"
    using assms(1) by (auto simp: stored_blocks_ok_def)
  have "length (block_bytes k entry i) \<le> length entry" by (simp add: block_bytes_def)
  with x assms(2) show "0 \<le> bl_offset x" "bl_offset x < 2 ^ 31" "0 \<le> bl_compressed_size x"
    "bl_compressed_size x < 2 ^ 31" "0 \<le> bl_size x" "bl_size x < 2 ^ 31"
    by (auto simp: stored_block_ok_def)
qed

lemma super_3_ok:
  assumes st: "stored_blocks_ok decomp k entry data ks" and l: "length entry < 2 ^ 31" and ne: "ks \<noteq> []"
  shows "\<exists>kb mc. super_3 ks s = Ok (s\<lparr>sb_kbits := kb, sb_min := (sb_min s)\<lparr>min_compressed_size := mc\<rparr>\<rparr>) \<and>
    block_fields_exact (s\<lparr>sb_kbits := kb, sb_min := (sb_min s)\<lparr>min_compressed_size := mc\<rparr>\<rparr>) ks"
proof -
  note r = stored_block_range [OF st l]
  let ?m = "min_compressed ks"
  let ?o = "fold (\<lambda>k m. max m (bl_offset k)) ks (-1)"
  let ?c = "fold (\<lambda>k m. max m (bl_compressed_size k)) ks (-1)"
  let ?l = "max (-1) (bl_size (last ks))"
  have la: "last ks \<in> set ks" using ne by simp
  have m0: "0 \<le> ?m" unfolding min_compressed_def
    by (rule fold_min_ge) (use r in \<open>auto simp: LONG_LONG_MAX_def\<close>)
  have mle: "?m \<le> bl_compressed_size x" if "x \<in> set ks" for x
    unfolding min_compressed_def using that by (rule fold_min_member)
  have m31: "?m < 2 ^ 31" using mle [OF la] r(4) [OF la] by simp
  have o: "?o < 2 ^ 31" "?c < 2 ^ 31" using r by (auto intro!: fold_max_less)
  have ge: "bl_offset x \<le> ?o" "bl_compressed_size x \<le> ?c" if "x \<in> set ks" for x
    using that by (auto intro: fold_max_member)
  have c: "?c - ?m < 2 ^ 32" using o m0 by simp
  have f: "field_value (sint (to_u32 (blog ?o)), to_u32 (bl_offset x)) = to_u32 (bl_offset x)"
    "field_value (sint (to_u32 (blog (?c - ?m))), to_u32 (bl_compressed_size x - ?m)) = to_u32 (bl_compressed_size x - ?m)"
    if "x \<in> set ks" for x
    using ge [OF that] r [OF that] mle [OF that] o c by (intro field_exact; simp)+
  have z: "field_value (sint (to_u32 (blog ?l)), to_u32 (bl_size (last ks))) = to_u32 (bl_size (last ks))"
    using r [OF la] by (intro field_exact) auto
  have w: "uint (to_u32 (blog ?o)) \<le> 32" "uint (to_u32 (blog (?c - ?m))) \<le> 32" "uint (to_u32 (blog ?l)) \<le> 32"
    using blog_width_word [of ?o] blog_width_word [of "?c - ?m"] blog_width_word [of ?l] o c r(6) [OF la]
    by (simp_all add: max_def)
  show ?thesis
    using ne f z w m0 m31 mle
    by (intro exI conjI)
      (auto simp: super_3_def Let_def block_fields_exact_def block_widths_ok_def block_fields_def)
qed

lemma width_sum_concat:
  "(\<And>x. x \<in> set xs \<Longrightarrow> width_sum (f x) = w) \<Longrightarrow> width_sum (concat (map f xs)) = length xs * w"
  by (induction xs) auto

lemma widths_ok_concat: "widths_ok (concat (map f xs)) \<longleftrightarrow> (\<forall>x \<in> set xs. widths_ok (f x))"
  by (induction xs) auto

lemma block_table_ok:
  assumes "block_fields_exact s ks" and "int (length ks) = uint (sb_blocks s)" and "length ks \<le> 2 ^ 20"
  shows "widths_ok (block_table_fields s ks)" and "0 \<le> block_table_size s" and "block_table_size s < 2 ^ 28"
    and "int (width_sum (block_table_fields s ks)) \<le> 8 * block_table_size s"
proof -
  let ?o = "uint (kb_offset (sb_kbits s))" and ?c = "uint (kb_compressed_size (sb_kbits s))"
    and ?z = "uint (kb_size (sb_kbits s))"
  have w: "?o \<le> 32" "?c \<le> 32" "?z \<le> 32"
    using assms(1) by (simp_all add: block_fields_exact_def block_widths_ok_def)
  then show "widths_ok (block_table_fields s ks)"
    by (simp add: block_table_fields_def widths_ok_concat block_fields_def width_sint)
  have "width_sum (block_fields s m k) = nat ?o + nat ?c" for m k
    using w by (simp add: block_fields_def width_sint)
  then have sum: "int (width_sum (block_table_fields s ks)) = (?o + ?c) * uint (sb_blocks s) + ?z"
    using w assms(2)
    by (simp add: block_table_fields_def width_sum_concat width_sint distrib_left distrib_right mult.commute)
  have "(?o + ?c) * uint (sb_blocks s) \<le> 64 * 2 ^ 20"
    using w assms(2,3) by (intro mult_mono) auto
  then show "block_table_size s < 2 ^ 28"
    using bytes_of_bits_bounds(2) [of "(?o + ?c) * uint (sb_blocks s) + ?z"] w
    by (simp add: block_table_size_def)
  show "0 \<le> block_table_size s"
    by (simp add: block_table_size_def bytes_of_bits_nonneg)
  show "int (width_sum (block_table_fields s ks)) \<le> 8 * block_table_size s"
    using bytes_of_bits_bounds(1) [of "(?o + ?c) * uint (sb_blocks s) + ?z"] sum
    by (simp add: block_table_size_def)
qed

section \<open>The inode table\<close>

definition inode_widths_ok :: "super_block \<Rightarrow> bool" where
  "inode_widths_ok s \<longleftrightarrow> (\<forall>w \<in> set (ibits_widths (sb_ibits s)). uint w \<le> 32)"

lemma inode_widths_entry: "inode_widths_ok s \<Longrightarrow> entry_widths_ok s"
  by (simp add: inode_widths_ok_def entry_widths_ok_def ibits_widths_def)

lemma inode_fields_width:
  assumes "inode_widths_ok s"
  shows "widths_ok (inode_fields s n)" and "int (width_sum (inode_fields s n)) = max_inode_size (sb_ibits s)"
    and "max_inode_size (sb_ibits s) \<le> 352" and "0 \<le> max_inode_size (sb_ibits s)"
proof -
  have w: "uint (ib_type (sb_ibits s)) \<le> 32" "uint (ib_owner_mode (sb_ibits s)) \<le> 32"
    "uint (ib_group_mode (sb_ibits s)) \<le> 32" "uint (ib_other_mode (sb_ibits s)) \<le> 32"
    "uint (ib_uid (sb_ibits s)) \<le> 32" "uint (ib_gid (sb_ibits s)) \<le> 32"
    "uint (ib_ctime (sb_ibits s)) \<le> 32" "uint (ib_mtime (sb_ibits s)) \<le> 32"
    "uint (ib_size (sb_ibits s)) \<le> 32" "uint (ib_block (sb_ibits s)) \<le> 32" "uint (ib_index (sb_ibits s)) \<le> 32"
    using assms by (simp_all add: inode_widths_ok_def ibits_widths_def)
  then show "widths_ok (inode_fields s n)" by (simp add: inode_fields_def Let_def width_sint)
  show "int (width_sum (inode_fields s n)) = max_inode_size (sb_ibits s)"
    using w by (simp add: inode_fields_def Let_def max_inode_size_def width_sint)
  show "max_inode_size (sb_ibits s) \<le> 352" "0 \<le> max_inode_size (sb_ibits s)"
    using w by (simp_all add: max_inode_size_def)
qed

lemma inode_table_fields_ok:
  assumes "inode_widths_ok s" and "int (length ns) = uint (sb_inodes s)" and "length ns < 2 ^ 22"
  shows "widths_ok (concat (map (inode_fields s) ns))" and "0 \<le> inode_table_size s"
    and "inode_table_size s < 2 ^ 28"
    and "int (width_sum (concat (map (inode_fields s) ns))) \<le> 8 * inode_table_size s"
proof -
  note f = inode_fields_width [OF assms(1)]
  let ?b = "uint (sb_inodes s) * max_inode_size (sb_ibits s)"
  show "widths_ok (concat (map (inode_fields s) ns))" using f(1) by (simp add: widths_ok_concat)
  have "width_sum (inode_fields s n) = nat (max_inode_size (sb_ibits s))" for n
    using f(2) [of n] by linarith
  then have "int (width_sum (concat (map (inode_fields s) ns))) = ?b"
    using f(4) assms(2) by (simp add: width_sum_concat)
  then show "int (width_sum (concat (map (inode_fields s) ns))) \<le> 8 * inode_table_size s"
    using bytes_of_bits_bounds(1) [of ?b] by (simp add: inode_table_size_def)
  show "0 \<le> inode_table_size s"
    using f(4) by (simp add: inode_table_size_def bytes_of_bits_nonneg)
  have "?b \<le> 2 ^ 22 * 352" using assms(2,3) f(3,4) by (intro mult_mono) auto
  then show "inode_table_size s < 2 ^ 28"
    using bytes_of_bits_bounds(2) [of ?b] by (simp add: inode_table_size_def)
qed

lemma inode_table_bound:
  assumes "inode_widths_ok s" and "int (length ns) = uint (sb_inodes s)" and "length ns < 2 ^ 22"
  shows "inode_table_size s \<le> 44 * int (length ns)"
proof -
  have "uint (sb_inodes s) * max_inode_size (sb_ibits s) \<le> uint (sb_inodes s) * 352"
    using inode_fields_width(3) [OF assms(1)] by (intro mult_left_mono) auto
  then show ?thesis
    using assms(2) bytes_of_bits_bounds(2) [of "uint (sb_inodes s) * max_inode_size (sb_ibits s)"]
    by (simp add: inode_table_size_def)
qed

lemma block_table_bound:
  assumes "block_fields_exact s ks" and "int (length ks) = uint (sb_blocks s)" and "length ks \<le> 2 ^ 20"
  shows "block_table_size s \<le> 8 * uint (sb_blocks s) + 5"
proof -
  let ?o = "uint (kb_offset (sb_kbits s))" and ?c = "uint (kb_compressed_size (sb_kbits s))"
    and ?z = "uint (kb_size (sb_kbits s))"
  have w: "?o \<le> 32" "?c \<le> 32" "?z \<le> 32"
    using assms(1) by (simp_all add: block_fields_exact_def block_widths_ok_def)
  then have "(?o + ?c) * uint (sb_blocks s) \<le> 64 * uint (sb_blocks s)" by (intro mult_right_mono) auto
  then show ?thesis
    using bytes_of_bits_bounds(2) [of "(?o + ?c) * uint (sb_blocks s) + ?z"] w
    by (simp add: block_table_size_def)
qed

lemma compress_inodes_ok:
  assumes h: "heap_ok alloc" and ib: "buffer_ok ib" "buffer_contents ib = itab"
    and sz: "int (length itab) = sz" "sz < 2 ^ 28"
    and c: "codec (compressor_compress c) decomp" and sh: "shrinks c itab"
  shows "\<exists>icb. compress_inodes alloc c sz ib = Ok icb \<and> buffer_ok icb \<and>
    length (buffer_contents icb) < 2 ^ 28 \<and>
    decomp (buffer_contents icb) sz = (sz, itab) \<and> int (length (buffer_contents icb)) \<le> sz"
proof -
  obtain rc out where co: "compressor_compress c itab (sz * 2) = (rc, out)" "0 \<le> rc" "rc \<le> sz"
    using sh sz(1) by (auto simp: shrinks_def)
  have l: "length itab < 2147483648" using sz by simp
  have rc: "rc = int (length out)" using codec.comp_returns [OF c l co(1,2)] .
  have d: "decomp out sz = (sz, itab)" using codec.comp_decomp [OF c l co(1,2)] sz(1) by simp
  have "length itab = bf_length ib"
    using ib length_buffer_contents [of ib] by (simp add: buffer_ok_def)
  then have "take (nat sz) (buffer_buffer ib) = itab" "length itab \<le> length (buffer_buffer ib)"
    using ib sz(1) buffer_buffer_prefix [of ib]
    by (auto simp: buffer_ok_def buffer_wf_def buffer_buffer_def)
  then have m: "mem_slice (buffer_buffer ib) 0 (as_u32 sz) = Ok itab"
    using sz by simp
  have r: "rc < 2 ^ 31" "rc \<le> int (length out)" "int (length (buffer_contents buffer_init)) + rc < 2 ^ 60"
    using co sz rc by simp_all
  obtain icb where icb: "add_bytes alloc out rc buffer_init = Ok (rc, icb)" "buffer_ok icb"
    "buffer_contents icb = out"
    using add_bytes_ok [OF buffer_ok_init h co(2) r] rc by auto
  have "compress_inodes alloc c sz ib = Ok icb"
    using h m co icb(1) sz rc by (simp add: compress_inodes_def)
  with icb d co(3) rc sz(2) show ?thesis by auto
qed

section \<open>The file\<close>

lemma write_buffer_ok:
  assumes "e_write env i" and "buffer_ok b"
  shows "write_buffer env i b file = Ok (file @ buffer_contents b)"
proof -
  have "mem_slice (buffer_buffer b) 0 (buffer_length b) = Ok (buffer_contents b)"
    using assms(2) buffer_buffer_prefix [of b]
    by (auto simp: buffer_length_def buffer_buffer_def buffer_ok_def buffer_wf_def)
  with assms(1) show ?thesis by (simp add: write_buffer_def write_part_def)
qed

definition padding :: "options \<Rightarrow> nat \<Rightarrow> memory" where
  "padding opt n = (if o_no_padding opt \<or> n mod 4096 = 0 then [] else replicate (4096 - n mod 4096) 0)"

lemma write_padding_ok:
  assumes "e_write env 4"
  shows "write_padding env opt file = Ok (file @ padding opt (length file))"
proof -
  have "int (length file) AND 4095 = int (length file mod 4096)"
    using and_pow2_minus_1 [of "int (length file)" 12] by (simp add: zmod_int)
  moreover have "nat (4096 - int (length file mod 4096)) = 4096 - length file mod 4096"
    by (simp add: nat_diff_distrib')
  moreover have "length file mod 4096 < 4096" by simp
  then have "0 \<le> 4096 - int (length file mod 4096)" "4096 - int (length file mod 4096) \<le> 4096" by linarith+
  ultimately show ?thesis
    using assms by (simp add: write_padding_def Let_def write_part_def padding_def)
qed

lemma write_image_ok:
  assumes h: "heap_ok (e_alloc env)" and o: "e_open env" "\<forall>i. e_write env i"
    and b: "buffer_ok icb" "buffer_ok bb" "buffer_ok ecb"
  shows "\<exists>pad. write_image env opt s icb bb ecb =
      Ok (super_bytes s @ buffer_contents icb @ buffer_contents bb @ buffer_contents ecb @ pad) \<and>
    pad = padding opt (length (super_bytes s @ buffer_contents icb @ buffer_contents bb @ buffer_contents ecb))"
proof -
  obtain sb where sb: "add_bytes (e_alloc env) (super_bytes s) sizeof_super buffer_init = Ok (sizeof_super, sb)"
    "buffer_ok sb" "buffer_contents sb = super_bytes s"
    using add_bytes_ok [OF buffer_ok_init h, of sizeof_super "super_bytes s"] by (auto simp: sizeof_super_def)
  show ?thesis
    using o b sb by (simp add: write_image_def write_buffer_ok write_padding_ok add.assoc)
qed

text \<open>How the parts of an image lie in the file.\<close>

definition layout_ok :: "super_block \<Rightarrow> memory \<Rightarrow> memory \<Rightarrow> memory \<Rightarrow> memory \<Rightarrow> bool" where
  "layout_ok s img icb btab ecb \<longleftrightarrow>
     (\<exists>pad. img = super_bytes s @ icb @ btab @ ecb @ pad) \<and>
     uint (sb_inodes_offset s) = sizeof_super \<and>
     uint (sb_inodes_csize s) = int (length icb) \<and>
     uint (sb_blocks_offset s) = sizeof_super + int (length icb) \<and>
     uint (sb_blocks_size s) = int (length btab) \<and>
     uint (sb_entries_offset s) = sizeof_super + int (length icb) + int (length btab) \<and>
     uint (sb_entries_size s) = int (length ecb)"

lemma super_4_ok:
  assumes b: "buffer_ok ib" "buffer_ok icb" "buffer_ok bb" "buffer_ok ecb"
    and l: "length (buffer_contents icb) < 2 ^ 29" "length (buffer_contents bb) < 2 ^ 29"
      "length (buffer_contents ecb) < 2 ^ 31" "length (buffer_contents ib) < 2 ^ 29"
    and img: "img = super_bytes (super_4 ib icb bb ecb s) @ buffer_contents icb @ buffer_contents bb @
      buffer_contents ecb @ pad"
  shows "layout_ok (super_4 ib icb bb ecb s) img (buffer_contents icb) (buffer_contents bb) (buffer_contents ecb)"
    and "uint (sb_inodes_size (super_4 ib icb bb ecb s)) = int (length (buffer_contents ib))"
proof -
  have a: "uint (to_u32 x + to_u32 y) = x + y" if "0 \<le> x" "0 \<le> y" "x + y < 2 ^ 32" for x y
    using uint_to_u32_id [of "x + y"] that by simp
  have *: "uint (152 + to_u32 x) = 152 + x" if "0 \<le> x" "x < 2 ^ 30" for x
    using a [of 152 x] that by simp
  have **: "uint (152 + to_u32 x + to_u32 y) = 152 + x + y" if "0 \<le> x" "x < 2 ^ 30" "0 \<le> y" "y < 2 ^ 30" for x y
    using a [of "152 + x" y] that by simp
  have n: "to_u32 (int k) = of_nat k" for k by simp
  show "layout_ok (super_4 ib icb bb ecb s) img (buffer_contents icb) (buffer_contents bb) (buffer_contents ecb)"
    using b l * [of "int (length (buffer_contents icb))"]
      ** [of "int (length (buffer_contents icb))" "int (length (buffer_contents bb))"]
      uint_to_u32_id [of "int (length (buffer_contents icb))"] uint_to_u32_id [of "int (length (buffer_contents bb))"]
      uint_to_u32_id [of "int (length (buffer_contents ecb))"]
    unfolding layout_ok_def img
    by (auto simp: super_4_def Let_def sizeof_super_def buffer_ok_length)
  show "uint (sb_inodes_size (super_4 ib icb bb ecb s)) = int (length (buffer_contents ib))"
    using b(1) l(4) uint_to_u32_id [of "int (length (buffer_contents ib))"]
    by (simp add: super_4_def Let_def buffer_ok_length)
qed

end
