(* ===== verification/Mkfs_Correct.thy ===== *)
theory Mkfs_Correct
  imports Mkfs_Image
begin

text \<open>
  The correctness of \<open>output_write\<close>: for a node table whose contents fit, a system that
  provides what is asked for and a compression method that shrinks the blocks, it returns
  an image from which everything the nodes carry can be got back (\<open>image_ok\<close>).
\<close>

unbundle bit_operations_syntax

section \<open>The widths of the inode table\<close>

definition maxima_list :: "maxima \<Rightarrow> int list" where
  "maxima_list x = [x_type x, x_owner_mode x, x_group_mode x, x_other_mode x, x_uid x, x_gid x,
     x_ctime x, x_mtime x, x_parent x, x_nentries x, x_entry_number x, x_entry_length x,
     x_entry_type x]"

definition maxima_le :: "maxima \<Rightarrow> maxima \<Rightarrow> bool" where
  "maxima_le x y \<longleftrightarrow> list_all2 (\<le>) (maxima_list x) (maxima_list y)"

definition maxima_range :: "maxima \<Rightarrow> bool" where
  "maxima_range x \<longleftrightarrow> (\<forall>v \<in> set (maxima_list x). v < 2 ^ 32)"

definition entry_below :: "dentry \<Rightarrow> maxima \<Rightarrow> bool" where
  "entry_below e x \<longleftrightarrow> de_number e \<le> x_entry_number x \<and> de_length e \<le> x_entry_length x \<and>
     de_type e \<le> x_entry_type x"

definition payload_below :: "payload \<Rightarrow> maxima \<Rightarrow> bool" where
  "payload_below p x \<longleftrightarrow> (case p of
       Directory_payload parent es \<Rightarrow> parent \<le> x_parent x \<and> int (length es) \<le> x_nentries x \<and>
         (\<forall>e \<in> set es. entry_below e x)
     | _ \<Rightarrow> True)"

definition node_below :: "mnode \<Rightarrow> maxima \<Rightarrow> bool" where
  "node_below n x \<longleftrightarrow> n_type n \<le> x_type x \<and> n_owner_mode n \<le> x_owner_mode x \<and>
     n_group_mode n \<le> x_group_mode x \<and> n_other_mode n \<le> x_other_mode x \<and> n_uid n \<le> x_uid x \<and>
     n_gid n \<le> x_gid x \<and> n_ctime n \<le> x_ctime x \<and> n_mtime n \<le> x_mtime x \<and>
     payload_below (n_payload n) x"

lemma maxima_le_refl [simp]: "maxima_le x x"
  by (simp add: maxima_le_def maxima_list_def)

lemma maxima_le_trans: "maxima_le x y \<Longrightarrow> maxima_le y z \<Longrightarrow> maxima_le x z"
  by (auto simp: maxima_le_def maxima_list_def)

lemma entry_below_mono: "entry_below e x \<Longrightarrow> maxima_le x y \<Longrightarrow> entry_below e y"
  by (auto simp: entry_below_def maxima_le_def maxima_list_def)

lemma payload_below_mono: "payload_below p x \<Longrightarrow> maxima_le x y \<Longrightarrow> payload_below p y"
  using entry_below_mono [of _ x y]
  by (auto simp: payload_below_def maxima_le_def maxima_list_def split: payload.splits)

lemma node_below_mono: "node_below n x \<Longrightarrow> maxima_le x y \<Longrightarrow> node_below n y"
  using payload_below_mono [of "n_payload n" x y]
  by (auto simp: node_below_def maxima_le_def maxima_list_def)

lemma maxima_entry_ok:
  assumes "dentry_ok e" and "maxima_range x"
  shows "maxima_le x (maxima_entry e x)" and "entry_below e (maxima_entry e x)"
    and "maxima_range (maxima_entry e x)"
  using assms
  by (auto simp: maxima_le_def maxima_list_def maxima_entry_def entry_below_def maxima_range_def
      dentry_ok_def u32_range_def)

lemma maxima_entries_ok:
  assumes "\<forall>e \<in> set es. dentry_ok e" and "maxima_range x"
  shows "maxima_le x (fold maxima_entry es x) \<and> maxima_range (fold maxima_entry es x) \<and>
    (\<forall>e \<in> set es. entry_below e (fold maxima_entry es x))"
  using assms
proof (induction es arbitrary: x)
  case (Cons e es)
  then have e: "maxima_le x (maxima_entry e x)" "entry_below e (maxima_entry e x)"
    "maxima_range (maxima_entry e x)"
    using maxima_entry_ok [of e x] by simp_all
  with Cons.IH [of "maxima_entry e x"] Cons.prems show ?case
    by (auto intro: maxima_le_trans entry_below_mono)
qed simp

lemma fold_maxima_entry_min [simp]:
  "x_min_ctime (fold maxima_entry es x) = x_min_ctime x"
  "x_min_mtime (fold maxima_entry es x) = x_min_mtime x"
  "x_ctime (fold maxima_entry es x) = x_ctime x" "x_mtime (fold maxima_entry es x) = x_mtime x"
  by (induction es arbitrary: x) (simp_all add: maxima_entry_def)

lemma maxima_node_ok:
  assumes n: "node_ok n" and x: "maxima_range x"
  shows "\<exists>y. maxima_node n x = Ok y \<and> maxima_le x y \<and> maxima_range y \<and> node_below n y \<and>
    x_ctime y = max (x_ctime x) (n_ctime n) \<and> x_mtime y = max (x_mtime x) (n_mtime n) \<and>
    x_min_ctime y = min (x_ctime y) (x_min_ctime x) \<and> x_min_mtime y = min (x_mtime y) (x_min_mtime x)"
proof -
  have p: "payload_ok n" using n by (simp add: node_ok_def)
  show ?thesis
    using p
  proof (cases rule: payload_ok_cases)
    case (2 p es)
    define x' where "x' = x\<lparr>x_type := max (x_type x) (n_type n),
                x_owner_mode := max (x_owner_mode x) (n_owner_mode n),
                x_group_mode := max (x_group_mode x) (n_group_mode n),
                x_other_mode := max (x_other_mode x) (n_other_mode n),
                x_uid := max (x_uid x) (n_uid n), x_gid := max (x_gid x) (n_gid n),
                x_ctime := max (x_ctime x) (n_ctime n), x_mtime := max (x_mtime x) (n_mtime n),
                x_min_ctime := min (max (x_ctime x) (n_ctime n)) (x_min_ctime x),
                x_min_mtime := min (max (x_mtime x) (n_mtime n)) (x_min_mtime x),
                x_parent := max (x_parent x) p, x_nentries := max (x_nentries x) (int (length es))\<rparr>"
    have r: "maxima_le x x'" "maxima_range x'" "node_below (n\<lparr>n_payload := No_payload\<rparr>) x'"
      "p \<le> x_parent x'" "int (length es) \<le> x_nentries x'"
      using n x 2 by (auto simp: x'_def maxima_le_def maxima_list_def maxima_range_def node_below_def
          node_ok_def u32_range_def payload_below_def)
    have f: "maxima_le x' (fold maxima_entry es x')" "maxima_range (fold maxima_entry es x')"
      "\<forall>e \<in> set es. entry_below e (fold maxima_entry es x')"
      using maxima_entries_ok [OF 2(5) r(2)] by auto
    have "node_below (n\<lparr>n_payload := No_payload\<rparr>) (fold maxima_entry es x')"
      using r(3) f(1) by (rule node_below_mono)
    moreover have "payload_below (n_payload n) (fold maxima_entry es x')"
      using f r(4,5) 2 by (auto simp: payload_below_def maxima_le_def maxima_list_def)
    ultimately have "node_below n (fold maxima_entry es x')" by (simp add: node_below_def)
    moreover have "maxima_node n x = Ok (fold maxima_entry es x')"
      using 2 by (simp add: maxima_node_def x'_def Let_def)
    ultimately show ?thesis
      using f r(1) by (intro exI [of _ "fold maxima_entry es x'"]) (auto simp: x'_def intro: maxima_le_trans)
  qed (use n x in \<open>auto simp: maxima_node_def maxima_le_def maxima_list_def maxima_range_def
      node_below_def node_ok_def u32_range_def payload_below_def Let_def\<close>)
qed

lemma maxima_run:
  assumes "\<forall>n \<in> set ns. node_ok n" and "maxima_range x"
  shows "\<exists>y. rfold maxima_node ns x = Ok y \<and> maxima_le x y \<and> maxima_range y \<and>
    (\<forall>n \<in> set ns. node_below n y) \<and>
    (\<forall>v. x_min_ctime x = v \<and> v \<le> x_ctime x \<longrightarrow> x_min_ctime y = v) \<and>
    (\<forall>v. x_min_mtime x = v \<and> v \<le> x_mtime x \<longrightarrow> x_min_mtime y = v)"
  using assms
proof (induction ns arbitrary: x)
  case (Cons n ns)
  have n: "node_ok n" using Cons.prems(1) by simp
  obtain y where y: "maxima_node n x = Ok y" "maxima_le x y" "maxima_range y" "node_below n y"
    "x_ctime y = max (x_ctime x) (n_ctime n)" "x_mtime y = max (x_mtime x) (n_mtime n)"
    "x_min_ctime y = min (x_ctime y) (x_min_ctime x)" "x_min_mtime y = min (x_mtime y) (x_min_mtime x)"
    using maxima_node_ok [OF n Cons.prems(2)] by blast
  obtain z where z: "rfold maxima_node ns y = Ok z" "maxima_le y z" "maxima_range z"
    "\<forall>n \<in> set ns. node_below n z"
    "\<forall>v. x_min_ctime y = v \<and> v \<le> x_ctime y \<longrightarrow> x_min_ctime z = v"
    "\<forall>v. x_min_mtime y = v \<and> v \<le> x_mtime y \<longrightarrow> x_min_mtime z = v"
    using Cons.IH [OF _ y(3)] Cons.prems(1) by auto
  have "x_min_ctime z = v" if "x_min_ctime x = v" "v \<le> x_ctime x" for v
    using that y(5,7) z(5) by auto
  moreover have "x_min_mtime z = v" if "x_min_mtime x = v" "v \<le> x_mtime x" for v
    using that y(6,8) z(6) by auto
  ultimately show ?case
    using y(1) z(1,3,4) maxima_le_trans [OF y(2) z(2)] node_below_mono [OF y(4) z(2)] by auto
qed simp

lemma maxima_range_init [simp]: "maxima_range maxima_init"
  by (simp add: maxima_range_def maxima_list_def maxima_init_def)

text \<open>The recorded minima are the times of the first node of the table.\<close>

lemma maxima_ok:
  assumes "\<forall>n \<in> set ns. node_ok n" and "ns \<noteq> []"
  shows "\<exists>y. rfold maxima_node ns maxima_init = Ok y \<and> maxima_range y \<and>
    (\<forall>n \<in> set ns. node_below n y) \<and> x_min_ctime y = n_ctime (hd ns) \<and> x_min_mtime y = n_mtime (hd ns)"
proof -
  obtain n ms where ns: "ns = n # ms" using assms(2) by (cases ns) auto
  have n: "node_ok n" using assms(1) by (simp add: ns)
  then have t: "0 \<le> n_ctime n" "n_ctime n < 2 ^ 32" "0 \<le> n_mtime n" "n_mtime n < 2 ^ 32"
    by (simp_all add: node_ok_def u32_range_def)
  obtain y where y: "maxima_node n maxima_init = Ok y" "maxima_range y" "node_below n y"
    "x_ctime y = n_ctime n" "x_mtime y = n_mtime n" "x_min_ctime y = n_ctime n" "x_min_mtime y = n_mtime n"
    using maxima_node_ok [OF n maxima_range_init] t by (auto simp: maxima_init_def LONG_LONG_MAX_def)
  obtain z where "rfold maxima_node ms y = Ok z" "maxima_le y z" "maxima_range z"
    "\<forall>n \<in> set ms. node_below n z"
    "\<forall>v. x_min_ctime y = v \<and> v \<le> x_ctime y \<longrightarrow> x_min_ctime z = v"
    "\<forall>v. x_min_mtime y = v \<and> v \<le> x_mtime y \<longrightarrow> x_min_mtime z = v"
    using maxima_run [of ms y] assms(1) y(2) by (auto simp: ns)
  then show ?thesis using y node_below_mono [of n y z] by (auto simp: ns)
qed

section \<open>What the inode table stores\<close>

text \<open>
  The times are stored relative to the recorded minimum; one that is less wraps around and
  is reduced to the width.
\<close>

definition time_view :: "bool \<Rightarrow> u32 \<Rightarrow> int \<Rightarrow> int \<Rightarrow> u32" where
  "time_view off w m t =
     (if off then 0 else if m \<le> t then to_u32 (t - m) else take_bit (unat w) (to_u32 (t - m)))"

definition inode_view :: "options \<Rightarrow> super_block \<Rightarrow> mnode \<Rightarrow> u32 list" where
  "inode_view opt s n =
     [to_u32 (n_type n), to_u32 (n_owner_mode n),
      if o_no_group_mode opt then 0 else to_u32 (n_group_mode n),
      if o_no_other_mode opt then 0 else to_u32 (n_other_mode n),
      if o_no_uid opt then 0 else to_u32 (n_uid n),
      if o_no_gid opt then 0 else to_u32 (n_gid n),
      time_view (o_no_ctime opt) (ib_ctime (sb_ibits s)) (uint (min_ctime (sb_min s))) (n_ctime n),
      time_view (o_no_mtime opt) (ib_mtime (sb_ibits s)) (uint (min_mtime (sb_min s))) (n_mtime n),
      to_u32 (n_size n), to_u32 (n_block n), to_u32 (n_index n)]"

definition payload_exact :: "super_block \<Rightarrow> payload \<Rightarrow> bool" where
  "payload_exact s p \<longleftrightarrow> (case p of
       Directory_payload parent es \<Rightarrow> ib_parent (sb_ibits s) \<noteq> 0 \<and>
         map field_value (directory_fields s parent (int (length es))) = [to_u32 parent, to_u32 (int (length es))] \<and>
         (\<forall>e \<in> set es. map field_value (entry_fields s e) =
            [to_u32 (de_number e), to_u32 (de_length e), to_u32 (de_type e)])
     | _ \<Rightarrow> True)"

text \<open>The first eight fields of an inode, the widths of which \<open>super_1\<close> sets.\<close>

definition attributes_exact :: "options \<Rightarrow> super_block \<Rightarrow> mnode \<Rightarrow> bool" where
  "attributes_exact opt s n \<longleftrightarrow>
     map field_value (take 8 (inode_fields s n)) = take 8 (inode_view opt s n)"

text \<open>An attribute that is not wanted has the width 0, and only such a one.\<close>

definition optional_bits :: "options \<Rightarrow> super_block \<Rightarrow> bool" where
  "optional_bits opt s \<longleftrightarrow>
     (ib_group_mode (sb_ibits s) = 0 \<longleftrightarrow> o_no_group_mode opt) \<and>
     (ib_other_mode (sb_ibits s) = 0 \<longleftrightarrow> o_no_other_mode opt) \<and>
     (ib_uid (sb_ibits s) = 0 \<longleftrightarrow> o_no_uid opt) \<and> (ib_gid (sb_ibits s) = 0 \<longleftrightarrow> o_no_gid opt) \<and>
     (ib_ctime (sb_ibits s) = 0 \<longleftrightarrow> o_no_ctime opt) \<and> (ib_mtime (sb_ibits s) = 0 \<longleftrightarrow> o_no_mtime opt)"

lemma blog_minus_1 [simp]: "blog (-1) = 0"
  by simp

lemma field_disabled: "field_value (0, v) = 0"
  by (simp add: field_value_def)

lemma field_width: "uint (w :: u32) \<le> 32 \<Longrightarrow> field_value (sint w, v) = take_bit (unat w) v"
  by (simp only: field_value_def fst_conv snd_conv width_sint nat_uint)

lemma blog_word_0: "m < 2 ^ 32 \<Longrightarrow> to_u32 (blog m) = 0 \<longleftrightarrow> m < 0"
proof -
  assume m: "m < 2 ^ 32"
  have "to_u32 (blog m) = 0 \<longleftrightarrow> blog m = 0"
    using blog_width_word(1) [OF m] by (metis uint_0_iff)
  also have "\<dots> \<longleftrightarrow> m < 0"
    using blog_spec [of m] m by (cases "m < 0") auto
  finally show ?thesis .
qed

lemma time_field:
  assumes "x < 2 ^ 32" and "0 \<le> m" and "t \<le> x" and "w = to_u32 (blog ((if off then -1 else x) - m))"
  shows "field_value (sint w, to_u32 (t - m)) = time_view off w m t" and "uint w \<le> 32"
    and "m \<le> x \<Longrightarrow> w = 0 \<longleftrightarrow> off"
proof -
  have b: "(if off then -1 else x) - m < 2 ^ 32" using assms(1,2) by simp
  show w: "uint w \<le> 32" using blog_width_word(1,3) [OF b] by (simp add: assms(4))
  show "w = 0 \<longleftrightarrow> off" if "m \<le> x" using blog_word_0 [OF b] that assms(2) by (auto simp: assms(4))
  consider "off" | "\<not> off" "m \<le> t" | "\<not> off" "\<not> m \<le> t" by blast
  then show "field_value (sint w, to_u32 (t - m)) = time_view off w m t"
  proof cases
    case 1
    then show ?thesis using assms(2) by (simp add: assms(4) field_disabled time_view_def)
  next
    case 2
    then show ?thesis
      using field_exact [of "t - m" "x - m"] assms(1-3) by (simp add: assms(4) time_view_def)
  next
    case 3
    then show ?thesis using field_width [OF w] by (simp add: time_view_def)
  qed
qed

text \<open>The widths that \<open>super_1\<close> computes from the maxima, and what they are good for.\<close>

lemma maxima_below:
  assumes "maxima_range x"
  shows "x_type x < 2 ^ 32" "x_owner_mode x < 2 ^ 32" "x_group_mode x < 2 ^ 32" "x_other_mode x < 2 ^ 32"
    "x_uid x < 2 ^ 32" "x_gid x < 2 ^ 32" "x_ctime x < 2 ^ 32" "x_mtime x < 2 ^ 32" "x_parent x < 2 ^ 32"
    "x_nentries x < 2 ^ 32" "x_entry_number x < 2 ^ 32" "x_entry_length x < 2 ^ 32" "x_entry_type x < 2 ^ 32"
  using assms by (simp_all add: maxima_range_def maxima_list_def)

lemma super_1_ibits:
  defines "i \<equiv> \<lambda>opt c ns x s0. sb_ibits (super_1 opt c ns (maxima_disable opt x) s0)"
  shows "ib_type (i opt c ns x s0) = to_u32 (blog (x_type x))"
    "ib_owner_mode (i opt c ns x s0) = to_u32 (blog (x_owner_mode x))"
    "ib_group_mode (i opt c ns x s0) = to_u32 (blog (if o_no_group_mode opt then -1 else x_group_mode x))"
    "ib_other_mode (i opt c ns x s0) = to_u32 (blog (if o_no_other_mode opt then -1 else x_other_mode x))"
    "ib_uid (i opt c ns x s0) = to_u32 (blog (if o_no_uid opt then -1 else x_uid x))"
    "ib_gid (i opt c ns x s0) = to_u32 (blog (if o_no_gid opt then -1 else x_gid x))"
    "ib_parent (i opt c ns x s0) = to_u32 (blog (x_parent x))"
    "ib_nentries (i opt c ns x s0) = to_u32 (blog (x_nentries x))"
    "ib_entry_number (i opt c ns x s0) = to_u32 (blog (x_entry_number x))"
    "ib_entry_length (i opt c ns x s0) = to_u32 (blog (x_entry_length x))"
    "ib_entry_type (i opt c ns x s0) = to_u32 (blog (x_entry_type x))"
    "ib_ctime (i opt c ns x s0) = to_u32 (blog ((if o_no_ctime opt then -1 else x_ctime x) - x_min_ctime x))"
    "ib_mtime (i opt c ns x s0) = to_u32 (blog ((if o_no_mtime opt then -1 else x_mtime x) - x_min_mtime x))"
  by (simp_all add: i_def super_1_def maxima_disable_def)

text \<open>What is scanned of the nodes \<open>ns\<close>: their maxima, and the first ones of their times.\<close>

definition maxima_of :: "mnode list \<Rightarrow> maxima \<Rightarrow> bool" where
  "maxima_of ns x \<longleftrightarrow> ns \<noteq> [] \<and> (\<forall>n \<in> set ns. node_ok n \<and> node_below n x) \<and> maxima_range x \<and>
     x_min_ctime x = n_ctime (hd ns) \<and> x_min_mtime x = n_mtime (hd ns)"

lemma maxima_of_hd:
  assumes "maxima_of ns x"
  shows "0 \<le> x_min_ctime x" "x_min_ctime x < 2 ^ 32" "0 \<le> x_min_mtime x" "x_min_mtime x < 2 ^ 32"
    "x_min_ctime x \<le> x_ctime x" "x_min_mtime x \<le> x_mtime x"
    "0 \<le> x_group_mode x" "0 \<le> x_other_mode x" "0 \<le> x_uid x" "0 \<le> x_gid x"
proof -
  have "node_ok (hd ns)" "node_below (hd ns) x" using assms by (simp_all add: maxima_of_def)
  moreover have "x_min_ctime x = n_ctime (hd ns)" "x_min_mtime x = n_mtime (hd ns)"
    using assms by (simp_all add: maxima_of_def)
  ultimately show "0 \<le> x_min_ctime x" "x_min_ctime x < 2 ^ 32" "0 \<le> x_min_mtime x" "x_min_mtime x < 2 ^ 32"
    "x_min_ctime x \<le> x_ctime x" "x_min_mtime x \<le> x_mtime x"
    "0 \<le> x_group_mode x" "0 \<le> x_other_mode x" "0 \<le> x_uid x" "0 \<le> x_gid x"
    by (auto simp: node_below_def node_ok_def u32_range_def)
qed

lemma super_1_widths:
  fixes opt :: options and c :: compressor and s0 :: super_block
  assumes x: "maxima_of ns x"
  defines "s \<equiv> super_1 opt c ns (maxima_disable opt x) s0"
  shows "\<forall>w \<in> set (take 8 (ibits_widths (sb_ibits s))). uint w \<le> 32" and "entry_widths_ok s"
    and "optional_bits opt s"
proof -
  note ms = maxima_below [of x] and hd = maxima_of_hd [OF x] and sel = super_1_ibits [of opt c ns x s0, folded s_def]
  have r: "maxima_range x" using x by (simp add: maxima_of_def)
  have w: "uint (to_u32 (blog v)) \<le> 32" if "v < 2 ^ 32" for v
    using blog_width_word [OF that] by simp
  have wd: "uint (to_u32 (blog (if b then -1 else v))) \<le> 32" if "v < 2 ^ 32" for b v
    using w [of "-1"] w [OF that] by simp
  note tc = time_field [OF ms(7) [OF r] hd(1) order_refl sel(12)]
    and tm = time_field [OF ms(8) [OF r] hd(3) order_refl sel(13)]
  show "\<forall>w \<in> set (take 8 (ibits_widths (sb_ibits s))). uint w \<le> 32"
    using w wd ms [OF r] tc(2) tm(2) by (simp add: ibits_widths_def sel(1-6))
  show "entry_widths_ok s" using w ms [OF r] by (simp add: entry_widths_ok_def sel(7-11))
  have "to_u32 (blog (if b then -1 else v)) = 0 \<longleftrightarrow> b" if "0 \<le> v" "v < 2 ^ 32" for b v
    using that blog_word_0 [of v] by simp
  then show "optional_bits opt s"
    unfolding optional_bits_def using tc(3) tm(3) hd ms [OF r] by (simp add: sel(1-6))
qed

lemma super_1_attributes:
  assumes x: "maxima_of ns x" and n: "n \<in> set ns"
  shows "attributes_exact opt (super_1 opt c ns (maxima_disable opt x) s0) n"
proof -
  let ?s = "super_1 opt c ns (maxima_disable opt x) s0"
  note hd = maxima_of_hd [OF x] and sel = super_1_ibits [of opt c ns x s0]
  have r: "maxima_range x" and ok: "node_ok n" "node_below n x" using x n by (auto simp: maxima_of_def)
  note ms = maxima_below [OF r]
  have mins: "uint (min_ctime (sb_min ?s)) = x_min_ctime x" "uint (min_mtime (sb_min ?s)) = x_min_mtime x"
    using hd by (simp_all add: super_1_def maxima_disable_def)
  have t: "0 \<le> n_type n" using ok(1) node_type_known [of n] by (auto simp: node_ok_def)
  have e: "field_value (sint (to_u32 (blog (x_type x))), to_u32 (n_type n)) = to_u32 (n_type n)"
    "field_value (sint (to_u32 (blog (x_owner_mode x))), to_u32 (n_owner_mode n)) = to_u32 (n_owner_mode n)"
    "field_value (sint (to_u32 (blog (x_group_mode x))), to_u32 (n_group_mode n)) = to_u32 (n_group_mode n)"
    "field_value (sint (to_u32 (blog (x_other_mode x))), to_u32 (n_other_mode n)) = to_u32 (n_other_mode n)"
    "field_value (sint (to_u32 (blog (x_uid x))), to_u32 (n_uid n)) = to_u32 (n_uid n)"
    "field_value (sint (to_u32 (blog (x_gid x))), to_u32 (n_gid n)) = to_u32 (n_gid n)"
    using ok t ms by (simp_all add: node_ok_def node_below_def u32_range_def field_exact)
  note tc = time_field(1) [OF ms(7) hd(1) _ sel(12)] and tm = time_field(1) [OF ms(8) hd(3) _ sel(13)]
  show ?thesis
    unfolding attributes_exact_def inode_fields_def inode_view_def Let_def
    unfolding mins using e tc tm ok(2) by (simp add: sel(1-6) field_disabled node_below_def)
qed

lemma super_1_payload:
  assumes x: "maxima_of ns x" and n: "n \<in> set ns"
  shows "payload_exact (super_1 opt c ns (maxima_disable opt x) s0) (n_payload n)"
proof (cases "n_payload n")
  case (Directory_payload p es)
  let ?s = "super_1 opt c ns (maxima_disable opt x) s0"
  note sel = super_1_ibits(7-11) [of opt c ns x s0]
  have "maxima_range x" "node_ok n" "node_below n x" using x n by (auto simp: maxima_of_def)
  note ms = maxima_below [OF this(1)] and ok = this(2,3)
  have p: "u32_range p" "p \<le> x_parent x" "int (length es) \<le> x_nentries x"
    "\<forall>e \<in> set es. dentry_ok e \<and> entry_below e x"
    using Directory_payload ok by (auto simp: node_ok_def node_below_def payload_ok_def payload_below_def)
  have "field_value (sint (to_u32 (blog (x_parent x))), to_u32 p) = to_u32 p"
    "field_value (sint (to_u32 (blog (x_nentries x))), to_u32 (int (length es))) = to_u32 (int (length es))"
    using p ms by (intro field_exact; simp add: u32_range_def)+
  moreover have "map field_value (entry_fields ?s e) = [to_u32 (de_number e), to_u32 (de_length e), to_u32 (de_type e)]"
    if "e \<in> set es" for e
  proof -
    have "0 \<le> de_length e" by (simp add: de_length_def)
    then show ?thesis
      using p(4) that ms
      by (simp add: entry_fields_def sel dentry_ok_def entry_below_def u32_range_def field_exact)
  qed
  moreover have "ib_parent (sb_ibits ?s) \<noteq> 0"
    using p(1,2) ms blog_word_0 [of "x_parent x"] by (simp add: sel u32_range_def)
  ultimately show ?thesis
    using Directory_payload by (simp add: payload_exact_def directory_fields_def sel)
qed (simp_all add: payload_exact_def)

text \<open>The super block after the scan of the table.\<close>

definition super_scanned :: "options \<Rightarrow> compressor \<Rightarrow> mnode list \<Rightarrow> super_block \<Rightarrow> bool" where
  "super_scanned opt c ns s \<longleftrightarrow>
    (\<forall>w \<in> set (take 8 (ibits_widths (sb_ibits s))). uint w \<le> 32) \<and> entry_widths_ok s \<and>
    (\<forall>n \<in> set ns. attributes_exact opt s n \<and> payload_exact s (n_payload n)) \<and>
    sb_magic s = SMASHFS_MAGIC \<and> sb_version s = SMASHFS_VERSION_0 \<and> sb_ctime s = 0 \<and> sb_root s = 0 \<and>
    sb_block_size s = o_block_size opt \<and> sb_block_log2 s = slog (o_block_size opt) \<and>
    sb_inodes s = of_nat (length ns) \<and> sb_compression_type s = compressor_type c \<and> optional_bits opt s \<and>
    uint (min_ctime (sb_min s)) = n_ctime (hd ns) \<and> uint (min_mtime (sb_min s)) = n_mtime (hd ns)"

lemma super_1_ok:
  assumes ns: "\<forall>n \<in> set ns. node_ok n" "ns \<noteq> []"
  shows "\<exists>s. scan_maxima opt c ns s0 = Ok s \<and> super_scanned opt c ns s"
proof -
  obtain x where x: "rfold maxima_node ns maxima_init = Ok x" "maxima_of ns x"
    using maxima_ok [OF ns] ns by (auto simp: maxima_of_def)
  let ?s = "super_1 opt c ns (maxima_disable opt x) s0"
  note hd = maxima_of_hd [OF x(2)]
  have "uint (min_ctime (sb_min ?s)) = n_ctime (hd ns)" "uint (min_mtime (sb_min ?s)) = n_mtime (hd ns)"
    using hd x(2) by (simp_all add: super_1_def maxima_disable_def maxima_of_def)
  moreover have "scan_maxima opt c ns s0 = Ok ?s" using x(1) by (simp add: scan_maxima_def)
  ultimately show ?thesis
    using super_1_widths [OF x(2)] super_1_attributes [OF x(2)] super_1_payload [OF x(2)]
    by (intro exI [of _ ?s]) (simp add: super_scanned_def super_1_def HASH_CNT_def)
qed

section \<open>The image\<close>

text \<open>
  \<open>image_ok decomp opt s nodes img\<close>: \<open>img\<close> starts with the super block \<open>s\<close> and holds the
  nodes \<open>nodes\<close>, in the order of their numbers, with everything a reader needs; \<open>decomp\<close>
  is the reader's side of the compression method.
\<close>

definition inode_table_ok :: "codec_fn \<Rightarrow> super_block \<Rightarrow> mnode list \<Rightarrow> memory \<Rightarrow> bool" where
  "inode_table_ok decomp s nodes icb \<longleftrightarrow>
     int (length nodes) = uint (sb_inodes s) \<and> length nodes < 2 ^ 22 \<and> inode_widths_ok s \<and>
     length icb < 2 ^ 28 \<and>
     (\<exists>itab. int (length itab) = inode_table_size s \<and> uint (sb_inodes_size s) = inode_table_size s \<and>
        inode_table_size s < 2 ^ 28 \<and>
        decomp icb (inode_table_size s) = (inode_table_size s, itab) \<and>
        holds (membit itab) 0 (concat (map (inode_fields s) nodes)))"

definition block_table_good :: "super_block \<Rightarrow> block list \<Rightarrow> memory \<Rightarrow> bool" where
  "block_table_good s ks btab \<longleftrightarrow>
     int (length ks) = uint (sb_blocks s) \<and> length ks \<le> 2 ^ 20 \<and> block_fields_exact s ks \<and>
     int (length btab) = block_table_size s \<and> holds (membit btab) 0 (block_table_fields s ks)"

definition node_placed :: "super_block \<Rightarrow> nat \<Rightarrow> memory \<Rightarrow> mnode \<Rightarrow> bool" where
  "node_placed s k entry n \<longleftrightarrow>
     n_size n = int (length (node_bytes s n)) \<and> 0 \<le> n_block n \<and> 0 \<le> n_index n \<and> n_index n < 2 ^ k \<and>
     n_block n * 2 ^ k + n_index n + n_size n \<le> int (length entry) \<and>
     take (length (node_bytes s n)) (drop (nat (n_block n * 2 ^ k + n_index n)) entry) = node_bytes s n"

definition image_ok :: "codec_fn \<Rightarrow> options \<Rightarrow> super_block \<Rightarrow> mnode list \<Rightarrow> memory \<Rightarrow> bool" where
  "image_ok decomp opt s nodes img \<longleftrightarrow>
     sb_magic s = SMASHFS_MAGIC \<and> sb_version s = SMASHFS_VERSION_0 \<and> sb_ctime s = 0 \<and> sb_root s = 0 \<and>
     optional_bits opt s \<and>
     (\<exists>icb btab ecb ks k entry.
        layout_ok s img icb btab ecb \<and> block_size_ok s k \<and>
        inode_table_ok decomp s nodes icb \<and> block_table_good s ks btab \<and>
        length entry < 2 ^ 31 \<and> stored_blocks_ok decomp k entry ecb ks \<and>
        (\<forall>n \<in> set nodes. node_ok n \<and> node_placed s k entry n \<and> payload_exact s (n_payload n) \<and>
           map field_value (inode_fields s n) = inode_view opt s n))"

text \<open>The stages leave alone what earlier stages have set.\<close>

definition same_entry_bits :: "super_block \<Rightarrow> super_block \<Rightarrow> bool" where
  "same_entry_bits s t \<longleftrightarrow> ib_parent (sb_ibits s) = ib_parent (sb_ibits t) \<and>
     ib_nentries (sb_ibits s) = ib_nentries (sb_ibits t) \<and>
     ib_entry_number (sb_ibits s) = ib_entry_number (sb_ibits t) \<and>
     ib_entry_length (sb_ibits s) = ib_entry_length (sb_ibits t) \<and>
     ib_entry_type (sb_ibits s) = ib_entry_type (sb_ibits t)"

lemma same_entry_bits_fields:
  assumes "same_entry_bits s t"
  shows "entry_fields s = entry_fields t" and "entry_size s = entry_size t"
    and "directory_fields s = directory_fields t" and "directory_size s = directory_size t"
  using assms
  by (simp_all add: same_entry_bits_def entry_fields_def [abs_def] entry_size_def
      directory_fields_def [abs_def] directory_size_def)

lemma same_entry_bits_bytes:
  assumes "same_entry_bits s t"
  shows "node_bytes s n = node_bytes t n" and "payload_exact s p = payload_exact t p"
    and "entry_widths_ok s = entry_widths_ok t"
proof -
  note f = same_entry_bits_fields [OF assms]
  have "entry_bytes s = entry_bytes t" using f by (simp add: entry_bytes_def [abs_def])
  with f show "node_bytes s n = node_bytes t n"
    by (simp add: node_bytes_def directory_bytes_def split: payload.split)
  have "ib_parent (sb_ibits s) = ib_parent (sb_ibits t)" using assms by (simp add: same_entry_bits_def)
  with f show "payload_exact s p = payload_exact t p" by (simp add: payload_exact_def split: payload.split)
  from assms show "entry_widths_ok s = entry_widths_ok t"
    by (simp add: entry_widths_ok_def same_entry_bits_def)
qed

lemma super_2_ibits:
  assumes "\<forall>n \<in> set ns. n_size n < 2 ^ 32 \<and> n_block n < 2 ^ 32 \<and> n_index n < 2 ^ 32 \<and>
      0 \<le> n_size n \<and> 0 \<le> n_block n \<and> 0 \<le> n_index n"
    and "\<forall>w \<in> set (take 8 (ibits_widths (sb_ibits s))). uint w \<le> 32" and "entry_widths_ok s"
  shows "same_entry_bits (super_2 ns eb s) s" and "inode_widths_ok (super_2 ns eb s)"
    and "\<forall>n \<in> set ns. attributes_exact opt s n \<longrightarrow>
      map field_value (inode_fields (super_2 ns eb s) n) = inode_view opt (super_2 ns eb s) n"
proof -
  let ?S = "fold (\<lambda>n m. max m (n_size n)) ns (-1)" and ?B = "fold (\<lambda>n m. max m (n_block n)) ns (-1)"
    and ?I = "fold (\<lambda>n m. max m (n_index n)) ns (-1)"
  have l: "?S < 2 ^ 32" "?B < 2 ^ 32" "?I < 2 ^ 32" using assms(1) by (auto intro!: fold_max_less)
  show "same_entry_bits (super_2 ns eb s) s" by (simp add: same_entry_bits_def super_2_def)
  show "inode_widths_ok (super_2 ns eb s)"
    using assms(2,3) blog_width_word(1,3) l
    by (simp add: inode_widths_ok_def ibits_widths_def super_2_def entry_widths_ok_def)
  show "\<forall>n \<in> set ns. attributes_exact opt s n \<longrightarrow>
      map field_value (inode_fields (super_2 ns eb s) n) = inode_view opt (super_2 ns eb s) n"
  proof (intro ballI impI)
    fix n assume n: "n \<in> set ns" "attributes_exact opt s n"
    have "field_value (sint (to_u32 (blog ?S)), to_u32 (n_size n)) = to_u32 (n_size n)"
      "field_value (sint (to_u32 (blog ?B)), to_u32 (n_block n)) = to_u32 (n_block n)"
      "field_value (sint (to_u32 (blog ?I)), to_u32 (n_index n)) = to_u32 (n_index n)"
      using assms(1) n(1) l fold_max_member [OF n(1)] by (simp_all add: field_exact)
    with n(2) show "map field_value (inode_fields (super_2 ns eb s) n) = inode_view opt (super_2 ns eb s) n"
      by (simp add: attributes_exact_def inode_fields_def inode_view_def super_2_def Let_def)
  qed
qed

section \<open>The function as a whole\<close>

definition system_ok :: "environment \<Rightarrow> bool" where
  "system_ok env \<longleftrightarrow> heap_ok (e_alloc env) \<and> (\<forall>b. e_thread env b) \<and> e_open env \<and> (\<forall>i. e_write env i)"

definition options_ok :: "options \<Rightarrow> nat \<Rightarrow> bool" where
  "options_ok opt k \<longleftrightarrow> 12 \<le> k \<and> k \<le> 20 \<and> o_block_size opt = 2 ^ k \<and> 0 < o_njobs opt \<and>
     unat (o_njobs opt) \<le> MAX_JOBS"

text \<open>A bound of the size of a node's contents that does not depend on the widths.\<close>

definition payload_bound :: "payload \<Rightarrow> nat" where
  "payload_bound p = (case p of
       No_payload \<Rightarrow> 0 | File_payload d \<Rightarrow> length d
     | Directory_payload parent es \<Rightarrow> 8 + sum_list (map (\<lambda>e. 12 + length (de_name e)) es)
     | Link_payload p \<Rightarrow> length p)"

definition table_ok :: "mnode list \<Rightarrow> bool" where
  "table_ok nodes \<longleftrightarrow> nodes \<noteq> [] \<and> length nodes < 2 ^ 22 \<and> (\<forall>n \<in> set nodes. node_ok n) \<and>
     sum_list (map (\<lambda>n. payload_bound (n_payload n)) nodes) < 2 ^ 31"

lemma node_bytes_bound:
  assumes "payload_ok n" and "entry_widths_ok s"
  shows "length (node_bytes s n) \<le> payload_bound (n_payload n)"
  using assms(1)
proof (cases rule: payload_ok_cases)
  case (2 p es)
  have "length (entry_bytes s e) \<le> 12 + length (de_name e)" for e
    using length_entry_bytes [OF assms(2), of e] entry_fields_ok(3) [OF assms(2)] by (simp add: de_length_def)
  then have "length (concat (map (entry_bytes s) es)) \<le> sum_list (map (\<lambda>e. 12 + length (de_name e)) es)"
    unfolding length_concat map_map comp_def by (intro sum_list_mono)
  moreover have "length (pack (directory_size s) (directory_fields s p (int (length es)))) \<le> 8"
    using directory_fields_ok [OF assms(2)] pack_ok(2) [of "directory_fields s p (int (length es))" "directory_size s"]
    by simp
  ultimately show ?thesis using 2(1) by (simp add: node_bytes_def directory_bytes_def payload_bound_def)
next
  case (3 p)
  then show ?thesis using c_str_less [of p] by (simp add: node_bytes_def payload_bound_def Suc_le_eq)
qed (simp add: node_bytes_def payload_bound_def)

lemma entry_data_bound:
  assumes "\<forall>n \<in> set ns. payload_ok n" and "entry_widths_ok s"
  shows "length (entry_data s ns) \<le> sum_list (map (\<lambda>n. payload_bound (n_payload n)) ns)"
  unfolding entry_data_def length_concat map_map comp_def
  using assms node_bytes_bound by (intro sum_list_mono) auto

lemma sum_list_mset: "mset xs = mset ys \<Longrightarrow> sum_list (map f xs) = (sum_list (map f ys) :: nat)"
  by (metis mset_map sum_mset_sum_list)

text \<open>Before the blocks are compressed.\<close>

definition prepared :: "options \<Rightarrow> super_block \<Rightarrow> nat \<Rightarrow> memory \<Rightarrow> mnode list \<Rightarrow> bool" where
  "prepared opt s k entry ns \<longleftrightarrow>
     sb_magic s = SMASHFS_MAGIC \<and> sb_version s = SMASHFS_VERSION_0 \<and> sb_ctime s = 0 \<and> sb_root s = 0 \<and>
     optional_bits opt s \<and>
     block_size_ok s k \<and> inode_widths_ok s \<and> int (length ns) = uint (sb_inodes s) \<and>
     length ns < 2 ^ 22 \<and> uint (sb_blocks s) = block_count k entry \<and> length entry < 2 ^ 31 \<and>
     (\<forall>n \<in> set ns. node_ok n \<and> node_placed s k entry n \<and> payload_exact s (n_payload n) \<and>
        map field_value (inode_fields s n) = inode_view opt s n)"

lemma node_placed_nth:
  assumes s: "block_size_ok s k" and i: "i < length ns"
  shows "node_placed s k (entry_data s ns) (placed s 0 ns ! i)"
proof -
  let ?o = "length (entry_data s (take i ns))" and ?b = "node_bytes s (ns ! i)"
  note p = nth_placed [OF i, of s 0]
  have same: "node_bytes s (placed s 0 ns ! i) = ?b" by (simp add: p node_bytes_def)
  note bi = block_index_sum [of "int ?o" s, unfolded block_size_okD(1) [OF s]]
  have "length (entry_data s ns) = ?o + length ?b + length (entry_data s (drop (Suc i) ns))"
    using arg_cong [OF id_take_nth_drop [OF i], of "\<lambda>ns. length (entry_data s ns)"]
    by (simp add: entry_data_def)
  then have "int ?o + int (length ?b) \<le> int (length (entry_data s ns))" by simp
  then show ?thesis
    unfolding node_placed_def same
    using bi entry_data_slice [OF i, of s] by (simp add: p)
qed

text \<open>
  The type of a node and the key of the first sort belong together in a table that
  \<open>node_new\<close> has made.  When such a table has a directory or a link, its entry data ends
  with one of them, and even an empty file has its place inside of a block.
\<close>

definition ntype_ok :: "mnode \<Rightarrow> bool" where
  "ntype_ok n \<longleftrightarrow> (n_type n = inode_code regular_file \<and> n_ntype n < ntype_code node_type_directory) \<or>
     (n_type n \<noteq> inode_code regular_file \<and> ntype_code node_type_directory \<le> n_ntype n)"

definition ends_inside :: "mnode list \<Rightarrow> bool" where
  "ends_inside nodes \<longleftrightarrow> (\<forall>n \<in> set nodes. ntype_ok n) \<and> (\<exists>n \<in> set nodes. n_type n \<noteq> inode_code regular_file)"

lemma node_bytes_nonempty:
  assumes "payload_ok n" and "payload_exact s (n_payload n)" and "entry_widths_ok s"
    and "n_type n \<noteq> inode_code regular_file"
  shows "node_bytes s n \<noteq> []"
  using assms(1)
proof (cases rule: payload_ok_cases)
  case (2 p es)
  note f = directory_fields_ok [OF assms(3)]
  have "ib_parent (sb_ibits s) \<noteq> 0" using assms(2) 2(1) by (simp add: payload_exact_def)
  moreover have "uint (ib_parent (sb_ibits s)) \<le> 32" using assms(3) by (simp add: entry_widths_ok_def)
  ultimately have "0 < width_sum (directory_fields s p (int (length es)))"
    by (simp add: directory_fields_def width_sint unat_gt_0)
  then have "0 < directory_size s" using f(4) [of p "int (length es)"] by linarith
  moreover have "directory_size s < 2 ^ 28" using f(3) by simp
  ultimately have "length (pack (directory_size s) (directory_fields s p (int (length es)))) \<noteq> 0"
    using pack_ok(2) [OF f(1,2) _ f(4), of p "int (length es)"] by simp
  then show ?thesis using 2(1) by (auto simp: node_bytes_def directory_bytes_def)
qed (use assms(4) in \<open>simp_all add: node_bytes_def\<close>)

lemma placed_inside:
  assumes sorted: "sorted (map n_ntype ns)" and e: "ends_inside ns"
    and ok: "\<forall>n \<in> set ns. n_type n \<noteq> inode_code regular_file \<longrightarrow> node_bytes s n \<noteq> []" and i: "i < length ns"
  shows "length (entry_data s (take i ns)) < length (entry_data s ns)"
proof -
  have mono: "length (entry_data s (take a ns)) \<le> length (entry_data s (take b ns))" if "a \<le> b" for a b
  proof -
    have "take b ns = take a ns @ take (b - a) (drop a ns)" using that by (simp flip: take_add)
    then show ?thesis by (simp add: entry_data_def)
  qed
  have step: "length (entry_data s (take j ns)) < length (entry_data s ns)"
    if "j < length ns" "node_bytes s (ns ! j) \<noteq> []" for j
  proof -
    have "length (entry_data s (take (Suc j) ns)) = length (entry_data s (take j ns)) + length (node_bytes s (ns ! j))"
      using that(1) by (simp add: take_Suc_conv_app_nth entry_data_def)
    moreover have "length (entry_data s (take (Suc j) ns)) \<le> length (entry_data s (take (length ns) ns))"
      using that(1) by (intro mono) simp
    moreover have "0 < length (node_bytes s (ns ! j))" using that(2) by simp
    ultimately show ?thesis unfolding take_all [OF order_refl] by linarith
  qed
  show ?thesis
  proof (cases "n_type (ns ! i) = inode_code regular_file")
    case True
    obtain j where j: "j < length ns" "n_type (ns ! j) \<noteq> inode_code regular_file"
      using e by (auto simp: ends_inside_def in_set_conv_nth)
    have "ntype_ok (ns ! i)" "ntype_ok (ns ! j)" using e i j(1) by (simp_all add: ends_inside_def)
    then have lt: "n_ntype (ns ! i) < n_ntype (ns ! j)" using True j(2) by (auto simp: ntype_ok_def)
    have "i \<le> j"
    proof (rule ccontr)
      assume "\<not> i \<le> j"
      then have "n_ntype (ns ! j) \<le> n_ntype (ns ! i)" using sorted_nth_mono [OF sorted, of j i] i j(1) by simp
      with lt show False by simp
    qed
    with mono [of i j] step [OF j(1)] ok j show ?thesis by (metis le_less_trans nth_mem)
  next
    case False
    with step [OF i] ok i show ?thesis by simp
  qed
qed

text \<open>What \<open>output_write\<close> changes of a node is its place.\<close>

definition unplaced :: "mnode \<Rightarrow> mnode" where
  "unplaced n = n\<lparr>n_size := 0, n_block := 0, n_index := 0\<rparr>"

lemma unplaced_placed: "map unplaced (placed s offset ns) = map unplaced ns"
  by (induction ns arbitrary: offset) (simp_all add: unplaced_def)

lemma unplaced_place:
  "node_ok (n\<lparr>n_size := a, n_block := b, n_index := i\<rparr>) = node_ok n"
  "attributes_exact opt s (n\<lparr>n_size := a, n_block := b, n_index := i\<rparr>) = attributes_exact opt s n"
  by (simp_all add: node_ok_def payload_ok_def attributes_exact_def inode_fields_def inode_view_def Let_def
      split: payload.split)

text \<open>The nodes once they are placed in the entry data.\<close>

lemma placed_node:
  assumes k: "block_size_ok s k" and n: "n \<in> set (placed s 0 ms)"
    and ok: "\<forall>n \<in> set ms. node_ok n \<and> attributes_exact opt s n \<and> payload_exact s (n_payload n)"
  shows "node_placed s k (entry_data s ms) n" and "node_ok n" and "attributes_exact opt s n"
    and "payload_exact s (n_payload n)"
proof -
  obtain i where i: "i < length ms" "n = placed s 0 ms ! i" using n by (auto simp: in_set_conv_nth)
  then have "node_ok (ms ! i)" "attributes_exact opt s (ms ! i)" "payload_exact s (n_payload (ms ! i))"
    using ok nth_mem by blast+
  with node_placed_nth [OF k i(1)] i(2) nth_placed [OF i(1), of s 0]
  show "node_placed s k (entry_data s ms) n" and "node_ok n" and "attributes_exact opt s n"
    and "payload_exact s (n_payload n)"
    by (simp_all add: unplaced_place)
qed

lemma node_placed_u32:
  assumes "node_placed s k entry n" and "length entry < 2 ^ 31"
  shows "n_size n < 2 ^ 32 \<and> n_block n < 2 ^ 32 \<and> n_index n < 2 ^ 32 \<and>
    0 \<le> n_size n \<and> 0 \<le> n_block n \<and> 0 \<le> n_index n"
proof -
  have "n_block n * 1 \<le> n_block n * 2 ^ k"
    using assms(1) by (intro mult_left_mono) (simp_all add: node_placed_def)
  with assms show ?thesis by (auto simp: node_placed_def)
qed

lemma placed_block_inside:
  assumes k: "block_size_ok s k" and e: "ends_inside ms" and sorted: "sorted (map n_ntype ms)"
    and w: "entry_widths_ok s" and ok: "\<forall>n \<in> set ms. payload_ok n \<and> payload_exact s (n_payload n)"
    and n: "n \<in> set (placed s 0 ms)"
  shows "n_block n < block_count k (entry_data s ms)"
proof -
  obtain i where i: "i < length ms" "n = placed s 0 ms ! i" using n by (auto simp: in_set_conv_nth)
  have "\<forall>n \<in> set ms. n_type n \<noteq> inode_code regular_file \<longrightarrow> node_bytes s n \<noteq> []"
    using node_bytes_nonempty [OF _ _ w] ok by blast
  from placed_inside [OF sorted e this i(1)]
  have "int (length (entry_data s (take i ms))) < int (length (entry_data s ms))" by simp
  moreover have "n_block n * 2 ^ k + n_index n = int (length (entry_data s (take i ms)))" "0 \<le> n_index n" "0 \<le> n_block n"
    using block_index_sum [of "int (length (entry_data s (take i ms)))" s, unfolded block_size_okD(1) [OF k]]
      node_placed_nth [OF k i(1)] nth_placed [OF i(1), of s 0] by (simp_all add: i(2) node_placed_def)
  ultimately have "n_block n * 2 ^ k < int (length (entry_data s ms))" by linarith
  then show ?thesis
    using block_count_less [of "n_block n" k "entry_data s ms"] \<open>0 \<le> n_block n\<close> by simp
qed

text \<open>The super block after the scan, with the nodes placed: everything is there but the tables.\<close>

lemma super_2_prepared:
  assumes s1: "super_scanned opt c ns s1" and k: "block_size_ok s1 k"
    and ms: "set ms = set ns" "length ms = length ns" and ok: "\<forall>n \<in> set ns. node_ok n"
    and len: "length ns < 2 ^ 22" "length (entry_data s1 ms) < 2 ^ 31"
    and eb: "buffer_ok eb" "buffer_contents eb = entry_data s1 ms"
  defines "s \<equiv> super_2 (placed s1 0 ms) eb s1"
  shows "prepared opt s k (buffer_contents eb) (placed s1 0 ms)" and "buffer_contents eb = entry_data s ms"
    and "uint (sb_blocks s) = block_count k (buffer_contents eb)"
proof -
  have all: "\<forall>n \<in> set ms. node_ok n \<and> attributes_exact opt s1 n \<and> payload_exact s1 (n_payload n)"
    using s1 ok ms(1) by (simp add: super_scanned_def)
  note pl = placed_node [OF k _ all]
  have w: "\<forall>w \<in> set (take 8 (ibits_widths (sb_ibits s1))). uint w \<le> 32" "entry_widths_ok s1"
    using s1 by (simp_all add: super_scanned_def)
  have r: "\<forall>n \<in> set (placed s1 0 ms). n_size n < 2 ^ 32 \<and> n_block n < 2 ^ 32 \<and> n_index n < 2 ^ 32 \<and>
      0 \<le> n_size n \<and> 0 \<le> n_block n \<and> 0 \<le> n_index n"
    using node_placed_u32 [OF pl(1) len(2)] by blast
  note s2 = super_2_ibits(1,2) [OF r w, of eb, folded s_def]
    super_2_ibits(3) [OF r w, of opt eb, folded s_def]
  note sb = same_entry_bits_bytes [OF s2(1)]
  show entry: "buffer_contents eb = entry_data s ms"
    using eb(2) ext [of "node_bytes s" "node_bytes s1", OF sb(1)] by (simp add: entry_data_def)
  show blocks: "uint (sb_blocks s) = block_count k (buffer_contents eb)"
    using super_2_blocks(1) [OF k eb(1)] eb(2) len(2) by (simp add: s_def)
  show "prepared opt s k (buffer_contents eb) (placed s1 0 ms)"
    unfolding prepared_def
  proof (intro conjI ballI)
    have "sb_inodes s1 = of_nat (length ns)" using s1 by (simp add: super_scanned_def)
    then show "int (length (placed s1 0 ms)) = uint (sb_inodes s)" "length (placed s1 0 ms) < 2 ^ 22"
      using len(1) ms(2) uint_to_u32_id [of "int (length ns)"] by (simp_all add: s_def)
    show "uint (sb_blocks s) = block_count k (buffer_contents eb)" by (fact blocks)
    show "length (buffer_contents eb) < 2 ^ 31" using eb(2) len(2) by simp
    show "block_size_ok s k" using k by (simp add: s_def)
    show "inode_widths_ok s" by (fact s2(2))
    fix n assume nn: "n \<in> set (placed s1 0 ms)"
    show "node_ok n" "payload_exact s (n_payload n)" using pl(2,4) [OF nn] sb(2) by auto
    show "node_placed s k (buffer_contents eb) n" using pl(1) [OF nn] sb(1) eb(2) by (simp add: node_placed_def)
    show "map field_value (inode_fields s n) = inode_view opt s n" using s2(3) pl(3) [OF nn] nn by blast
  qed (use s1 in \<open>simp_all add: s_def super_scanned_def super_2_def optional_bits_def\<close>)
qed

lemma output_write_stages:
  assumes env: "system_ok env" and opt: "options_ok opt k" and t: "table_ok nodes"
  shows "\<exists>s1 s ns eb. scan_maxima opt c nodes (e_stack env) = Ok s1 \<and>
    fill_entries (e_alloc env) s1 (HASH_SRT nodes_sort_by_type nodes) = Ok (ns, eb) \<and> s = super_2 ns eb s1 \<and>
    prepared opt s k (buffer_contents eb) ns \<and> buffer_ok eb \<and>
    buffer_contents eb = entry_data s (HASH_SRT nodes_sort_by_type nodes) \<and>
    mset (map unplaced ns) = mset (map unplaced nodes) \<and>
    sb_block_size s = 2 ^ k \<and> sb_compression_type s = compressor_type c \<and>
    uint (min_ctime (sb_min s)) = n_ctime (hd nodes) \<and> uint (min_mtime (sb_min s)) = n_mtime (hd nodes) \<and>
    (ends_inside nodes \<longrightarrow> (\<forall>n \<in> set ns. n_block n < uint (sb_blocks s)))"
proof -
  have n: "\<forall>n \<in> set nodes. node_ok n" "nodes \<noteq> []" using t by (simp_all add: table_ok_def)
  obtain s1 where s1: "scan_maxima opt c nodes (e_stack env) = Ok s1" "super_scanned opt c nodes s1"
    using super_1_ok [OF n, of opt c "e_stack env"] by blast
  have k: "block_size_ok s1 k"
    using opt s1(2) slog_power [of k] by (simp add: super_scanned_def block_size_ok_def options_ok_def)
  have w: "entry_widths_ok s1" using s1(2) by (simp add: super_scanned_def)
  let ?ms = "HASH_SRT nodes_sort_by_type nodes"
  have ms: "mset ?ms = mset nodes" by (rule mset_HASH_SRT)
  then have set_ms: "set ?ms = set nodes" and len_ms: "length ?ms = length nodes"
    by (metis mset_eq_setD, metis mset_eq_length)
  have pay: "\<forall>n \<in> set ?ms. payload_ok n" using n(1) set_ms by (simp add: node_ok_def)
  have len: "length nodes < 2 ^ 22" "length (entry_data s1 ?ms) < 2 ^ 31"
    using entry_data_bound [OF pay w] t sum_list_mset [OF ms, of "\<lambda>n. payload_bound (n_payload n)"]
    by (simp_all add: table_ok_def)
  obtain eb where eb: "fill_entries (e_alloc env) s1 ?ms = Ok (placed s1 0 ?ms, eb)" "buffer_ok eb"
    "buffer_contents eb = entry_data s1 ?ms"
    using fill_entries_ok [of "e_alloc env" s1 ?ms] env w pay len by (auto simp: system_ok_def)
  let ?ns = "placed s1 0 ?ms" and ?s = "super_2 (placed s1 0 ?ms) eb s1"
  note prep = super_2_prepared [OF s1(2) k set_ms len_ms n(1) len eb(2,3)]
  have "mset (map unplaced ?ns) = mset (map unplaced nodes)"
    using ms by (simp add: unplaced_placed)
  moreover have "sb_block_size ?s = 2 ^ k" "sb_compression_type ?s = compressor_type c"
    "uint (min_ctime (sb_min ?s)) = n_ctime (hd nodes)" "uint (min_mtime (sb_min ?s)) = n_mtime (hd nodes)"
    using s1(2) opt by (simp_all add: super_2_def options_ok_def super_scanned_def)
  moreover have "\<forall>n \<in> set ?ns. n_block n < uint (sb_blocks ?s)" if e: "ends_inside nodes"
  proof -
    have "ends_inside ?ms" using e by (simp add: ends_inside_def set_ms)
    from placed_block_inside [OF k this by_type.sorted_HASH_SRT w] pay s1(2) set_ms
    show ?thesis by (simp add: prep(3) eb(3) super_scanned_def)
  qed
  ultimately show ?thesis using s1(1) eb(1,2) prep by blast
qed

lemma output_write_prepared:
  assumes "system_ok env" and "options_ok opt k" and "table_ok nodes"
  shows "\<exists>s ns eb. output_write env opt c nodes =
      rbind (compress_blocks env opt c s eb) (\<lambda>(ks, ecb). write_tables env opt c s ns ks ecb) \<and>
    prepared opt s k (buffer_contents eb) ns \<and> buffer_ok eb \<and>
    buffer_contents eb = entry_data s (HASH_SRT nodes_sort_by_type nodes) \<and>
    mset (map unplaced ns) = mset (map unplaced nodes) \<and>
    sb_block_size s = 2 ^ k \<and> sb_compression_type s = compressor_type c \<and>
    uint (min_ctime (sb_min s)) = n_ctime (hd nodes) \<and> uint (min_mtime (sb_min s)) = n_mtime (hd nodes) \<and>
    (ends_inside nodes \<longrightarrow> (\<forall>n \<in> set ns. n_block n < uint (sb_blocks s)))"
proof -
  obtain s1 s ns eb where s: "scan_maxima opt c nodes (e_stack env) = Ok s1"
    "fill_entries (e_alloc env) s1 (HASH_SRT nodes_sort_by_type nodes) = Ok (ns, eb)" "s = super_2 ns eb s1"
    and p: "prepared opt s k (buffer_contents eb) ns \<and> buffer_ok eb \<and>
    buffer_contents eb = entry_data s (HASH_SRT nodes_sort_by_type nodes) \<and>
    mset (map unplaced ns) = mset (map unplaced nodes) \<and>
    sb_block_size s = 2 ^ k \<and> sb_compression_type s = compressor_type c \<and>
    uint (min_ctime (sb_min s)) = n_ctime (hd nodes) \<and> uint (min_mtime (sb_min s)) = n_mtime (hd nodes) \<and>
    (ends_inside nodes \<longrightarrow> (\<forall>n \<in> set ns. n_block n < uint (sb_blocks s)))"
    using output_write_stages [OF assms, of c] by blast
  have "output_write env opt c nodes =
      rbind (compress_blocks env opt c s eb) (\<lambda>(ks, ecb). write_tables env opt c s ns ks ecb)"
    using s by (simp add: output_write_def Let_def)
  with p show ?thesis by blast
qed

text \<open>The tables: a good image, whenever the inode table gets compressed.\<close>

definition inode_table :: "super_block \<Rightarrow> mnode list \<Rightarrow> memory" where
  "inode_table s ns = pack (inode_table_size s) (concat (map (inode_fields s) ns))"

lemma inode_fields_cong:
  assumes "sb_ibits s = sb_ibits t" and "min_ctime (sb_min s) = min_ctime (sb_min t)"
    and "min_mtime (sb_min s) = min_mtime (sb_min t)" and "sb_inodes s = sb_inodes t"
  shows "inode_fields s = inode_fields t" and "inode_table_size s = inode_table_size t"
    and "inode_view opt s = inode_view opt t" and "inode_widths_ok s = inode_widths_ok t"
    and "same_entry_bits s t"
  using assms by (simp_all add: inode_fields_def [abs_def] inode_table_size_def inode_view_def [abs_def]
      inode_widths_ok_def same_entry_bits_def)

lemma block_fields_cong:
  assumes "sb_kbits s = sb_kbits t" and "sb_blocks s = sb_blocks t"
    and "min_compressed_size (sb_min s) = min_compressed_size (sb_min t)"
  shows "block_table_fields s ks = block_table_fields t ks" and "block_table_size s = block_table_size t"
    and "block_fields_exact s ks = block_fields_exact t ks"
  using assms by (simp_all add: block_table_fields_def block_fields_def [abs_def] block_table_size_def
      block_fields_exact_def block_widths_ok_def)

lemma super_4_bits [simp]:
  "sb_magic (super_4 ib icb bb ecb s) = sb_magic s" "sb_version (super_4 ib icb bb ecb s) = sb_version s"
  "sb_root (super_4 ib icb bb ecb s) = sb_root s" "sb_ctime (super_4 ib icb bb ecb s) = sb_ctime s" "sb_ibits (super_4 ib icb bb ecb s) = sb_ibits s"
  "sb_kbits (super_4 ib icb bb ecb s) = sb_kbits s" "sb_min (super_4 ib icb bb ecb s) = sb_min s"
  "sb_inodes (super_4 ib icb bb ecb s) = sb_inodes s" "sb_blocks (super_4 ib icb bb ecb s) = sb_blocks s"
  "sb_block_size (super_4 ib icb bb ecb s) = sb_block_size s"
  "sb_block_log2 (super_4 ib icb bb ecb s) = sb_block_log2 s"
  "sb_compression_type (super_4 ib icb bb ecb s) = sb_compression_type s"
  by (simp_all add: super_4_def Let_def)

lemma compress_inodes_shrinks:
  assumes "compress_inodes alloc c sz ib = Ok icb" and ib: "buffer_ok ib" "buffer_contents ib = itab"
    and sz: "int (length itab) = sz" "sz < 2 ^ 28"
  shows "shrinks c itab"
proof -
  have "length itab = bf_length ib"
    using ib length_buffer_contents [of ib] by (simp add: buffer_ok_def)
  then have "take (nat sz) (buffer_buffer ib) = itab" "length itab \<le> length (buffer_buffer ib)"
    using ib sz(1) buffer_buffer_prefix [of ib]
    by (auto simp: buffer_ok_def buffer_wf_def buffer_buffer_def)
  then have "mem_slice (buffer_buffer ib) 0 (as_u32 sz) = Ok itab" using sz by simp
  with assms(1) sz show ?thesis
    by (auto simp: compress_inodes_def shrinks_def Let_def split: prod.splits if_splits)
qed

lemma block_count_bound:
  assumes "length entry < 2 ^ 31" and "12 \<le> k"
  shows "block_count k entry \<le> 2 ^ 20"
proof (rule ccontr)
  assume "\<not> block_count k entry \<le> 2 ^ 20"
  then have "2 ^ 20 * 2 ^ k < int (length entry)" using block_count_less [of "2 ^ 20" k entry] by simp
  moreover have "(2 :: int) ^ 12 \<le> 2 ^ k" using assms(2) by (intro power_increasing) auto
  ultimately show False using assms(1) by simp
qed

lemma block_count_length:
  assumes "12 \<le> k"
  shows "8 * block_count k entry \<le> int (length entry) + 8"
proof (rule ccontr)
  assume "\<not> 8 * block_count k entry \<le> int (length entry) + 8"
  then have "block_count k entry - 1 < block_count k entry" and e: "int (length entry) < 8 * (block_count k entry - 1)"
    by simp_all
  then have "(block_count k entry - 1) * 2 ^ k < int (length entry)"
    using block_count_less [of "block_count k entry - 1" k entry] by simp
  moreover have "(2 :: int) ^ 12 \<le> 2 ^ k" using assms by (intro power_increasing) auto
  then have "(block_count k entry - 1) * 2 ^ 12 \<le> (block_count k entry - 1) * 2 ^ k"
    using e by (intro mult_left_mono) auto
  ultimately show False using e by simp
qed

definition tables_image ::
  "codec_fn \<Rightarrow> options \<Rightarrow> super_block \<Rightarrow> nat \<Rightarrow> mnode list \<Rightarrow> super_block \<Rightarrow> memory \<Rightarrow> bool" where
  "tables_image decomp opt s e nodes s' img \<longleftrightarrow> image_ok decomp opt s' nodes img \<and>
     sb_block_size s' = sb_block_size s \<and> sb_compression_type s' = sb_compression_type s \<and>
     sb_blocks s' = sb_blocks s \<and> min_ctime (sb_min s') = min_ctime (sb_min s) \<and> min_mtime (sb_min s') = min_mtime (sb_min s) \<and>
     length img < 2 ^ 32 \<and> (o_no_padding opt \<or> length img mod 4096 = 0) \<and>
     uint (sb_inodes_csize s') \<le> 44 * int (length nodes) \<and>
     int (length img) \<le> 4300 + 44 * int (length nodes) + 2 * int e"

lemma padding_bound: "length (padding opt n) \<le> 4096"
  by (simp add: padding_def)

lemma padding_length: "o_no_padding opt \<or> (n + length (padding opt n)) mod 4096 = 0"
proof -
  have "(n + (4096 - n mod 4096)) mod 4096 = 0"
  proof -
    define q r where "q = n div 4096" and "r = n mod 4096"
    have "n = q * 4096 + r" "r < 4096" by (simp_all add: q_def r_def)
    then have "n + (4096 - r) = (q + 1) * 4096" by simp
    then have "n + (4096 - n mod 4096) = (q + 1) * 4096" by (simp only: r_def)
    then show ?thesis by simp
  qed
  then show ?thesis by (simp add: padding_def)
qed

text \<open>What the later stages of the super block leave of it, and the tables once they are packed.\<close>

lemma prepared_cong:
  assumes p: "prepared opt s k entry ns" and ns: "set ns' = set ns" "length ns' = length ns"
    and t: "sb_ibits t = sb_ibits s" "min_ctime (sb_min t) = min_ctime (sb_min s)"
      "min_mtime (sb_min t) = min_mtime (sb_min s)" "sb_inodes t = sb_inodes s"
    and c: "sb_magic t = sb_magic s" "sb_version t = sb_version s" "sb_ctime t = sb_ctime s"
      "sb_root t = sb_root s" "sb_blocks t = sb_blocks s" "sb_block_size t = sb_block_size s"
      "sb_block_log2 t = sb_block_log2 s"
  shows "prepared opt t k entry ns'"
proof -
  note ic = inode_fields_cong [OF t]
  note by' = same_entry_bits_bytes [OF ic(5)]
  have placed: "node_placed t k entry n = node_placed s k entry n" for n
    unfolding node_placed_def by'(1) ..
  show ?thesis
    using p unfolding prepared_def placed by'(2) ic(1,3,4) ns t(4) c
    by (simp add: optional_bits_def block_size_ok_def t(1) c)
qed

definition tables_ready ::
  "codec_fn \<Rightarrow> options \<Rightarrow> nat \<Rightarrow> memory \<Rightarrow> mnode list \<Rightarrow> block list \<Rightarrow> super_block \<Rightarrow>
    buffer \<Rightarrow> buffer \<Rightarrow> buffer \<Rightarrow> buffer \<Rightarrow> bool" where
  "tables_ready decomp opt k entry ns ks t ib icb bb ecb \<longleftrightarrow>
     prepared opt t k entry ns \<and> stored_blocks_ok decomp k entry (buffer_contents ecb) ks \<and>
     block_fields_exact t ks \<and> buffer_ok ib \<and> buffer_ok icb \<and> buffer_ok bb \<and> buffer_ok ecb \<and>
     buffer_contents bb = pack (block_table_size t) (block_table_fields t ks) \<and>
     buffer_contents ib = inode_table t ns \<and> length (buffer_contents icb) < 2 ^ 28 \<and>
     decomp (buffer_contents icb) (inode_table_size t) = (inode_table_size t, inode_table t ns) \<and>
     int (length (buffer_contents icb)) \<le> inode_table_size t"

lemma tables_ready_sizes:
  assumes r: "tables_ready decomp opt k entry ns ks t ib icb bb ecb"
  shows "int (length ks) = uint (sb_blocks t)" and "length ks \<le> 2 ^ 20"
    and "inode_widths_ok t" and "int (length ns) = uint (sb_inodes t)" and "length ns < 2 ^ 22"
    and "int (length (inode_table t ns)) = inode_table_size t" and "inode_table_size t < 2 ^ 28"
    and "length (buffer_contents bb) < 2 ^ 28" and "length (buffer_contents ecb) < 2 ^ 31"
    and "int (length (buffer_contents icb)) \<le> 44 * int (length ns)"
    and "int (length (buffer_contents bb)) \<le> int (length entry) + 13"
    and "length (buffer_contents ecb) \<le> length entry"
proof -
  have p: "prepared opt t k entry ns" and st: "stored_blocks_ok decomp k entry (buffer_contents ecb) ks"
    and bf: "block_fields_exact t ks"
    and bb: "buffer_contents bb = pack (block_table_size t) (block_table_fields t ks)"
    and icb: "int (length (buffer_contents icb)) \<le> inode_table_size t"
    using r by (simp_all add: tables_ready_def)
  have el: "length entry < 2 ^ 31" and k12: "12 \<le> k" using p by (simp_all add: prepared_def block_size_ok_def)
  show kl: "int (length ks) = uint (sb_blocks t)" "length ks \<le> 2 ^ 20"
    using st p block_count_bound [OF el k12] by (auto simp: stored_blocks_ok_def prepared_def)
  show iw: "inode_widths_ok t" "int (length ns) = uint (sb_inodes t)" "length ns < 2 ^ 22"
    using p by (simp_all add: prepared_def)
  note it = inode_table_fields_ok [OF iw] and bt = block_table_ok [OF bf kl]
  show "int (length (inode_table t ns)) = inode_table_size t"
    using pack_ok(2) [OF it] it(2) by (simp add: inode_table_def)
  show "inode_table_size t < 2 ^ 28" by (rule it(3))
  show "length (buffer_contents bb) < 2 ^ 28" using pack_ok(2) [OF bt] bt(3) by (simp add: bb)
  show "length (buffer_contents ecb) < 2 ^ 31" "length (buffer_contents ecb) \<le> length entry"
    using st el by (simp_all add: stored_blocks_ok_def)
  show "int (length (buffer_contents icb)) \<le> 44 * int (length ns)"
    using icb inode_table_bound [OF iw] by simp
  show "int (length (buffer_contents bb)) \<le> int (length entry) + 13"
    using pack_ok(2) [OF bt] block_table_bound [OF bf kl] block_count_length [OF k12, of entry] kl st bt(2)
    by (simp add: bb stored_blocks_ok_def)
qed

lemma tables_ready_image:
  assumes r: "tables_ready decomp opt k entry ns ks t ib icb bb ecb"
  defines "s' \<equiv> super_4 ib icb bb ecb t"
  defines "data \<equiv> super_bytes s' @ buffer_contents icb @ buffer_contents bb @ buffer_contents ecb"
  shows "image_ok decomp opt s' ns (data @ padding opt (length data))"
    and "uint (sb_inodes_csize s') \<le> 44 * int (length ns)"
proof -
  note sz = tables_ready_sizes [OF r]
  note it = inode_table_fields_ok [OF sz(3-5)]
  have b: "buffer_ok ib" "buffer_ok icb" "buffer_ok bb" "buffer_ok ecb"
    and bf: "block_fields_exact t ks"
    and bb: "buffer_contents bb = pack (block_table_size t) (block_table_fields t ks)"
    and ib: "buffer_contents ib = inode_table t ns"
    and icb: "length (buffer_contents icb) < 2 ^ 28"
      "decomp (buffer_contents icb) (inode_table_size t) = (inode_table_size t, inode_table t ns)"
    and st: "stored_blocks_ok decomp k entry (buffer_contents ecb) ks"
    and p: "prepared opt t k entry ns"
    using r by (simp_all add: tables_ready_def)
  note bt = block_table_ok [OF bf sz(1,2)]
  have s4: "sb_ibits s' = sb_ibits t" "min_ctime (sb_min s') = min_ctime (sb_min t)"
    "min_mtime (sb_min s') = min_mtime (sb_min t)" "sb_inodes s' = sb_inodes t"
    "sb_kbits s' = sb_kbits t" "sb_blocks s' = sb_blocks t"
    "min_compressed_size (sb_min s') = min_compressed_size (sb_min t)"
    by (simp_all add: s'_def)
  note ic = inode_fields_cong [OF s4(1-4)] and kc = block_fields_cong [OF s4(5-7)]
  have lt: "length (buffer_contents icb) < 2 ^ 29" "length (buffer_contents bb) < 2 ^ 29"
    "length (buffer_contents ib) < 2 ^ 29"
    using icb(1) sz(6-8) by (simp_all add: ib)
  have lay: "layout_ok s' (data @ padding opt (length data)) (buffer_contents icb) (buffer_contents bb) (buffer_contents ecb)"
    "uint (sb_inodes_size s') = inode_table_size t"
    using super_4_ok [OF b lt(1,2) sz(9) lt(3), of _ t] sz(6) by (simp_all add: s'_def data_def ib)
  have "inode_table_ok decomp s' ns (buffer_contents icb)"
    unfolding inode_table_ok_def ic
    using sz(3-7) s4(4) lay(2) icb pack_ok(3) [OF it] by (auto simp: inode_table_def)
  moreover have "block_table_good s' ks (buffer_contents bb)"
    unfolding block_table_good_def kc
    using sz(1,2) s4(6) bf pack_ok(2,3) [OF bt] bt(2) by (simp add: bb)
  moreover have "prepared opt s' k entry ns"
    by (rule prepared_cong [OF p HOL.refl HOL.refl]) (simp_all add: s'_def)
  ultimately show "image_ok decomp opt s' ns (data @ padding opt (length data))"
    using lay(1) st unfolding image_ok_def prepared_def by blast
  show "uint (sb_inodes_csize s') \<le> 44 * int (length ns)"
    using lay(1) sz(10) by (simp add: layout_ok_def)
qed

lemma write_tables_ok:
  assumes env: "system_ok env" and p: "prepared opt s k entry ns"
    and ks: "stored_blocks_ok decomp k entry (buffer_contents ecb) ks" "ks \<noteq> []" and ecb: "buffer_ok ecb"
    and c: "codec (compressor_compress c) decomp"
  defines "ns' \<equiv> HASH_SRT nodes_sort_by_number ns"
  shows "if shrinks c (inode_table s ns')
    then \<exists>s' img. write_tables env opt c s ns ks ecb = Ok (ns', img) \<and> tables_image decomp opt s (length entry) ns' s' img
    else \<forall>r. write_tables env opt c s ns ks ecb \<noteq> Ok r"
proof -
  have ns: "set ns' = set ns" "length ns' = length ns"
    unfolding ns'_def by (metis mset_HASH_SRT mset_eq_setD, metis mset_HASH_SRT mset_eq_length)
  have h: "heap_ok (e_alloc env)" using env by (simp add: system_ok_def)
  have el: "length entry < 2 ^ 31" and k12: "12 \<le> k" using p by (simp_all add: prepared_def block_size_ok_def)
  obtain kb mc where s3: "super_3 ks s = Ok (s\<lparr>sb_kbits := kb, sb_min := (sb_min s)\<lparr>min_compressed_size := mc\<rparr>\<rparr>)"
    "block_fields_exact (s\<lparr>sb_kbits := kb, sb_min := (sb_min s)\<lparr>min_compressed_size := mc\<rparr>\<rparr>) ks"
    using super_3_ok [OF ks(1) el ks(2)] by blast
  define t where "t = s\<lparr>sb_kbits := kb, sb_min := (sb_min s)\<lparr>min_compressed_size := mc\<rparr>\<rparr>"
  note s3 = s3 [folded t_def]
  have pt: "prepared opt t k entry ns'"
    by (rule prepared_cong [OF p ns]) (simp_all add: t_def)
  have tab: "inode_table t ns' = inode_table s ns'"
    by (simp add: inode_table_def t_def inode_fields_def [abs_def] inode_table_size_def)
  have kl: "int (length ks) = uint (sb_blocks t)" "length ks \<le> 2 ^ 20"
    using ks(1) pt block_count_bound [OF el k12] by (auto simp: stored_blocks_ok_def prepared_def)
  have iw: "inode_widths_ok t" "int (length ns') = uint (sb_inodes t)" "length ns' < 2 ^ 22"
    using pt by (simp_all add: prepared_def)
  note bt = block_table_ok [OF s3(2) kl] and it = inode_table_fields_ok [OF iw]
  obtain bb where bb: "add_fields (e_alloc env) (block_table_size t) (block_table_fields t ks) buffer_init =
      Ok (block_table_size t, bb)" "buffer_ok bb"
    "buffer_contents bb = pack (block_table_size t) (block_table_fields t ks)"
    using add_fields_ok [OF buffer_ok_init h bt] bt(3) by auto
  obtain ib where ib: "add_fields (e_alloc env) (inode_table_size t) (concat (map (inode_fields t) ns')) buffer_init =
      Ok (inode_table_size t, ib)" "buffer_ok ib" "buffer_contents ib = inode_table t ns'"
    using add_fields_ok [OF buffer_ok_init h it] it(3) by (auto simp: inode_table_def)
  have tl: "int (length (inode_table t ns')) = inode_table_size t"
    using pack_ok(2) [OF it] it(2) by (simp add: inode_table_def)
  have wt: "write_tables env opt c s ns ks ecb =
      rbind (compress_inodes (e_alloc env) c (inode_table_size t) ib) (\<lambda>icb.
      rbind (write_image env opt (super_4 ib icb bb ecb t) icb bb ecb) (\<lambda>file. Ok (ns', file)))"
    using s3(1) bb(1) ib(1) by (simp add: write_tables_def Let_def ns'_def)
  show ?thesis
  proof (cases "shrinks c (inode_table t ns')")
    case True
    obtain icb where icb: "compress_inodes (e_alloc env) c (inode_table_size t) ib = Ok icb"
      "tables_ready decomp opt k entry ns' ks t ib icb bb ecb"
      using compress_inodes_ok [OF h ib(2,3) tl it(3) c True] pt ks(1) s3(2) ib(2,3) bb(2,3) ecb
      by (auto simp: tables_ready_def)
    define s' where "s' = super_4 ib icb bb ecb t"
    define data where "data = super_bytes s' @ buffer_contents icb @ buffer_contents bb @ buffer_contents ecb"
    have "write_image env opt s' icb bb ecb = Ok (data @ padding opt (length data))"
      using write_image_ok [OF h _ _ _ bb(2) ecb, of icb opt s'] env icb(2)
      by (auto simp: system_ok_def tables_ready_def data_def)
    moreover have "tables_image decomp opt s (length entry) ns' s' (data @ padding opt (length data))"
      using tables_ready_image [OF icb(2), folded s'_def, folded data_def]
        tables_ready_sizes(8-12) [OF icb(2)] icb(2) padding_bound [of opt "length data"]
        padding_length [of opt "length data"]
      by (simp add: tables_image_def tables_ready_def) (simp add: s'_def t_def data_def)
    ultimately show ?thesis using True wt icb(1) by (auto simp: s'_def tab)
  next
    case False
    then show ?thesis
      using wt compress_inodes_shrinks [OF _ ib(2,3) tl it(3)] by (auto simp: tab)
  qed
qed

text \<open>What leaves the threads has been compressed, or else \<open>store_blocks\<close> fails.\<close>

lemma store_block_status:
  "rfold (store_block alloc) ks (acc, off, b) = Ok (ks', off', b') \<Longrightarrow>
    map bl_status ks' = map bl_status acc @ map bl_status ks"
proof (induction ks arbitrary: acc off b)
  case (Cons x xs)
  then obtain a2 o2 b2 where x: "store_block alloc x (acc, off, b) = Ok (a2, o2, b2)"
    "rfold (store_block alloc) xs (a2, o2, b2) = Ok (ks', off', b')"
    by auto
  have "map bl_status a2 = map bl_status acc @ [bl_status x]"
    using x(1) by (auto simp: store_block_def)
  with Cons.IH [OF x(2)] show ?case by simp
qed simp

lemma store_blocks_status:
  assumes "store_blocks alloc ks = Ok (ks', b)"
  shows "\<forall>k \<in> set ks. bl_status k = 2"
proof -
  have "map bl_status ks' = map bl_status ks" "\<forall>k \<in> set ks'. bl_status k = 2"
    using assms store_block_status [of alloc ks "[]" 0 buffer_init] by (auto simp: store_blocks_def)
  then show ?thesis by (metis (mono_tags, lifting) image_iff list.set_map)
qed

lemma new_blocks_fit:
  assumes "block_size_ok s k" "buffer_ok eb" "uint (sb_blocks s) = block_count k (buffer_contents eb)"
  shows "\<forall>x \<in> set (map (new_block s eb) [0..<unat (sb_blocks s)]).
    bl_status x = 0 \<and> block_fits (buffer_contents eb) x"
proof -
  have "int i < block_count k (buffer_contents eb)" if "i < unat (sb_blocks s)" for i
    using that assms(3) by (metis nat_uint zless_nat_eq_int_zless)
  then show ?thesis using new_block_ok(1,6) [OF assms(1,2)] by auto
qed

lemma compress_blocks_shrinks:
  assumes r: "compress_blocks env opt c s eb = Ok (ks, cb)" and env: "heap_ok (e_alloc env)"
    and s: "block_size_ok s k" "buffer_ok eb" "uint (sb_blocks s) = block_count k (buffer_contents eb)"
    and b: "int b < block_count k (buffer_contents eb)"
  shows "shrinks c (block_bytes k (buffer_contents eb) b)"
proof -
  let ?e = "buffer_contents eb" and ?n = "unat (sb_blocks s)"
  let ?ks = "map (new_block s eb) [0..<?n]"
  have n: "b < ?n" using b s(3) by (metis nat_uint zless_nat_eq_int_zless)
  have z: "\<forall>k \<in> set ?ks. bl_status k = 0" "\<forall>k \<in> set ?ks. block_fits ?e k"
    using new_blocks_fit [OF s] by blast+
  obtain ks0 where ks0: "run_jobs c ?e (e_sched env) (unat (o_njobs opt)) ?ks = Ok ks0"
    "store_blocks (e_alloc env) ks0 = Ok (ks, cb)"
    using r new_blocks_ok [OF env s] by (auto simp: compress_blocks_def)
  have "compressed c ?e (new_block s eb b) (ks0 ! b)"
    using run_jobs_compressed [OF ks0(1) z store_blocks_status [OF ks0(2)]] n
    by (auto simp: list_all2_conv_all_nth)
  with new_block_ok(2,3) [OF s(1,2) b] show ?thesis by (auto simp: compressed_def shrinks_def)
qed

text \<open>A bound of the size of the image, from the table alone.\<close>

definition image_bound :: "mnode list \<Rightarrow> int" where
  "image_bound nodes = 4300 + 44 * int (length nodes) +
     2 * int (sum_list (map (\<lambda>n. payload_bound (n_payload n)) nodes))"

lemma output_write_image:
  assumes env: "system_ok env" and opt: "options_ok opt k" and t: "table_ok nodes"
    and c: "codec (compressor_compress c) decomp" and r: "output_write env opt c nodes = Ok (nodes', img)"
  shows "\<exists>s. image_ok decomp opt s nodes' img \<and> mset (map unplaced nodes') = mset (map unplaced nodes) \<and>
    uint (sb_inodes_csize s) \<le> 44 * int (length nodes) \<and> int (length img) \<le> image_bound nodes \<and>
    sorted (map n_number nodes') \<and> sb_block_size s = 2 ^ k \<and> sb_compression_type s = compressor_type c \<and>
    uint (min_ctime (sb_min s)) = n_ctime (hd nodes) \<and> uint (min_mtime (sb_min s)) = n_mtime (hd nodes) \<and>
    length img < 2 ^ 32 \<and> (o_no_padding opt \<or> length img mod 4096 = 0) \<and>
    (ends_inside nodes \<longrightarrow> (\<forall>n \<in> set nodes'. n_block n < uint (sb_blocks s)))"
proof -
  obtain s ns eb where p: "output_write env opt c nodes =
      rbind (compress_blocks env opt c s eb) (\<lambda>(ks, ecb). write_tables env opt c s ns ks ecb)"
    "prepared opt s k (buffer_contents eb) ns" "buffer_ok eb"
    "mset (map unplaced ns) = mset (map unplaced nodes)"
    "sb_block_size s = 2 ^ k" "sb_compression_type s = compressor_type c"
    "uint (min_ctime (sb_min s)) = n_ctime (hd nodes)" "uint (min_mtime (sb_min s)) = n_mtime (hd nodes)"
    "ends_inside nodes \<longrightarrow> (\<forall>n \<in> set ns. n_block n < uint (sb_blocks s))"
    "buffer_contents eb = entry_data s (HASH_SRT nodes_sort_by_type nodes)"
    using output_write_prepared [OF env opt t, of c] by blast
  have h: "heap_ok (e_alloc env)" "\<forall>b. e_thread env b" using env by (simp_all add: system_ok_def)
  have oj: "0 < o_njobs opt" "unat (o_njobs opt) \<le> MAX_JOBS" using opt by (simp_all add: options_ok_def)
  have s: "block_size_ok s k" "uint (sb_blocks s) = block_count k (buffer_contents eb)"
    "length (buffer_contents eb) < 2 ^ 31"
    using p(2) by (simp_all add: prepared_def)
  obtain ks ecb where k: "compress_blocks env opt c s eb = Ok (ks, ecb)"
    "write_tables env opt c s ns ks ecb = Ok (nodes', img)"
    using r p(1) by auto
  have "\<forall>b. int b < block_count k (buffer_contents eb) \<longrightarrow> shrinks c (block_bytes k (buffer_contents eb) b)"
    using compress_blocks_shrinks [OF k(1) h(1) s(1) p(3) s(2)] by blast
  from compress_blocks_ok [OF h oj s(1) p(3) s(2,3) c this] k(1)
  have st: "buffer_ok ecb" "stored_blocks_ok decomp k (buffer_contents eb) (buffer_contents ecb) ks"
    by auto
  have ne: "ks \<noteq> []" using k(2) by (auto simp: write_tables_def super_3_def)
  obtain s' where "nodes' = HASH_SRT nodes_sort_by_number ns" "tables_image decomp opt s (length (buffer_contents eb)) nodes' s' img"
    using write_tables_ok [OF env p(2) st(2) ne st(1) c] k(2) by (auto split: if_splits)
  moreover from this have "set nodes' = set ns" by (metis mset_HASH_SRT mset_eq_setD)
  moreover have "length nodes' = length nodes"
    using p(4) calculation(1) by (metis mset_HASH_SRT mset_eq_length length_map)
  moreover have "length (buffer_contents eb) \<le> sum_list (map (\<lambda>n. payload_bound (n_payload n)) nodes)"
  proof -
    have ms: "mset (HASH_SRT nodes_sort_by_type nodes) = mset nodes" by (rule mset_HASH_SRT)
    then have "\<forall>n \<in> set (HASH_SRT nodes_sort_by_type nodes). payload_ok n"
      using t by (metis mset_eq_setD node_ok_def table_ok_def)
    moreover have "entry_widths_ok s" using p(2) inode_widths_entry by (simp add: prepared_def)
    ultimately show ?thesis
      using entry_data_bound [of "HASH_SRT nodes_sort_by_type nodes" s] sum_list_mset [OF ms] p(10) by simp
  qed
  ultimately show ?thesis
    using p(4-9) by_number.sorted_HASH_SRT [of ns] mset_HASH_SRT [of nodes_sort_by_number ns]
    by (auto simp: tables_image_def image_bound_def)
qed

text \<open>When nothing stands in the way an image is written.\<close>

lemma output_write_total:
  assumes env: "system_ok env" and opt: "options_ok opt k" and t: "table_ok nodes"
    and c: "codec (compressor_compress c) decomp" and sh: "\<And>d. length d < 2 ^ 28 \<Longrightarrow> shrinks c d"
    and dir: "\<exists>n \<in> set nodes. \<forall>s. entry_widths_ok s \<longrightarrow> node_bytes s n \<noteq> []"
  shows "\<exists>nodes' img. output_write env opt c nodes = Ok (nodes', img)"
proof -
  obtain s ns eb where p: "output_write env opt c nodes =
      rbind (compress_blocks env opt c s eb) (\<lambda>(ks, ecb). write_tables env opt c s ns ks ecb)"
    "prepared opt s k (buffer_contents eb) ns" "buffer_ok eb"
    "buffer_contents eb = entry_data s (HASH_SRT nodes_sort_by_type nodes)"
    using output_write_prepared [OF env opt t, of c] by blast
  have h: "heap_ok (e_alloc env)" "\<forall>b. e_thread env b" using env by (simp_all add: system_ok_def)
  have oj: "0 < o_njobs opt" "unat (o_njobs opt) \<le> MAX_JOBS" using opt by (simp_all add: options_ok_def)
  have s: "block_size_ok s k" "uint (sb_blocks s) = block_count k (buffer_contents eb)"
    "length (buffer_contents eb) < 2 ^ 31"
    using p(2) by (simp_all add: prepared_def)
  have "\<forall>b. int b < block_count k (buffer_contents eb) \<longrightarrow> shrinks c (block_bytes k (buffer_contents eb) b)"
    using new_block_ok(3,5) [OF s(1) p(3)] by (intro allI impI sh) fastforce
  from compress_blocks_ok [OF h oj s(1) p(3) s(2,3) c this]
  obtain ks ecb where k: "compress_blocks env opt c s eb = Ok (ks, ecb)" "buffer_ok ecb"
    "stored_blocks_ok decomp k (buffer_contents eb) (buffer_contents ecb) ks"
    by blast
  obtain n where n: "n \<in> set nodes" "node_bytes s n \<noteq> []"
    using dir p(2) inode_widths_entry by (auto simp: prepared_def)
  have "n \<in> set (HASH_SRT nodes_sort_by_type nodes)" using n(1) by (metis mset_HASH_SRT mset_eq_setD)
  then have "buffer_contents eb \<noteq> []" using n(2) p(4) by (auto simp: entry_data_def)
  then have "0 < block_count k (buffer_contents eb)" using block_count_less [of 0 k "buffer_contents eb"] by simp
  then have ne: "ks \<noteq> []" using k(3) by (auto simp: stored_blocks_ok_def)
  have "length (inode_table s (HASH_SRT nodes_sort_by_number ns)) < 2 ^ 28"
  proof -
    have "length (HASH_SRT nodes_sort_by_number ns) = length ns" by (metis mset_HASH_SRT mset_eq_length)
    then have "inode_widths_ok s" "int (length (HASH_SRT nodes_sort_by_number ns)) = uint (sb_inodes s)"
      "length (HASH_SRT nodes_sort_by_number ns) < 2 ^ 22"
      using p(2) by (simp_all add: prepared_def)
    note it = inode_table_fields_ok [OF this]
    show ?thesis using pack_ok(2) [OF it] it(2,3) by (simp add: inode_table_def)
  qed
  from sh [OF this] write_tables_ok [OF env p(2) k(3) ne k(2) c] k(1) p(1) show ?thesis by auto
qed

end
