(* ===== verification/Reader.thy ===== *)
theory Reader
  imports Mkfs_Correct
begin

text \<open>
  What \<open>src/mkfs/unfs.c\<close> and \<open>src/linux/super.c\<close> have in common: \<open>struct node\<close> and
  \<open>struct block\<close> as they are read from the tables of an image, and the interface of a
  source of blocks on which both \<open>node_read\<close> functions rest.
\<close>

unbundle bit_operations_syntax

section \<open>Nodes and blocks of an image\<close>

record node =
  nd_number :: int
  nd_type :: int
  nd_owner_mode :: int
  nd_group_mode :: int
  nd_other_mode :: int
  nd_uid :: int
  nd_gid :: int
  nd_ctime :: int
  nd_mtime :: int
  nd_size :: int
  nd_block :: int
  nd_index :: int

record iblock =
  ik_offset :: int
  ik_size :: int
  ik_compressed_size :: int

definition inode_bit_widths :: "super_block \<Rightarrow> int list" where
  "inode_bit_widths s =
     (let i = sb_ibits s in map sint [ib_type i, ib_owner_mode i, ib_group_mode i, ib_other_mode i,
        ib_uid i, ib_gid i, ib_ctime i, ib_mtime i, ib_size i, ib_block i, ib_index i])"

text \<open>
  \<open>node_fill\<close> up to \<open>bitbuffer_uninit\<close>: \<open>tab\<close> is the inode table, \<open>sz\<close> its size and
  \<open>max_size\<close> the number of bits of an inode.
\<close>

definition node_bits :: "super_block \<Rightarrow> memory \<Rightarrow> int \<Rightarrow> int \<Rightarrow> int \<Rightarrow> node res" where
  "node_bits s tab sz max_size number =
     rbind (bitbuffer_init_from_buffer tab (to_s32 sz)) (\<lambda>bb.
     rbind (getbits_seq (inode_bit_widths s) (bitbuffer_setpos bb (to_u32 (number * max_size)))) (\<lambda>(v, _).
     Ok \<lparr>nd_number = number, nd_type = uint (v ! 0), nd_owner_mode = uint (v ! 1),
         nd_group_mode = uint (v ! 2), nd_other_mode = uint (v ! 3), nd_uid = uint (v ! 4),
         nd_gid = uint (v ! 5), nd_ctime = uint (v ! 6), nd_mtime = uint (v ! 7),
         nd_size = uint (v ! 8), nd_block = uint (v ! 9), nd_index = uint (v ! 10)\<rparr>))"

text \<open>The rest of it: what an attribute that is not stored is taken to be.\<close>

definition node_defaults :: "super_block \<Rightarrow> node \<Rightarrow> node" where
  "node_defaults s n =
     (let i = sb_ibits s;
          n = (if ib_group_mode i = 0 then n\<lparr>nd_group_mode := nd_owner_mode n\<rparr> else n);
          n = (if ib_other_mode i = 0 then n\<lparr>nd_other_mode := nd_owner_mode n\<rparr> else n);
          n = (if ib_uid i = 0 then n\<lparr>nd_uid := 0\<rparr> else n);
          n = (if ib_gid i = 0 then n\<lparr>nd_gid := 0\<rparr> else n);
          n = (if ib_ctime i = 0 then n\<lparr>nd_ctime := uint (sb_ctime s)\<rparr> else n)
      in if ib_mtime i = 0 then n\<lparr>nd_mtime := nd_ctime n\<rparr> else n)"

text \<open>\<open>block_fill\<close>; the sum of the two unsigned numbers wraps.\<close>

definition block_bits_at :: "super_block \<Rightarrow> memory \<Rightarrow> int \<Rightarrow> int \<Rightarrow> int \<Rightarrow> iblock res" where
  "block_bits_at s tab sz max_size number =
     rbind (bitbuffer_init_from_buffer tab (to_s32 sz)) (\<lambda>bb.
     rbind (bitbuffer_getbits (bitbuffer_setpos bb (to_u32 (number * max_size))) (sint (kb_offset (sb_kbits s))))
       (\<lambda>(offset, bb).
     rbind (bitbuffer_getbits bb (sint (kb_compressed_size (sb_kbits s)))) (\<lambda>(csize, bb).
     rbind (if number + 1 < uint (sb_blocks s) then Ok (sb_block_size s, bb)
            else bitbuffer_getbits bb (sint (kb_size (sb_kbits s)))) (\<lambda>(sz, _).
     Ok \<lparr>ik_offset = uint offset, ik_size = uint sz,
         ik_compressed_size = uint (csize + min_compressed_size (sb_min s))\<rparr>))))"

definition max_block_size :: "block_bits \<Rightarrow> int" where
  "max_block_size k = uint (kb_offset k) + uint (kb_compressed_size k)"

text \<open>The permission bits that both readers make of the three modes of a node.\<close>

definition file_mode :: "node \<Rightarrow> int" where
  "file_mode n =
     (let f = (\<lambda>m bit flag (mode :: int). if m AND mode_code bit \<noteq> 0 then mode OR flag else mode) in
      f (nd_other_mode n) mode_execute 1 (f (nd_other_mode n) mode_write 2 (f (nd_other_mode n) mode_read 4
     (f (nd_group_mode n) mode_execute 8 (f (nd_group_mode n) mode_write 16 (f (nd_group_mode n) mode_read 32
     (f (nd_owner_mode n) mode_execute 64 (f (nd_owner_mode n) mode_write 128
     (f (nd_owner_mode n) mode_read 256 0)))))))))"

section \<open>Reading them back\<close>

text \<open>\<open>tab\<close> starts with the bytes of the table \<open>t\<close>.\<close>

definition holds_table :: "memory \<Rightarrow> memory \<Rightarrow> bool" where
  "holds_table tab t \<longleftrightarrow> take (length t) tab = t \<and> length tab < 2 ^ 28"

lemma holds_table_bits:
  assumes "holds_table tab t" and "k < 8 * length t"
  shows "membit tab k = membit t k"
proof -
  have "k div 8 < length t" using assms(2) by (simp add: less_mult_imp_div_less mult.commute)
  then have "tab ! (k div 8) = t ! (k div 8)"
    using assms(1) by (metis holds_table_def nth_take)
  then show ?thesis by (simp add: membit_def)
qed

lemma holds_table_fields:
  assumes "holds_table tab t" and "holds (membit t) 0 fs" and "width_sum fs \<le> 8 * length t"
  shows "holds (membit tab) 0 fs"
  using assms holds_cong [of 0 fs "membit tab" "membit t"] holds_table_bits [OF assms(1)] by auto

lemma holds_table_length: "holds_table tab t \<Longrightarrow> length t \<le> length tab"
  unfolding holds_table_def by (metis length_take min.cobounded1)

lemma holds_nth:
  assumes "holds f 0 (concat (map g xs) @ fs)" and "\<And>x. x \<in> set xs \<Longrightarrow> width_sum (g x) = w"
    and "i < length xs"
  shows "holds f (i * w) (g (xs ! i))"
proof -
  have "concat (map g xs) @ fs =
      concat (map g (take i xs)) @ g (xs ! i) @ concat (map g (drop (Suc i) xs)) @ fs"
    using assms(3) by (subst (1) id_take_nth_drop [OF assms(3)]) simp
  moreover have "width_sum (concat (map g (take i xs))) = i * w"
    using assms(2,3) by (subst width_sum_concat) (auto dest: in_set_takeD)
  ultimately show ?thesis using assms(1) by (simp add: holds_append)
qed

text \<open>A run of fields in a table, read from its position on.\<close>

lemma get_table_fields:
  assumes t: "holds_table tab t" and fs: "widths_ok fs" "holds (membit tab) p fs"
    and p: "p + width_sum fs \<le> 8 * length t"
  shows "\<exists>b'. getbits_seq (map fst fs) \<lparr>bb_buffer = tab, bb_end = sz, bb_size = sz, bb_bsize = sz * 8,
      bb_index = int p, bb_external = True\<rparr> = Ok (map field_value fs, b')"
proof -
  let ?b = "\<lparr>bb_buffer = tab, bb_end = sz, bb_size = sz, bb_bsize = sz * 8, bb_index = int p, bb_external = True\<rparr>"
  have "bb_wf ?b" "nat (bb_index ?b) + width_sum fs \<le> 8 * length (bb_buffer ?b)"
    "holds (membit (bb_buffer ?b)) (nat (bb_index ?b)) fs"
    using t fs p holds_table_length [OF t] by (auto simp: bb_wf_def holds_table_def)
  from bb.get_seq_ok [OF this(1) fs(1) this(2,3)] show ?thesis by auto
qed

lemma init_setpos:
  assumes "0 \<le> sz" and "sz < 2 ^ 28" and "0 \<le> p" and "p < 2 ^ 31"
  shows "rbind (bitbuffer_init_from_buffer tab (to_s32 sz)) (\<lambda>bb. f (bitbuffer_setpos bb (to_u32 p))) =
    f \<lparr>bb_buffer = tab, bb_end = sz, bb_size = sz, bb_bsize = sz * 8, bb_index = p, bb_external = True\<rparr>"
  using assms by (simp add: bitbuffer_init_from_buffer_def bitbuffer_setpos_def)

definition node_of :: "int \<Rightarrow> u32 list \<Rightarrow> node" where
  "node_of number v =
     \<lparr>nd_number = number, nd_type = uint (v ! 0), nd_owner_mode = uint (v ! 1),
         nd_group_mode = uint (v ! 2), nd_other_mode = uint (v ! 3), nd_uid = uint (v ! 4),
         nd_gid = uint (v ! 5), nd_ctime = uint (v ! 6), nd_mtime = uint (v ! 7),
         nd_size = uint (v ! 8), nd_block = uint (v ! 9), nd_index = uint (v ! 10)\<rparr>"

lemma inode_fields_widths: "map fst (inode_fields s n) = inode_bit_widths s"
  by (simp add: inode_fields_def inode_bit_widths_def Let_def)

lemma node_bits_ok:
  assumes t: "holds_table tab itab" "int (length itab) = inode_table_size s"
      "holds (membit itab) 0 (concat (map (inode_fields s) nodes))"
    and w: "inode_widths_ok s" "int (length nodes) = uint (sb_inodes s)" "length nodes < 2 ^ 22"
    and sz: "0 \<le> sz" "sz < 2 ^ 28" and i: "i < length nodes"
  shows "node_bits s tab sz (max_inode_size (sb_ibits s)) (int i) =
    Ok (node_of (int i) (map field_value (inode_fields s (nodes ! i))))"
proof -
  note f = inode_fields_width [OF w(1)] and it = inode_table_fields_ok [OF w]
  let ?w = "nat (max_inode_size (sb_ibits s))"
  have ws: "width_sum (inode_fields s n) = ?w" for n using f(2) [of n] by linarith
  have tot: "width_sum (concat (map (inode_fields s) nodes)) = length nodes * ?w"
    by (simp add: width_sum_concat ws)
  have "width_sum (concat (map (inode_fields s) nodes)) \<le> 8 * length itab" using it(4) t(2) by linarith
  then have le: "length nodes * ?w \<le> 8 * length itab" by (simp only: tot)
  have "Suc i * ?w \<le> length nodes * ?w" using i by (intro mult_right_mono) auto
  then have p: "i * ?w + ?w \<le> 8 * length itab" using le by simp
  have h: "holds (membit tab) 0 (concat (map (inode_fields s) nodes) @ [])"
    using holds_table_fields [OF t(1,3)] le by (simp add: tot)
  obtain b' where g: "getbits_seq (inode_bit_widths s) \<lparr>bb_buffer = tab, bb_end = sz, bb_size = sz,
      bb_bsize = sz * 8, bb_index = int (i * ?w), bb_external = True\<rparr> =
    Ok (map field_value (inode_fields s (nodes ! i)), b')"
    using get_table_fields [OF t(1) f(1) holds_nth [OF h ws i]] p
    by (auto simp: ws inode_fields_widths)
  have e: "int i * max_inode_size (sb_ibits s) = int (i * ?w)" using f(4) by simp
  have "length itab < 268435456" using t(2) it(3) by simp
  then have "i * ?w < 2147483648" using p by linarith
  then have "int (i * ?w) < int 2147483648" by (simp only: of_nat_less_iff)
  then show ?thesis
    unfolding node_bits_def e using sz g by (subst init_setpos) (auto simp: node_of_def)
qed

text \<open>The entries of a block table lie one after the other, and the size of the last block behind them.\<close>

definition block_entries :: "super_block \<Rightarrow> memory \<Rightarrow> memory \<Rightarrow> block list \<Rightarrow> bool" where
  "block_entries s tab btab ks \<longleftrightarrow> holds_table tab btab \<and> int (length btab) = block_table_size s \<and>
     holds (membit btab) 0 (block_table_fields s ks) \<and> block_fields_exact s ks \<and>
     int (length ks) = uint (sb_blocks s) \<and> length ks \<le> 2 ^ 20"

lemma block_fields_width:
  assumes "block_fields_exact s ks"
  shows "width_sum (block_fields s m x) = nat (max_block_size (sb_kbits s))" and "widths_ok (block_fields s m x)"
    and "uint (kb_size (sb_kbits s)) \<le> 32"
  using assms
  by (simp_all add: block_fields_exact_def block_widths_ok_def block_fields_def width_sint max_block_size_def nat_add_distrib)

lemma block_entries_at:
  assumes t: "block_entries s tab btab ks" and i: "i < length ks"
  defines "w \<equiv> nat (max_block_size (sb_kbits s))"
  shows "holds (membit tab) (i * w) (block_fields s (min_compressed ks) (ks ! i))"
    and "i * w + w \<le> 8 * length btab" and "int (i * w) < 2147483648"
    and "Suc i = length ks \<Longrightarrow> holds (membit tab) (i * w) (block_fields s (min_compressed ks) (ks ! i) @
           [(sint (kb_size (sb_kbits s)), to_u32 (bl_size (last ks)))])"
    and "Suc i = length ks \<Longrightarrow> i * w + (w + unat (kb_size (sb_kbits s))) \<le> 8 * length btab"
proof -
  let ?m = "min_compressed ks" and ?last = "(sint (kb_size (sb_kbits s)), to_u32 (bl_size (last ks)))"
  have k: "block_fields_exact s ks" "int (length ks) = uint (sb_blocks s)" "length ks \<le> 2 ^ 20"
    and t': "holds_table tab btab" "int (length btab) = block_table_size s"
      "holds (membit btab) 0 (block_table_fields s ks)"
    using t by (simp_all add: block_entries_def)
  note bt = block_table_ok [OF k]
  have ws: "width_sum (block_fields s ?m x) = w" for x
    unfolding w_def by (rule block_fields_width(1) [OF k(1)])
  have tot: "width_sum (block_table_fields s ks) = length ks * w + unat (kb_size (sb_kbits s))"
    using block_fields_width(3) [OF k(1)] by (simp add: block_table_fields_def width_sum_concat ws width_sint)
  have "width_sum (block_table_fields s ks) \<le> 8 * length btab" using bt(4) t'(2) by linarith
  then have le: "length ks * w + unat (kb_size (sb_kbits s)) \<le> 8 * length btab" by (simp only: tot)
  have h: "holds (membit tab) 0 (concat (map (block_fields s ?m) ks) @ [?last])"
    using holds_table_fields [OF t'(1,3)] le tot by (simp add: block_table_fields_def)
  show "holds (membit tab) (i * w) (block_fields s ?m (ks ! i))" by (rule holds_nth [OF h ws i])
  have "Suc i * w \<le> length ks * w" using i by (intro mult_right_mono) auto
  then show p: "i * w + w \<le> 8 * length btab" using le by simp
  have "length btab < 268435456" using t'(2) bt(3) by simp
  then have "i * w < 2147483648" using p by linarith
  then have "int (i * w) < int 2147483648" by (simp only: of_nat_less_iff)
  then show "int (i * w) < 2147483648" by simp
  assume l: "Suc i = length ks"
  have ne: "ks \<noteq> []" using i by auto
  then have "last ks = ks ! i" by (simp add: last_conv_nth flip: l)
  with ne have "concat (map (block_fields s ?m) ks) = concat (map (block_fields s ?m) (butlast ks)) @ block_fields s ?m (ks ! i)"
    by (subst append_butlast_last_id [symmetric]) auto
  moreover have "width_sum (concat (map (block_fields s ?m) (butlast ks))) = i * w"
    unfolding l [symmetric] by (simp add: width_sum_concat ws flip: l)
  ultimately show "holds (membit tab) (i * w) (block_fields s ?m (ks ! i) @ [?last])"
    using h by (simp add: holds_append ws)
  show "i * w + (w + unat (kb_size (sb_kbits s))) \<le> 8 * length btab"
    using le unfolding l [symmetric] by simp
qed

lemma block_entry_values:
  assumes k: "block_fields_exact s ks" "ks ! i \<in> set ks" and r: "bl_compressed_size (ks ! i) < 2 ^ 31"
  shows "map field_value (block_fields s (min_compressed ks) (ks ! i)) =
      [to_u32 (bl_offset (ks ! i)), to_u32 (bl_compressed_size (ks ! i) - min_compressed ks)]"
    and "uint (to_u32 (bl_compressed_size (ks ! i) - min_compressed ks) + min_compressed_size (sb_min s)) =
      bl_compressed_size (ks ! i)"
    and "field_value (sint (kb_size (sb_kbits s)), to_u32 (bl_size (last ks))) = to_u32 (bl_size (last ks))"
proof -
  let ?m = "min_compressed ks"
  have x: "?m \<le> bl_compressed_size (ks ! i)" "uint (min_compressed_size (sb_min s)) = ?m"
    using k by (simp_all add: block_fields_exact_def)
  then have "0 \<le> ?m" "min_compressed_size (sb_min s) = to_u32 ?m"
    by (metis uint_nonnegative, metis word_of_int_uint)
  then show "uint (to_u32 (bl_compressed_size (ks ! i) - ?m) + min_compressed_size (sb_min s)) =
      bl_compressed_size (ks ! i)"
    using uint_to_u32_id [of "bl_compressed_size (ks ! i)"] r x(1) by simp
qed (use k in \<open>simp_all add: block_fields_exact_def\<close>)

lemma block_bits_ok:
  assumes t: "holds_table tab btab" "int (length btab) = block_table_size s"
      "holds (membit btab) 0 (block_table_fields s ks)"
    and k: "block_fields_exact s ks" "int (length ks) = uint (sb_blocks s)" "length ks \<le> 2 ^ 20"
    and r: "\<forall>x \<in> set ks. 0 \<le> bl_offset x \<and> bl_offset x < 2 ^ 31 \<and> bl_compressed_size x < 2 ^ 31 \<and>
      0 \<le> bl_size x \<and> bl_size x < 2 ^ 31"
    and full: "\<forall>i. Suc i < length ks \<longrightarrow> bl_size (ks ! i) = uint (sb_block_size s)"
    and sz: "0 \<le> sz" "sz < 2 ^ 28" and i: "i < length ks"
  shows "block_bits_at s tab sz (max_block_size (sb_kbits s)) (int i) =
    Ok \<lparr>ik_offset = bl_offset (ks ! i), ik_size = bl_size (ks ! i),
        ik_compressed_size = bl_compressed_size (ks ! i)\<rparr>"
proof -
  let ?m = "min_compressed ks" and ?w = "nat (max_block_size (sb_kbits s))" and ?k = "ks ! i"
  let ?last = "(sint (kb_size (sb_kbits s)), to_u32 (bl_size (last ks)))"
  have be: "block_entries s tab btab ks" using t k by (simp add: block_entries_def)
  note at = block_entries_at [OF be i] and bw = block_fields_width [OF k(1)]
  have rk: "0 \<le> bl_offset ?k" "bl_offset ?k < 2 ^ 31" "bl_compressed_size ?k < 2 ^ 31"
    "0 \<le> bl_size ?k" "bl_size ?k < 2 ^ 31" using r i by simp_all
  note x = block_entry_values [OF k(1) nth_mem [OF i] rk(3)]
  have e: "int i * max_block_size (sb_kbits s) = int (i * ?w)" by (simp add: max_block_size_def)
  let ?b = "\<lparr>bb_buffer = tab, bb_end = sz, bb_size = sz, bb_bsize = sz * 8, bb_index = int (i * ?w), bb_external = True\<rparr>"
  show ?thesis
  proof (cases "Suc i < length ks")
    case True
    obtain b' where "getbits_seq (map fst (block_fields s ?m ?k)) ?b = Ok (map field_value (block_fields s ?m ?k), b')"
      using get_table_fields [OF t(1) bw(2) at(1)] at(2) by (auto simp: bw(1))
    then obtain b1 b2 where g: "bitbuffer_getbits ?b (sint (kb_offset (sb_kbits s))) = Ok (to_u32 (bl_offset ?k), b1)"
      "bitbuffer_getbits b1 (sint (kb_compressed_size (sb_kbits s))) = Ok (to_u32 (bl_compressed_size ?k - ?m), b2)"
      unfolding x(1) by (auto simp: block_fields_def)
    have "int i + 1 < uint (sb_blocks s)" using True k(2) by linarith
    then show ?thesis
      unfolding block_bits_at_def e
      using sz at(3) g x(2) rk full True by (subst init_setpos) auto
  next
    case False
    then have l: "Suc i = length ks" using i by linarith
    have "ks \<noteq> []" using i by auto
    then have lk: "last ks = ?k" by (simp add: last_conv_nth flip: l)
    have wo: "widths_ok (block_fields s ?m ?k @ [?last])" using bw(2,3) by (simp add: width_sint)
    have "i * ?w + width_sum (block_fields s ?m ?k @ [?last]) \<le> 8 * length btab"
      using at(5) [OF l] bw(3) by (simp add: bw(1) width_sint)
    then obtain b' where "getbits_seq (map fst (block_fields s ?m ?k @ [?last])) ?b =
        Ok (map field_value (block_fields s ?m ?k @ [?last]), b')"
      using get_table_fields [OF t(1) wo at(4) [OF l]] by blast
    then obtain b1 b2 b3 where g: "bitbuffer_getbits ?b (sint (kb_offset (sb_kbits s))) = Ok (to_u32 (bl_offset ?k), b1)"
      "bitbuffer_getbits b1 (sint (kb_compressed_size (sb_kbits s))) = Ok (to_u32 (bl_compressed_size ?k - ?m), b2)"
      "bitbuffer_getbits b2 (sint (kb_size (sb_kbits s))) = Ok (to_u32 (bl_size ?k), b3)"
      unfolding map_append x(1) using x(3) lk by (auto simp: block_fields_def)
    have "\<not> int i + 1 < uint (sb_blocks s)" using l k(2) by linarith
    then show ?thesis
      unfolding block_bits_at_def e
      using sz at(3) g x(2) rk by (subst init_setpos) auto
  qed
qed

text \<open>The entry of a block in a good table leads to the block.\<close>

lemma length_block_bytes_full:
  assumes "Suc i < nat (block_count k entry)"
  shows "length (block_bytes k entry i) = 2 ^ k"
proof -
  have "int (Suc i) < block_count k entry" using assms by linarith
  then have "int (Suc i) * 2 ^ k < int (length entry)" by (subst (asm) block_count_less) auto
  then have "Suc i * 2 ^ k < length entry" by (metis of_nat_less_iff of_nat_mult of_nat_numeral of_nat_power)
  then show ?thesis by (simp add: block_bytes_def)
qed

lemma block_bits_stored:
  assumes t: "holds_table tab btab" and g: "block_table_good s ks btab"
    and st: "stored_blocks_ok decomp k entry data ks" and el: "length entry < 2 ^ 31"
    and bs: "block_size_ok s k" and sz: "0 \<le> sz" "sz < 2 ^ 28" and b: "0 \<le> b" "b < block_count k entry"
  shows "\<exists>off cs. block_bits_at s tab sz (max_block_size (sb_kbits s)) b =
      Ok \<lparr>ik_offset = off, ik_size = int (length (block_bytes k entry (nat b))), ik_compressed_size = cs\<rparr> \<and>
    0 \<le> off \<and> 0 \<le> cs \<and> cs \<le> int (length (block_bytes k entry (nat b))) \<and> off + cs \<le> int (length data) \<and>
    decomp (take (nat cs) (drop (nat off) data)) (int (length (block_bytes k entry (nat b)))) =
      (int (length (block_bytes k entry (nat b))), block_bytes k entry (nat b))"
proof -
  have kl: "int (length ks) = block_count k entry" using st by (simp add: stored_blocks_ok_def)
  then have "nat b < length ks" using b by linarith
  note ks = kl this
  have x: "stored_block_ok decomp k entry data i (ks ! i)" if "i < length ks" for i
    using st that by (simp add: stored_blocks_ok_def)
  have r: "0 \<le> bl_offset x \<and> bl_offset x < 2 ^ 31 \<and> bl_compressed_size x < 2 ^ 31 \<and> 0 \<le> bl_size x \<and> bl_size x < 2 ^ 31"
    if "x \<in> set ks" for x
    using stored_block_range [OF st el that] by auto
  have "bl_size (ks ! i) = uint (sb_block_size s)" if "Suc i < length ks" for i
    using x [of i] that length_block_bytes_full [of i k entry] ks(1) block_size_okD(2) [OF bs]
    by (simp add: stored_block_ok_def)
  moreover have "block_fields_exact s ks" "int (length ks) = uint (sb_blocks s)" "length ks \<le> 2 ^ 20"
    "int (length btab) = block_table_size s" "holds (membit btab) 0 (block_table_fields s ks)"
    using g by (simp_all add: block_table_good_def)
  ultimately have "block_bits_at s tab sz (max_block_size (sb_kbits s)) (int (nat b)) =
      Ok \<lparr>ik_offset = bl_offset (ks ! nat b), ik_size = bl_size (ks ! nat b),
          ik_compressed_size = bl_compressed_size (ks ! nat b)\<rparr>"
    using block_bits_ok [OF t, of s ks sz "nat b"] r sz ks(2) by blast
  with x [OF ks(2)] b(1) show ?thesis by (auto simp: stored_block_ok_def)
qed

section \<open>What a reader gets of a node\<close>

definition expected_ctime :: "options \<Rightarrow> super_block \<Rightarrow> mnode \<Rightarrow> int" where
  "expected_ctime opt s n = uint (time_view (o_no_ctime opt) (ib_ctime (sb_ibits s))
     (uint (min_ctime (sb_min s))) (n_ctime n))"

definition expected_mtime :: "options \<Rightarrow> super_block \<Rightarrow> mnode \<Rightarrow> int" where
  "expected_mtime opt s n = (if o_no_mtime opt then expected_ctime opt s n
     else uint (time_view False (ib_mtime (sb_ibits s)) (uint (min_mtime (sb_min s))) (n_mtime n)))"

definition expected_node :: "options \<Rightarrow> super_block \<Rightarrow> int \<Rightarrow> mnode \<Rightarrow> node" where
  "expected_node opt s number n =
     \<lparr>nd_number = number, nd_type = n_type n, nd_owner_mode = n_owner_mode n,
      nd_group_mode = (if o_no_group_mode opt then n_owner_mode n else n_group_mode n),
      nd_other_mode = (if o_no_other_mode opt then n_owner_mode n else n_other_mode n),
      nd_uid = (if o_no_uid opt then 0 else n_uid n), nd_gid = (if o_no_gid opt then 0 else n_gid n),
      nd_ctime = expected_ctime opt s n, nd_mtime = expected_mtime opt s n,
      nd_size = n_size n, nd_block = n_block n, nd_index = n_index n\<rparr>"

lemma node_placed_range:
  assumes "node_placed s k entry n" and "length entry < 2 ^ 31"
  shows "0 \<le> n_size n" "n_size n < 2 ^ 31" "0 \<le> n_block n" "n_block n < 2 ^ 31" "0 \<le> n_index n" "n_index n < 2 ^ 31"
proof -
  have "n_block n * 1 \<le> n_block n * 2 ^ k"
    using assms(1) by (intro mult_left_mono) (simp_all add: node_placed_def)
  with assms show "0 \<le> n_size n" "n_size n < 2 ^ 31" "0 \<le> n_block n" "n_block n < 2 ^ 31"
    "0 \<le> n_index n" "n_index n < 2 ^ 31"
    by (auto simp: node_placed_def)
qed

lemma node_defaults_ok:
  assumes "node_ok n" and "node_placed s k entry n" and "length entry < 2 ^ 31"
    and "optional_bits opt s" and "sb_ctime s = 0"
  shows "node_defaults s (node_of number (inode_view opt s n)) = expected_node opt s number n"
proof -
  note r = node_placed_range [OF assms(2,3)]
  have t: "0 \<le> n_type n" "n_type n < 2 ^ 32"
    using assms(1) node_type_known [of n] by (auto simp: node_ok_def)
  have u: "uint (to_u32 v) = v" if "u32_range v" for v using that by (simp add: u32_range_def)
  show ?thesis
    using assms(1,4,5) r t u
    by (simp add: node_of_def inode_view_def node_defaults_def Let_def expected_node_def optional_bits_def
        node_ok_def expected_ctime_def expected_mtime_def time_view_def)
qed

section \<open>Reading a run of bytes\<close>

text \<open>A call the failure of which the code handles, with its two continuations.\<close>

fun attempt :: "'a res \<Rightarrow> 'b res \<Rightarrow> ('a \<Rightarrow> 'b res) \<Rightarrow> 'b res" where
  "attempt (Ok a) h f = f a"
| "attempt (Err e) h f = h"
| "attempt Undef h f = Undef"
| "attempt Timeout h f = Timeout"

lemma attempt_cong [fundef_cong]:
  "m = m' \<Longrightarrow> h = h' \<Longrightarrow> (\<And>a. m' = Ok a \<Longrightarrow> f a = f' a) \<Longrightarrow> attempt m h f = attempt m' h' f'"
  by (cases m') auto

text \<open>
  The loop of both \<open>node_read\<close> functions: while \<open>s < n\<close>, block \<open>b\<close> is fetched (its size
  and its bytes), and what it holds from \<open>i\<close> on is handed to the callback, which returns how
  much it has taken.  The result is 0 or -1, with the callback's context.  On a bad image a
  turn may make no progress, hence the fuel.
\<close>

type_synonym 'c callback = "'c \<Rightarrow> memory \<Rightarrow> int \<Rightarrow> (int \<times> 'c) res"

fun read_loop :: "nat \<Rightarrow> (int \<Rightarrow> (int \<times> memory) res) \<Rightarrow> 'c callback \<Rightarrow>
    int \<Rightarrow> int \<Rightarrow> int \<Rightarrow> int \<Rightarrow> 'c \<Rightarrow> (int \<times> 'c) res" where
  "read_loop 0 fetch fn n s i b c = Timeout"
| "read_loop (Suc fuel) fetch fn n s i b c =
     (if s < n then
        attempt (fetch b) (Ok (-1, c)) (\<lambda>(sz, d).
        let m = min (n - s) (sz - i) in
        rbind (mem_slice d i m) (\<lambda>x.
        rbind (fn c x m) (\<lambda>(rc, c).
        if rc \<noteq> m then Ok (-1, c)
        else read_loop fuel fetch fn n (s + m) 0 (b + 1) c)))
      else Ok (0, c))"

text \<open>
  The callbacks that copy to where a pointer into a fresh object points, and move it on: the
  context is the size of the object and the bytes that have been written to it.
\<close>

definition node_read_copy :: "(int \<times> memory) callback" where
  "node_read_copy = (\<lambda>(cap, w) x n.
     if int (length w + length x) \<le> cap then Ok (to_s32 n, (cap, w @ x)) else Undef)"

text \<open>
  What the loop relies on: \<open>fetch st b\<close> delivers block \<open>b\<close> of the entry data, whatever
  way the blocks come from the image.  \<open>wf st k entry\<close> says that \<open>st\<close> serves the entry data
  \<open>entry\<close> in blocks of \<open>2 ^ k\<close> bytes.
\<close>

locale block_source =
  fixes fetch :: "'s \<Rightarrow> int \<Rightarrow> (int \<times> memory) res"
    and wf :: "'s \<Rightarrow> nat \<Rightarrow> memory \<Rightarrow> bool"
  assumes fetch_block: "wf st k entry \<Longrightarrow> 0 \<le> b \<Longrightarrow> b < block_count k entry \<Longrightarrow>
    fetch st b = Ok (int (length (block_bytes k entry (nat b))), block_bytes k entry (nat b))"
begin

text \<open>
  The turn of a loop that still has \<open>m\<close> bytes to read from offset \<open>i\<close> of block \<open>b\<close> on: the
  block is there, and what it holds of them is the next part of the entry data.
\<close>

lemma fetch_chunk:
  assumes wf: "wf st k entry" and b: "0 \<le> b" "0 \<le> i" "i < 2 ^ k" and m: "0 < m"
    and le: "b * 2 ^ k + i + m \<le> int (length entry)"
  obtains d where "fetch st b = Ok (int (length d), d)" "d = block_bytes k entry (nat b)" "i < int (length d)"
    "0 < min m (int (length d) - i)"
    "mem_slice d i (min m (int (length d) - i)) =
       Ok (take (nat (min m (int (length d) - i))) (drop (nat (b * 2 ^ k + i)) entry))"
    "min m (int (length d) - i) = m \<or> (b + 1) * 2 ^ k = b * 2 ^ k + i + min m (int (length d) - i)"
proof -
  define d where "d = block_bytes k entry (nat b)"
  define o' where "o' = nat b * 2 ^ k"
  have p: "int o' = b * 2 ^ k" using b(1) by (simp add: o'_def)
  have "b * 2 ^ k < int (length entry)" using b(2) m le by linarith
  then have "b < block_count k entry" using block_count_less [OF b(1)] by simp
  with wf b(1) have f: "fetch st b = Ok (int (length d), d)" by (simp add: fetch_block d_def)
  have "int o' < int (length entry)" using p b(2) m le by linarith
  then have ol: "o' \<le> length entry" by simp
  have "length d = min (length entry - o') (2 ^ k)" by (simp add: d_def block_bytes_def o'_def min.commute)
  then have dl: "int (length d) = min (2 ^ k) (int (length entry) - int o')"
    using ol by (simp add: of_nat_diff of_nat_min min.commute)
  then have i: "i < int (length d)" using b(3) p m le by simp
  let ?n = "min m (int (length d) - i)"
  have "take (nat ?n) (drop (nat i) d) = take (nat ?n) (drop (nat (int o' + i)) entry)"
  proof -
    have o: "nat (int o' + i) = o' + nat i" using b(2) by (simp add: nat_add_distrib)
    have n: "nat ?n \<le> 2 ^ k - nat i"
    proof -
      have "nat i \<le> 2 ^ k" using b(2,3) by (simp add: nat_le_iff)
      then have "int (2 ^ k - nat i) = 2 ^ k - i" using b(2) by (simp add: of_nat_diff)
      moreover have "?n \<le> 2 ^ k - i" using dl by linarith
      ultimately show ?thesis by linarith
    qed
    have t: "take c (drop j (take (2 ^ k) xs)) = take c (drop j xs)" if "c \<le> 2 ^ k - j" for c j xs
      using that by (simp only: drop_take take_take min_absorb1)
    have d: "d = take (2 ^ k) (drop o' entry)" by (simp only: d_def block_bytes_def flip: o'_def)
    show ?thesis using t [OF n, of "drop o' entry"] by (simp only: o drop_drop add.commute [of "nat i"] flip: d)
  qed
  then have s: "mem_slice d i ?n = Ok (take (nat ?n) (drop (nat (b * 2 ^ k + i)) entry))"
    using b(2) i m by (simp add: p)
  have "int o' + i + m \<le> int (length entry)" using p le by simp
  then have "m \<le> int (length entry) - int o' - i" by linarith
  then have "?n = m \<or> ?n = 2 ^ k - i" by (cases "2 ^ k \<le> int (length entry) - int o'") (simp_all add: dl min_def)
  then have e: "?n = m \<or> (b + 1) * 2 ^ k = b * 2 ^ k + i + ?n" by (auto simp: distrib_right)
  have "0 < ?n" using m i by simp
  from that [OF f d_def i this s e] show thesis .
qed

text \<open>
  The loop hands the next \<open>n - s\<close> bytes of the entry data to the callback, whole blocks at
  a time, when it starts inside a block; \<open>R c acc\<close> says that \<open>acc\<close> is what the callback has
  taken so far.
\<close>

lemma read_loop_ok:
  assumes wf: "wf st k entry" and step: "\<And>c acc x. R c acc \<Longrightarrow> x \<noteq> [] \<Longrightarrow>
      int (length (acc @ x)) \<le> n \<Longrightarrow> \<exists>c'. fn c x (int (length x)) = Ok (int (length x), c') \<and> R c' (acc @ x)"
  shows "R c acc \<Longrightarrow> int (length acc) = s \<Longrightarrow> s \<le> n \<Longrightarrow> 0 \<le> b \<Longrightarrow> 0 \<le> i \<Longrightarrow> i < 2 ^ k \<Longrightarrow>
    b * 2 ^ k + i + (n - s) \<le> int (length entry) \<Longrightarrow> nat (n - s) < fuel \<Longrightarrow>
    \<exists>c'. read_loop fuel (fetch st) fn n s i b c = Ok (0, c') \<and>
      R c' (acc @ take (nat (n - s)) (drop (nat (b * 2 ^ k + i)) entry))"
proof (induction fuel arbitrary: s i b c acc)
  case (Suc fuel)
  show ?case
  proof (cases "s < n")
    case False
    then show ?thesis using Suc.prems by simp
  next
    case True
    define p where "p = b * 2 ^ k + i"
    have p: "0 \<le> p" using Suc.prems(4,5) by (simp add: p_def)
    have "0 < n - s" using True by simp
    from wf Suc.prems(4-6) this Suc.prems(7) obtain d where d: "fetch st b = Ok (int (length d), d)"
      "0 < min (n - s) (int (length d) - i)"
      "mem_slice d i (min (n - s) (int (length d) - i)) =
         Ok (take (nat (min (n - s) (int (length d) - i))) (drop (nat p) entry))"
      "min (n - s) (int (length d) - i) = n - s \<or>
       (b + 1) * 2 ^ k = p + min (n - s) (int (length d) - i)"
      unfolding p_def by (rule fetch_chunk)
    define m where "m = min (n - s) (int (length d) - i)"
    define x where "x = take (nat m) (drop (nat p) entry)"
    have m: "0 < m" "m \<le> n - s" using d(2) by (simp_all add: m_def)
    have le: "p + (n - s) \<le> int (length entry)" using Suc.prems(7) by (simp add: p_def)
    then have lx: "int (length x) = m" using m p by (simp add: x_def)
    then have "x \<noteq> []" "int (length (acc @ x)) \<le> n" using m Suc.prems(2) by auto
    from step [OF Suc.prems(1) this] obtain c1 where c1: "fn c x m = Ok (m, c1)" "R c1 (acc @ x)"
      by (auto simp: lx)
    have r: "read_loop (Suc fuel) (fetch st) fn n s i b c = read_loop fuel (fetch st) fn n (s + m) 0 (b + 1) c1"
      using True d(1) d(3) [folded m_def x_def] c1(1) by (simp add: Let_def flip: m_def)
    have split: "take (nat (n - s)) (drop (nat p) entry) =
        x @ take (nat (n - (s + m))) (drop (nat (p + m)) entry)"
    proof -
      have "nat (n - s) = nat m + nat (n - (s + m))" using m by (simp flip: nat_add_distrib)
      moreover have "nat (p + m) = nat p + nat m" using m p by (simp add: nat_add_distrib)
      ultimately show ?thesis by (simp only: x_def take_drop_append)
    qed
    have f: "nat (n - (s + m)) < fuel" using m Suc.prems(8) by linarith
    have l1: "int (length (acc @ x)) = s + m" using Suc.prems(2) lx by simp
    show ?thesis
    proof (cases "m = n - s")
      case True
      then have "read_loop fuel (fetch st) fn n (s + m) 0 (b + 1) c1 = Ok (0, c1)"
        using f by (cases fuel) auto
      moreover have "nat (n - (s + m)) = 0" using True by simp
      then have "take (nat (n - s)) (drop (nat p) entry) = x" using split by (simp only: take_0 append_Nil2)
      ultimately show ?thesis
        unfolding p_def [symmetric] using r c1(2) by (simp del: read_loop.simps)
    next
      case False
      then have b1: "(b + 1) * 2 ^ k = p + m" using d(4) unfolding m_def by blast
      then have "(b + 1) * 2 ^ k + 0 + (n - (s + m)) \<le> int (length entry)" using le by simp
      moreover have "0 \<le> b + 1" "s + m \<le> n" using Suc.prems(4) m by simp_all
      ultimately obtain c' where "read_loop fuel (fetch st) fn n (s + m) 0 (b + 1) c1 = Ok (0, c')"
        "R c' ((acc @ x) @ take (nat (n - (s + m))) (drop (nat ((b + 1) * 2 ^ k + 0)) entry))"
        using Suc.IH [OF c1(2) l1 _ _ _ _ _ f, of "b + 1" 0] by auto
      then show ?thesis
        unfolding p_def [symmetric] using r split b1 by (simp del: read_loop.simps)
    qed
  qed
qed simp

text \<open>With the copying callback the bytes end up in the object.\<close>

lemma read_copy_ok:
  assumes "wf st k entry" and "0 \<le> b" and "0 \<le> i" and "i < 2 ^ k"
    and "b * 2 ^ k + i + n \<le> int (length entry)" and "0 \<le> n" and "n < 2 ^ 31" and "n \<le> cap" and "nat n < fuel"
  shows "read_loop fuel (fetch st) node_read_copy n 0 i b (cap, []) =
    Ok (0, (cap, take (nat n) (drop (nat (b * 2 ^ k + i)) entry)))"
proof -
  define R where "R = (\<lambda>(c :: int \<times> memory) acc. c = (cap, acc))"
  have "\<exists>c'. node_read_copy c x (int (length x)) = Ok (int (length x), c') \<and> R c' (acc @ x)"
    if "R c acc" "int (length (acc @ x)) \<le> n" for c acc x
    using that assms(7,8) by (auto simp: node_read_copy_def R_def)
  moreover have "R (cap, []) []" by (simp add: R_def)
  ultimately obtain c' where "read_loop fuel (fetch st) node_read_copy n 0 i b (cap, []) = Ok (0, c')"
    "R c' ([] @ take (nat (n - 0)) (drop (nat (b * 2 ^ k + i)) entry))"
    using read_loop_ok [OF assms(1), of R n node_read_copy "(cap, [])" "[]" 0 b i fuel] assms(2-6,9) by auto
  then show ?thesis by (simp add: R_def)
qed

end

end
