(* ===== verification/Kernel_Device.thy ===== *)
theory Kernel_Device
  imports Smash_Prelude
begin

text \<open>
  \<open>src/linux/super.c\<close>, \<open>smashfs_read\<close>: bytes of the block device, from any offset, are
  copied into an object of the caller through the buffer cache.

  The kernel is not part of this repository.  What its functions answer is in the record
  \<open>kernel_env\<close>: the allocators, the device as the list of its bytes in device blocks, and
  whether a block can be got and read.  A page has 4096 bytes.
\<close>

unbundle bit_operations_syntax

record kernel_env =
  ke_alloc :: heap
  ke_cache_create :: "int \<Rightarrow> bool"
  ke_cache_alloc :: "nat \<Rightarrow> bool"
  ke_context :: "nat \<Rightarrow> bool"
  ke_min_blocksize :: int
  ke_getblk :: "int \<Rightarrow> bool"
  ke_uptodate :: "int \<Rightarrow> bool"
  ke_data :: "int \<Rightarrow> memory"
  ke_new_inode :: "int option"
  ke_iget :: bool
  ke_d_alloc_root :: bool

definition PAGE_CACHE_SHIFT :: nat where
  "PAGE_CACHE_SHIFT = 12"

definition PAGE_CACHE_SIZE :: int where
  "PAGE_CACHE_SIZE = 4096"

text \<open>The error codes as the negative numbers that the code returns.\<close>

definition eio :: int where "eio = -5"
definition enomem :: int where "enomem = -12"
definition einval :: int where "einval = -22"

definition kcalloc_ok :: "heap \<Rightarrow> int \<Rightarrow> int \<Rightarrow> bool" where
  "kcalloc_ok alloc n m \<longleftrightarrow> 0 \<le> n \<and> malloc_ok alloc (n * m)"

section \<open>The function\<close>

text \<open>
  The loop that gets the blocks: \<open>b\<close> of the \<open>blocks\<close> slots of the array are in use.  Writing
  past the array is \<open>Undef\<close>, \<open>None\<close> is a block that cannot be got.
\<close>

function get_blocks :: "kernel_env \<Rightarrow> int \<Rightarrow> int \<Rightarrow> int \<Rightarrow> int \<Rightarrow> int \<Rightarrow> int \<Rightarrow> int list option res" where
  "get_blocks env bs blocks b block bytes len =
     (if bytes < len then
        if \<not> b < blocks then Undef
        else if \<not> ke_getblk env block then Ok None
        else rbind (c_int (bytes + bs)) (\<lambda>bytes.
             rbind (get_blocks env bs blocks (b + 1) (block + 1) bytes len) (\<lambda>r.
             Ok (case r of None \<Rightarrow> None | Some xs \<Rightarrow> Some (block # xs))))
      else Ok (Some []))"
  by pat_completeness auto
termination
  by (relation "measure (\<lambda>(env, bs, blocks, b, block, bytes, len). nat (blocks - b))") auto

text \<open>
  The inner copying loop: \<open>inn\<close> bytes from \<open>index\<close> on of a block's \<open>data\<close> to the pages, which
  lie one after the other in the destination \<open>buf\<close>.  A \<open>memcpy\<close> of a negative size is
  \<open>Undef\<close>, and so is a page behind the array of pages.
\<close>

function copy_block ::
  "int \<Rightarrow> memory \<Rightarrow> int \<Rightarrow> int \<Rightarrow> int \<Rightarrow> int \<Rightarrow> memory \<Rightarrow> (int \<times> int \<times> memory) res" where
  "copy_block pages data inn index page pageoff buf =
     (if inn = 0 then Ok (page, pageoff, buf)
      else
        let (page, pageoff) = (if pageoff = PAGE_CACHE_SIZE then (page + 1, 0) else (page, pageoff));
            avail = min inn (PAGE_CACHE_SIZE - pageoff)
        in if avail \<le> 0 \<or> \<not> page < pages then Undef
           else rbind (mem_slice data index avail) (\<lambda>x.
                rbind (mem_write buf (page * PAGE_CACHE_SIZE + pageoff) x) (\<lambda>buf.
                copy_block pages data (inn - avail) (index + avail) page (pageoff + avail) buf)))"
  by pat_completeness auto
termination
  by (relation "measure (\<lambda>(pages, data, inn, index, page, pageoff, buf). nat inn)") auto

declare get_blocks.simps [simp del] copy_block.simps [simp del]

text \<open>The outer loop over the data of the blocks; only the first one starts inside.\<close>

fun copy_blocks ::
  "int \<Rightarrow> int \<Rightarrow> memory list \<Rightarrow> int \<Rightarrow> int \<Rightarrow> int \<Rightarrow> int \<Rightarrow> memory \<Rightarrow> memory res" where
  "copy_blocks pages bs [] bytes index page pageoff buf = Ok buf"
| "copy_blocks pages bs (d # ds) bytes index page pageoff buf =
     (let inn = min bytes (bs - index) in
      rbind (copy_block pages d inn index page pageoff buf) (\<lambda>(page, pageoff, buf).
      copy_blocks pages bs ds (bytes - inn) 0 page pageoff buf))"

text \<open>
  The result is the \<open>int\<close> that the C function returns and the destination afterwards; \<open>bs\<close>
  and \<open>log2\<close> are \<open>devblksize\<close> and \<open>devblksize_log2\<close>.
\<close>

definition smashfs_read :: "kernel_env \<Rightarrow> int \<Rightarrow> int \<Rightarrow> memory \<Rightarrow> int \<Rightarrow> int \<Rightarrow> (int \<times> memory) res" where
  "smashfs_read env bs log2 buf offset len =
     rbind (c_int (len + PAGE_CACHE_SIZE - 1)) (\<lambda>l.
     let pages = drop_bit PAGE_CACHE_SHIFT l in
     if \<not> kcalloc_ok (ke_alloc env) pages 8 then Ok (enomem, buf)
     else
       let index = offset AND (push_bit (nat log2) 1 - 1); block = drop_bit (nat log2) offset in
       rbind (c_int (len + bs - 1)) (\<lambda>l.
       let blocks = drop_bit (nat log2) l + 1 in
       if \<not> kcalloc_ok (ke_alloc env) blocks 8 then Ok (enomem, buf)
       else rbind (get_blocks env bs blocks 0 block (- index) len) (\<lambda>r.
         case r of
           None \<Rightarrow> Ok (eio, buf)
         | Some bh \<Rightarrow>
             if \<not> list_all (ke_uptodate env) bh then Ok (eio, buf)
             else rbind (copy_blocks pages bs (map (ke_data env) bh) len index 0 0 buf) (\<lambda>buf.
                  Ok (len, buf)))))"

section \<open>It reads the bytes of the device\<close>

lemma get_blocks_ok:
  assumes bs: "0 < bs" and g: "\<And>j. block \<le> j \<Longrightarrow> j < block + int n \<Longrightarrow> ke_getblk env j"
    and n: "len \<le> bytes + int n * bs" "n = 0 \<or> bytes + (int n - 1) * bs < len"
    and b: "b + int n \<le> blocks" and r: "- (2 ^ 31) \<le> bytes" "bytes + int n * bs < 2 ^ 31"
  shows "get_blocks env bs blocks b block bytes len = Ok (Some (map (\<lambda>i. block + int i) [0..<n]))"
  using g n b r
proof (induction n arbitrary: b block bytes)
  case 0
  then show ?case by (subst get_blocks.simps) simp
next
  case (Suc n)
  have nb: "0 \<le> int n * bs" using bs by simp
  have e: "bytes + int (Suc n) * bs = (bytes + bs) + int n * bs" by (simp add: algebra_simps)
  have lt: "bytes + int n * bs < len" using Suc.prems(3) by simp
  then have "bytes < len" "b < blocks" "ke_getblk env block" using nb Suc.prems(1,4) by simp_all
  moreover have "bytes + bs + int n * bs < 2147483648" "- 2147483648 \<le> bytes"
    using Suc.prems(5,6) unfolding e by simp_all
  then have "c_int (bytes + bs) = Ok (bytes + bs)" using bs nb by (intro c_int_Ok) linarith+
  moreover have "n = 0 \<or> (bytes + bs) + (int n - 1) * bs < len" using lt by (simp add: algebra_simps)
  then have "get_blocks env bs blocks (b + 1) (block + 1) (bytes + bs) len =
      Ok (Some (map (\<lambda>i. block + 1 + int i) [0..<n]))"
    using Suc.prems bs unfolding e by (intro Suc.IH) simp_all
  moreover have "map (\<lambda>i. block + int i) [0..<Suc n] = block # map (\<lambda>i. block + 1 + int i) [0..<n]"
    by (simp add: map_upt_Suc add.assoc add.commute add.left_commute del: upt_Suc)
  ultimately show ?case by (subst get_blocks.simps) simp
qed

text \<open>The destination after \<open>x\<close> has been written at \<open>p\<close>.\<close>

definition patch :: "memory \<Rightarrow> nat \<Rightarrow> memory \<Rightarrow> memory" where
  "patch buf p x = take p buf @ x @ drop (p + length x) buf"

lemma patch_Nil [simp]: "patch buf p [] = buf"
  by (simp add: patch_def)

lemma length_patch [simp]: "p + length x \<le> length buf \<Longrightarrow> length (patch buf p x) = length buf"
  by (simp add: patch_def)

lemma patch_patch:
  assumes "p + length x \<le> length buf"
  shows "patch (patch buf p x) (p + length x) y = patch buf p (x @ y)"
  using assms by (simp add: patch_def add.commute add.left_commute)

lemma mem_write_patch:
  assumes "p + length x \<le> length buf"
  shows "mem_write buf (int p) x = Ok (patch buf p x)"
  using assms by (simp add: patch_def)

text \<open>\<open>page\<close> and \<open>pageoff\<close> stand for the position \<open>p\<close> of the destination.\<close>

definition page_pos :: "int \<Rightarrow> int \<Rightarrow> nat \<Rightarrow> bool" where
  "page_pos page pageoff p \<longleftrightarrow> 0 \<le> page \<and> 0 \<le> pageoff \<and> pageoff \<le> PAGE_CACHE_SIZE \<and>
     page * PAGE_CACHE_SIZE + pageoff = int p"

lemma copy_block_ok:
  assumes "page_pos page pageoff p" and "p + n \<le> length buf" and "int (p + n) \<le> pages * PAGE_CACHE_SIZE"
    and "i + n \<le> length data"
  shows "\<exists>page' pageoff'. copy_block pages data (int n) (int i) page pageoff buf =
      Ok (page', pageoff', patch buf p (take n (drop i data))) \<and> page_pos page' pageoff' (p + n)"
  using assms
proof (induction n arbitrary: i page pageoff p buf rule: less_induct)
  case (less n)
  show ?case
  proof (cases "n = 0")
    case True
    then show ?thesis using less.prems by (subst copy_block.simps) simp
  next
    case False
    define pg po where "pg = (if pageoff = PAGE_CACHE_SIZE then page + 1 else page)"
      and "po = (if pageoff = PAGE_CACHE_SIZE then 0 else pageoff)"
    have pp: "page_pos pg po p" "po < PAGE_CACHE_SIZE"
      using less.prems(1) by (auto simp: page_pos_def pg_def po_def PAGE_CACHE_SIZE_def)
    define a where "a = nat (min (int n) (PAGE_CACHE_SIZE - po))"
    have a: "int a = min (int n) (PAGE_CACHE_SIZE - po)" "0 < a" "a \<le> n"
      using False pp(2) by (simp_all add: a_def)
    have "pg * PAGE_CACHE_SIZE < pages * PAGE_CACHE_SIZE"
      using pp less.prems(3) False unfolding page_pos_def by linarith
    then have pg: "pg < pages" by (simp add: PAGE_CACHE_SIZE_def)
    let ?x = "take a (drop i data)"
    have x: "mem_slice data (int i) (int a) = Ok ?x" "length ?x = a" using a(3) less.prems(4) by simp_all
    have w: "mem_write buf (pg * PAGE_CACHE_SIZE + po) ?x = Ok (patch buf p ?x)"
      using mem_write_patch [of p ?x buf] pp(1) a(3) less.prems(2) x(2) by (simp add: page_pos_def)
    have "page_pos pg (po + int a) (p + a)" using pp a(1) by (simp add: page_pos_def)
    moreover have "n - a < n" using a by simp
    ultimately obtain page' pageoff' where r:
      "copy_block pages data (int (n - a)) (int (i + a)) pg (po + int a) (patch buf p ?x) =
        Ok (page', pageoff', patch (patch buf p ?x) (p + a) (take (n - a) (drop (i + a) data)))"
      "page_pos page' pageoff' (p + a + (n - a))"
      using less.IH [of "n - a" pg "po + int a" "p + a" "patch buf p ?x" "i + a"] less.prems(2-4) a(3) x(2) by auto
    have e: "int n - int a = int (n - a)" "int i + int a = int (i + a)" using a(3) by simp_all
    have c: "(if pageoff = PAGE_CACHE_SIZE then (page + 1, 0) else (page, pageoff)) = (pg, po)"
      by (simp add: pg_def po_def)
    have "copy_block pages data (int n) (int i) page pageoff buf =
        copy_block pages data (int (n - a)) (int (i + a)) pg (po + int a) (patch buf p ?x)"
      using False a(2) pg x(1) w by (subst copy_block.simps) (simp add: c Let_def flip: a(1) e)
    moreover have "patch (patch buf p ?x) (p + a) (take (n - a) (drop (i + a) data)) =
        patch buf p (take n (drop i data))"
      using patch_patch [of p ?x buf] take_drop_append [of a i data "n - a"] a(3) less.prems(2) x(2) by simp
    ultimately show ?thesis using r a(3) by simp
  qed
qed

lemma copy_blocks_ok:
  assumes "page_pos page pageoff p" and "p + n \<le> length buf" and "int (p + n) \<le> pages * PAGE_CACHE_SIZE"
    and "\<forall>d \<in> set ds. length d = bs" and "i < bs" and "i + n \<le> length (concat ds)"
  shows "copy_blocks pages (int bs) ds (int n) (int i) page pageoff buf =
    Ok (patch buf p (take n (drop i (concat ds))))"
  using assms
proof (induction ds arbitrary: n i page pageoff p buf)
  case Nil
  then show ?case by simp
next
  case (Cons d ds)
  define a where "a = min n (bs - i)"
  have a: "int a = min (int n) (int bs - int i)" "a \<le> n" "i + a \<le> length d"
    using Cons.prems(4,5) by (simp_all add: a_def of_nat_diff)
  obtain page' pageoff' where c: "copy_block pages d (int a) (int i) page pageoff buf =
      Ok (page', pageoff', patch buf p (take a (drop i d)))" "page_pos page' pageoff' (p + a)"
    using copy_block_ok [of page pageoff p a buf pages i d] Cons.prems a by auto
  have l: "length (take a (drop i d)) = a" using a(3) by simp
  have "n - a \<le> length (concat ds)" using Cons.prems(4,6) by (auto simp: a_def)
  then have IH: "copy_blocks pages (int bs) ds (int (n - a)) (int 0) page' pageoff' (patch buf p (take a (drop i d))) =
      Ok (patch (patch buf p (take a (drop i d))) (p + a) (take (n - a) (drop 0 (concat ds))))"
    using Cons.prems(2-5) c(2) a(2) l by (intro Cons.IH) simp_all
  have e: "int n - int a = int (n - a)" using a(2) by simp
  have "copy_blocks pages (int bs) (d # ds) (int n) (int i) page pageoff buf =
      Ok (patch (patch buf p (take a (drop i d))) (p + a) (take (n - a) (concat ds)))"
    using IH unfolding copy_blocks.simps Let_def a(1) [symmetric] c(1)
    by (simp only: rbind.simps prod.case e semiring_1_class.of_nat_0 drop_0)
  moreover have "patch (patch buf p (take a (drop i d))) (p + a) (take (n - a) (concat ds)) =
      patch buf p (take a (drop i d) @ take (n - a) (concat ds))"
    using patch_patch [of p "take a (drop i d)" buf] l a(2) Cons.prems(2) by simp
  moreover have "take n (drop i (concat (d # ds))) = take a (drop i d) @ take (n - a) (concat ds)"
  proof -
    have "length d = bs" using Cons.prems(4) by simp
    then have d: "length (drop i d) = bs - i" by simp
    have "n - (bs - i) = n - a" by (simp add: a_def)
    moreover have "take n (drop i d) = take a (drop i d)"
      using d by (cases "n \<le> bs - i") (simp_all add: a_def)
    moreover have "i - length d = 0" using \<open>length d = bs\<close> Cons.prems(5) by simp
    ultimately show ?thesis using d by simp
  qed
  ultimately show ?case by simp
qed

text \<open>
  \<open>dev\<close> are the bytes of the device, in blocks of \<open>bs\<close> bytes, and the kernel can get and
  read each of them.
\<close>

definition device_ok :: "kernel_env \<Rightarrow> memory \<Rightarrow> nat \<Rightarrow> bool" where
  "device_ok env dev log \<longleftrightarrow> heap_ok (ke_alloc env) \<and> log \<le> 16 \<and> length dev mod 2 ^ log = 0 \<and>
     (\<forall>b. b < length dev div 2 ^ log \<longrightarrow> ke_getblk env (int b) \<and> ke_uptodate env (int b) \<and>
        ke_data env (int b) = take (2 ^ log) (drop (b * 2 ^ log) dev))"

lemma concat_device:
  assumes "device_ok env dev log" and "b + n \<le> length dev div 2 ^ log"
  shows "concat (map (\<lambda>i. ke_data env (int b + int i)) [0..<n]) = take (n * 2 ^ log) (drop (b * 2 ^ log) dev)"
  using assms(2)
proof (induction n)
  case (Suc n)
  have "b + n < length dev div 2 ^ log" using Suc.prems by simp
  then have "ke_data env (int (b + n)) = take (2 ^ log) (drop ((b + n) * 2 ^ log) dev)"
    using assms(1) unfolding device_ok_def by blast
  moreover have "take (n * 2 ^ log) (drop (b * 2 ^ log) dev) @ take (2 ^ log) (drop (b * 2 ^ log + n * 2 ^ log) dev) =
      take (n * 2 ^ log + 2 ^ log) (drop (b * 2 ^ log) dev)"
    by (rule take_drop_append)
  ultimately show ?case using Suc by (simp add: algebra_simps)
qed simp

text \<open>How many blocks of \<open>bs\<close> bytes the \<open>m\<close> bytes from index \<open>i\<close> of a block on reach into.\<close>

definition blocks_reached :: "nat \<Rightarrow> nat \<Rightarrow> nat \<Rightarrow> nat" where
  "blocks_reached bs m i = (m + i + (bs - 1)) div bs"

lemma blocks_reached:
  assumes "0 < bs"
  shows "m + i \<le> blocks_reached bs m i * bs"
    "blocks_reached bs m i \<noteq> 0 \<Longrightarrow> (blocks_reached bs m i - 1) * bs < m + i"
    "b * bs + (m + i) \<le> q * bs \<Longrightarrow> b + blocks_reached bs m i \<le> q"
proof -
  let ?n = "blocks_reached bs m i"
  have nb: "int x < int ?n \<longleftrightarrow> int x * int bs < int m + int i" for x
    using less_ceil_div [of "int bs" "int x" "int m + int i", unfolded add_diff_eq] assms
    by (simp add: blocks_reached_def zdiv_int of_nat_diff)
  show "m + i \<le> ?n * bs"
    using nb [of ?n] by (metis less_irrefl of_nat_add of_nat_le_iff of_nat_mult verit_comp_simplify1(3))
  show n2: "(?n - 1) * bs < m + i" if "?n \<noteq> 0"
  proof -
    have "int (?n - 1) < int ?n" using that by simp
    then show ?thesis unfolding nb by (metis of_nat_add of_nat_less_iff of_nat_mult)
  qed
  assume q: "b * bs + (m + i) \<le> q * bs"
  show "b + ?n \<le> q"
  proof (cases "?n = 0")
    case True
    have "b * bs \<le> q * bs" using q by linarith
    then show ?thesis using True assms by simp
  next
    case False
    have "(b + (?n - 1)) * bs < q * bs" using n2 [OF False] q by (simp add: add_mult_distrib)
    then have "b + (?n - 1) < q" by simp
    then show ?thesis using False by simp
  qed
qed

text \<open>The array of block numbers has room for them.\<close>

lemma blocks_reached_room:
  assumes "0 < bs" and "i < bs" and "bs \<le> 65536" and "int m < 2 ^ 31"
  defines "blocks \<equiv> (int m + int bs - 1) div int bs + 1"
  shows "int (blocks_reached bs m i) \<le> blocks" "0 \<le> blocks" "blocks < 2 ^ 32"
proof -
  let ?n = "blocks_reached bs m i"
  have "int ?n - 1 \<le> (int m + int bs - 1) div int bs" if "?n \<noteq> 0"
  proof -
    have "int ((?n - 1) * bs) < int (m + i)" using blocks_reached(2) [OF assms(1) that] by (simp only: of_nat_less_iff)
    then have "(int ?n - 1) * int bs < int m + int i" using that by (simp add: of_nat_diff)
    then have "(int ?n - 1) * int bs \<le> int m + int bs - 1" using assms(2) by linarith
    then show ?thesis using assms(1) by (simp add: le_div_iff)
  qed
  moreover have e: "(int m + int bs - 1) div int bs = int ((m + (bs - 1)) div bs)"
    using assms(1) by (simp add: zdiv_int of_nat_diff)
  ultimately show "int ?n \<le> blocks" unfolding blocks_def by (cases "?n = 0") simp_all
  show "0 \<le> blocks" unfolding blocks_def e by simp
  have "(m + (bs - 1)) div bs \<le> m + (bs - 1)" by (rule div_le_dividend)
  then have "int ((m + (bs - 1)) div bs) \<le> int m + 65536" using assms(3) by linarith
  then show "blocks < 2 ^ 32" using assms(4) unfolding blocks_def e by simp
qed

text \<open>
  The two loops of \<open>smashfs_read\<close> for the \<open>m\<close> bytes from index \<open>i\<close> of the block \<open>b\<close> on: the
  blocks are got, and what is wanted of them is copied.
\<close>

lemma device_blocks:
  assumes d: "device_ok env dev log" and bn: "b + n \<le> length dev div 2 ^ log"
  shows "int b \<le> j \<Longrightarrow> j < int b + int n \<Longrightarrow> ke_getblk env j"
    and "list_all (ke_uptodate env) (map (\<lambda>j. int b + int j) [0..<n])"
    and "x \<in> set (map (\<lambda>j. ke_data env (int b + int j)) [0..<n]) \<Longrightarrow> length x = 2 ^ log"
proof -
  have dv: "ke_getblk env (int b + int j) \<and> ke_uptodate env (int b + int j) \<and>
      ke_data env (int b + int j) = take (2 ^ log) (drop ((b + j) * 2 ^ log) dev)" if "j < n" for j
  proof -
    have "b + j < length dev div 2 ^ log" using that bn by simp
    then show ?thesis using d unfolding device_ok_def by (metis of_nat_add)
  qed
  show "ke_getblk env j" if "int b \<le> j" "j < int b + int n" for j
    using dv [of "nat (j - int b)"] that by simp
  show "list_all (ke_uptodate env) (map (\<lambda>j. int b + int j) [0..<n])"
    using dv by (simp add: list_all_iff)
  assume "x \<in> set (map (\<lambda>j. ke_data env (int b + int j)) [0..<n])"
  then obtain j where j: "j < n" "x = take (2 ^ log) (drop ((b + j) * 2 ^ log) dev)" using dv by auto
  have "Suc (b + j) * 2 ^ log \<le> length dev div 2 ^ log * 2 ^ log" using j(1) bn by (intro mult_right_mono) simp_all
  also have "\<dots> = length dev" using d unfolding device_ok_def by (metis add.right_neutral div_mult_mod_eq)
  finally show "length x = 2 ^ log" using j(2) by simp
qed

lemma get_blocks_reached:
  assumes bs: "0 < bs" "bs \<le> 65536" and i: "i < bs" and m: "int m + int i < 2 ^ 31 - 2 ^ 17"
    and g: "\<And>j. int b \<le> j \<Longrightarrow> j < int b + int (blocks_reached bs m i) \<Longrightarrow> ke_getblk env j"
    and room: "int (blocks_reached bs m i) \<le> blocks"
  shows "get_blocks env (int bs) blocks 0 (int b) (- int i) (int m) =
    Ok (Some (map (\<lambda>j. int b + int j) [0..<blocks_reached bs m i]))"
proof -
  let ?n = "blocks_reached bs m i"
  note n1 = blocks_reached(1) [OF bs(1), of m i]
  have n2: "(int ?n - 1) * int bs < int m + int i" if "?n \<noteq> 0"
  proof -
    have "int ((?n - 1) * bs) < int (m + i)" using blocks_reached(2) [OF bs(1) that] by (simp only: of_nat_less_iff)
    then show ?thesis using that by (simp add: of_nat_diff)
  qed
  show ?thesis
  proof (rule get_blocks_ok)
    show "int m \<le> - int i + int ?n * int bs" using n1 by (simp flip: of_nat_mult of_nat_add)
    show "?n = 0 \<or> - int i + (int ?n - 1) * int bs < int m" using n2 by (cases "?n = 0") simp_all
    show "- int i + int ?n * int bs < 2 ^ 31"
    proof (cases "?n = 0")
      case False
      then show ?thesis using n2 m bs by (simp add: algebra_simps)
    qed simp
    show "- (2 ^ 31) \<le> - int i" using i bs(2) by simp
  qed (use bs(1) g room in simp_all)
qed

lemma copy_blocks_reached:
  assumes d: "device_ok env dev log" and i: "i < 2 ^ log" and bm: "b * 2 ^ log + (m + i) \<le> length dev"
    and bn: "b + blocks_reached (2 ^ log) m i \<le> length dev div 2 ^ log"
    and l: "m \<le> length buf" "int m \<le> pages * PAGE_CACHE_SIZE"
  shows "copy_blocks pages (2 ^ log) (map (ke_data env) (map (\<lambda>j. int b + int j) [0..<blocks_reached (2 ^ log) m i]))
      (int m) (int i) 0 0 buf =
    Ok (patch buf 0 (take m (drop (b * 2 ^ log + i) dev)))"
proof -
  let ?n = "blocks_reached (2 ^ log) m i"
  let ?ds = "map (\<lambda>j. ke_data env (int b + int j)) [0..<?n]"
  have n1: "m + i \<le> ?n * 2 ^ log" by (rule blocks_reached(1)) simp
  have cd: "concat ?ds = take (?n * 2 ^ log) (drop (b * 2 ^ log) dev)" by (rule concat_device [OF d bn])
  have "page_pos 0 0 0" by (simp add: page_pos_def PAGE_CACHE_SIZE_def)
  moreover have "i + m \<le> length (concat ?ds)" using n1 bm unfolding cd by simp
  moreover have "\<forall>x \<in> set ?ds. length x = 2 ^ log" using device_blocks(3) [OF d bn] by blast
  ultimately have "copy_blocks pages (int (2 ^ log)) ?ds (int m) (int i) 0 0 buf = Ok (patch buf 0 (take m (drop i (concat ?ds))))"
    using i l by (intro copy_blocks_ok) simp_all
  moreover have "take m (drop i (concat ?ds)) = take m (drop (b * 2 ^ log + i) dev)"
    unfolding cd using n1 by (simp add: drop_take min_absorb1 add.commute)
  ultimately show ?thesis by (simp add: comp_def)
qed

text \<open>What is asked of the device is there, and all that is left to do is to copy it.\<close>

lemma smashfs_read_copies:
  assumes d: "device_ok env dev log" and o: "0 \<le> offset" "0 \<le> len" "offset + len \<le> int (length dev)"
    and r: "offset + len < 2 ^ 31 - 2 ^ 17"
  obtains pages b i where "len \<le> pages * PAGE_CACHE_SIZE" and "nat offset = b * 2 ^ log + i" and "i < 2 ^ log"
    and "b * 2 ^ log + (nat len + i) \<le> length dev"
    and "b + blocks_reached (2 ^ log) (nat len) i \<le> length dev div 2 ^ log"
    and "smashfs_read env (2 ^ log) (int log) buf offset len =
      rbind (copy_blocks pages (2 ^ log) (map (ke_data env) (map (\<lambda>j. int b + int j) [0..<blocks_reached (2 ^ log) (nat len) i]))
        len (int i) 0 0 buf) (\<lambda>buf. Ok (len, buf))"
proof -
  define bs where "bs = (2 :: nat) ^ log"
  define m where "m = nat len"
  define i where "i = nat offset mod bs"
  define b where "b = nat offset div bs"
  define n where "n = blocks_reached bs m i"
  have "log \<le> 16" using d by (simp add: device_ok_def)
  then have "(2 :: nat) ^ log \<le> 2 ^ 16" by (intro power_increasing) simp_all
  then have bs: "0 < bs" "bs \<le> 65536" "int bs = 2 ^ log" by (simp_all add: bs_def)
  have bs': "int bs \<le> 65536" using bs(2) by simp
  have m: "len = int m" using o(2) by (simp add: m_def)
  have ib: "nat offset = b * bs + i" "i < bs" using bs(1) by (simp_all add: i_def b_def)
  have off: "offset = int b * int bs + int i" using ib(1) o(1) by (metis int_nat_eq of_nat_add of_nat_mult)
  have "length dev = length dev div bs * bs"
    using d unfolding device_ok_def bs_def by (metis add.right_neutral div_mult_mod_eq)
  then obtain q where q: "length dev = q * bs" by blast
  have "int (b * bs + (m + i)) \<le> int (length dev)" using off o(3) m by simp
  then have bm: "b * bs + (m + i) \<le> length dev" by (simp only: of_nat_le_iff)
  have "b + n \<le> q" unfolding n_def by (rule blocks_reached(3) [OF bs(1)]) (use bm q in simp)
  then have bn: "b + n \<le> length dev div 2 ^ log" using q bs(1) by (simp add: bs_def)
  have idx: "offset AND (push_bit (nat (int log)) 1 - 1) = int i" "drop_bit (nat (int log)) offset = int b"
    using o(1) bs(3) by (simp_all add: push_bit_eq_mult and_pow2_minus_1 shiftr_div i_def b_def zmod_int zdiv_int)
  have h: "heap_ok (ke_alloc env)" using d by (simp add: device_ok_def)
  define pages where "pages = (len + PAGE_CACHE_SIZE - 1) div 2 ^ PAGE_CACHE_SHIFT"
  have pages: "0 \<le> pages" "len \<le> pages * PAGE_CACHE_SIZE" "pages < 2 ^ 31"
    using o(2) r o(1) by (simp_all add: pages_def PAGE_CACHE_SIZE_def PAGE_CACHE_SHIFT_def)
  define blocks where "blocks = (len + int bs - 1) div int bs + 1"
  have "int m < 2 ^ 31" using r o(1) m by simp
  note room = blocks_reached_room [OF bs(1) ib(2) bs(2) this, folded n_def m]
  have blocks: "int n \<le> blocks" "0 \<le> blocks" "blocks < 2 ^ 32" using room by (simp_all add: blocks_def)
  have c: "c_int (len + PAGE_CACHE_SIZE - 1) = Ok (len + PAGE_CACHE_SIZE - 1)"
    "c_int (len + int bs - 1) = Ok (len + int bs - 1)"
    using o(1,2) r bs(1) bs' by (simp_all add: PAGE_CACHE_SIZE_def)
  have "0 \<le> int b * int bs" by simp
  then have mi: "int m + int i < 2 ^ 31 - 2 ^ 17" using r off m by linarith
  note dev = device_blocks [OF d bn]
  have "get_blocks env (int bs) blocks 0 (int b) (- int i) len = Ok (Some (map (\<lambda>j. int b + int j) [0..<n]))"
    unfolding m n_def by (rule get_blocks_reached [OF bs(1,2) ib(2) mi])
      (use dev(1) blocks(1) in \<open>simp_all add: n_def\<close>)
  moreover have "kcalloc_ok (ke_alloc env) pages 8" "kcalloc_ok (ke_alloc env) blocks 8"
    using h pages(1,3) blocks(2,3) by (simp_all add: kcalloc_ok_def)
  moreover have "drop_bit PAGE_CACHE_SHIFT (len + PAGE_CACHE_SIZE - 1) = pages"
    "drop_bit (nat (int log)) (len + int bs - 1) + 1 = blocks"
    by (simp_all add: shiftr_div pages_def blocks_def bs_def)
  ultimately have "smashfs_read env (int bs) (int log) buf offset len =
      rbind (copy_blocks pages (int bs) (map (ke_data env) (map (\<lambda>j. int b + int j) [0..<n])) len (int i) 0 0 buf)
        (\<lambda>buf. Ok (len, buf))"
    unfolding smashfs_read_def c rbind.simps Let_def idx using dev(2) by simp
  then show ?thesis
    by (intro that [of pages b i]) (use pages(2) ib bm bn in \<open>simp_all add: bs_def m_def n_def\<close>)
qed

lemma smashfs_read_ok:
  assumes d: "device_ok env dev log" and o: "0 \<le> offset" "0 \<le> len" "offset + len \<le> int (length dev)"
    and l: "len \<le> int (length buf)" and r: "offset + len < 2 ^ 31 - 2 ^ 17"
  shows "smashfs_read env (2 ^ log) (int log) buf offset len =
    Ok (len, patch buf 0 (take (nat len) (drop (nat offset) dev)))"
proof -
  obtain pages b i where s: "len \<le> pages * PAGE_CACHE_SIZE" "nat offset = b * 2 ^ log + i" "i < 2 ^ log"
    "b * 2 ^ log + (nat len + i) \<le> length dev" "b + blocks_reached (2 ^ log) (nat len) i \<le> length dev div 2 ^ log"
    "smashfs_read env (2 ^ log) (int log) buf offset len =
      rbind (copy_blocks pages (2 ^ log) (map (ke_data env) (map (\<lambda>j. int b + int j) [0..<blocks_reached (2 ^ log) (nat len) i]))
        len (int i) 0 0 buf) (\<lambda>buf. Ok (len, buf))"
    by (rule smashfs_read_copies [OF d o r])
  have "nat len \<le> length buf" "int (nat len) \<le> pages * PAGE_CACHE_SIZE" using l s(1) o(2) by simp_all
  from copy_blocks_reached [OF d s(3,4,5) this] show ?thesis using s(2) o(2) by (simp add: s(6))
qed

section \<open>A destination that is too small\<close>

text \<open>The copying writes behind the destination if that has less bytes than are to be read.\<close>

lemma copy_block_fits:
  assumes "copy_block pages data (int n) i page pageoff buf = Ok (page', pageoff', buf')"
    and "page_pos page pageoff p" and "p \<le> length buf"
  shows "p + n \<le> length buf \<and> length buf' = length buf \<and> page_pos page' pageoff' (p + n)"
  using assms
proof (induction n arbitrary: i page pageoff p buf rule: less_induct)
  case (less n)
  show ?case
  proof (cases "n = 0")
    case True
    then show ?thesis using less.prems by (subst (asm) copy_block.simps) simp
  next
    case False
    define pg po where "pg = (if pageoff = PAGE_CACHE_SIZE then page + 1 else page)"
      and "po = (if pageoff = PAGE_CACHE_SIZE then 0 else pageoff)"
    have c: "(if pageoff = PAGE_CACHE_SIZE then (page + 1, 0) else (page, pageoff)) = (pg, po)"
      by (simp add: pg_def po_def)
    have pp: "page_pos pg po p" "po < PAGE_CACHE_SIZE"
      using less.prems(2) by (auto simp: page_pos_def pg_def po_def PAGE_CACHE_SIZE_def)
    define a where "a = nat (min (int n) (PAGE_CACHE_SIZE - po))"
    have a: "int a = min (int n) (PAGE_CACHE_SIZE - po)" "0 < a" "a \<le> n"
      using False pp(2) by (simp_all add: a_def)
    have e: "int n - int a = int (n - a)" using a(3) by simp
    obtain x buf1 where x: "mem_slice data i (int a) = Ok x" "mem_write buf (pg * PAGE_CACHE_SIZE + po) x = Ok buf1"
      "copy_block pages data (int (n - a)) (i + int a) pg (po + int a) buf1 = Ok (page', pageoff', buf')"
      using less.prems(1) False a(2) by (subst (asm) copy_block.simps) (auto simp: c Let_def simp flip: a(1) e split: if_splits)
    have lx: "length x = a" using x(1) by (auto simp: mem_slice_eq_Ok)
    have w: "length buf1 = length buf" "p + a \<le> length buf"
      using x(2) pp(1) lx mem_write_length [OF x(2)] by (auto simp: mem_write_def page_pos_def split: if_splits)
    have "page_pos pg (po + int a) (p + a)" using pp a(1) by (simp add: page_pos_def)
    from less.IH [OF _ x(3) this] a(2,3) w show ?thesis by simp
  qed
qed

lemma rbind_defined:
  "m \<notin> {Err e, Timeout} \<Longrightarrow> (\<And>x. m = Ok x \<Longrightarrow> f x \<notin> {Err e, Timeout}) \<Longrightarrow> rbind m f \<notin> {Err e, Timeout}"
  by (cases m) auto

lemma copy_block_defined: "copy_block pages data n i page pageoff buf \<notin> {Err e, Timeout}"
proof (induction pages data n i page pageoff buf rule: copy_block.induct)
  case (1 pages data n i page pageoff buf)
  show ?case
  proof (cases "n = 0")
    case True
    then show ?thesis by (subst copy_block.simps) simp
  next
    case False
    obtain pg po where c: "(if pageoff = PAGE_CACHE_SIZE then (page + 1, 0) else (page, pageoff)) = (pg, po)"
      by fastforce
    define a where "a = min n (PAGE_CACHE_SIZE - po)"
    have m: "mem_slice data i a \<notin> {Err e, Timeout}" "mem_write buf (pg * PAGE_CACHE_SIZE + po) x \<notin> {Err e, Timeout}" for x
      by (simp_all add: mem_slice_def mem_write_def)
    show ?thesis
    proof (cases "a \<le> 0 \<or> \<not> pg < pages")
      case True
      then show ?thesis using False by (subst copy_block.simps) (simp add: c a_def)
    next
      case go: False
      have "rbind (mem_slice data i a) (\<lambda>x. rbind (mem_write buf (pg * PAGE_CACHE_SIZE + po) x) (\<lambda>buf.
          copy_block pages data (n - a) (i + a) pg (po + a) buf)) \<notin> {Err e, Timeout}"
        by (intro rbind_defined m 1 [OF False c [symmetric] _ a_def go]) simp_all
      then show ?thesis using False go by (subst copy_block.simps) (simp add: c flip: a_def)
    qed
  qed
qed

lemma copy_blocks_defined: "copy_blocks pages bs ds n i page pageoff buf \<notin> {Err e, Timeout}"
proof (induction ds arbitrary: n i page pageoff buf)
  case (Cons d ds)
  then show ?case
    using copy_block_defined [of pages d "min n (bs - i)" i page pageoff buf]
    by (cases "copy_block pages d (min n (bs - i)) i page pageoff buf") (auto simp: Let_def)
qed simp

lemma copy_blocks_fits:
  assumes "copy_blocks pages (int bs) ds (int n) (int i) page pageoff buf = Ok buf'"
    and "page_pos page pageoff p" and "p \<le> length buf" and "i < bs" and "i + n \<le> length ds * bs"
  shows "p + n \<le> length buf"
  using assms
proof (induction ds arbitrary: n i page pageoff p buf)
  case (Cons d ds)
  define a where "a = min n (bs - i)"
  have a: "int a = min (int n) (int bs - int i)" "a \<le> n" using Cons.prems(4) by (simp_all add: a_def of_nat_diff)
  have e: "int n - int a = int (n - a)" using a(2) by simp
  obtain page' pageoff' buf1 where c: "copy_block pages d (int a) (int i) page pageoff buf = Ok (page', pageoff', buf1)"
    "copy_blocks pages (int bs) ds (int (n - a)) (int 0) page' pageoff' buf1 = Ok buf'"
    using Cons.prems(1) by (auto simp: Let_def simp flip: a(1) e)
  note f = copy_block_fits [OF c(1) Cons.prems(2,3)]
  have "0 < bs" "0 + (n - a) \<le> length ds * bs" using Cons.prems(4,5) by (auto simp: a_def)
  with Cons.IH [OF c(2)] f a(2) show ?case by fastforce
qed simp

lemma smashfs_read_overrun:
  assumes d: "device_ok env dev log" and o: "0 \<le> offset" "0 \<le> len" "offset + len \<le> int (length dev)"
    and l: "int (length buf) < len" and r: "offset + len < 2 ^ 31 - 2 ^ 17"
  shows "smashfs_read env (2 ^ log) (int log) buf offset len = Undef"
proof -
  obtain pages b i where s: "i < 2 ^ log" "smashfs_read env (2 ^ log) (int log) buf offset len =
      rbind (copy_blocks pages (2 ^ log) (map (ke_data env) (map (\<lambda>j. int b + int j) [0..<blocks_reached (2 ^ log) (nat len) i]))
        len (int i) 0 0 buf) (\<lambda>buf. Ok (len, buf))"
    using smashfs_read_copies [OF d o r] by metis
  let ?ds = "map (ke_data env) (map (\<lambda>j. int b + int j) [0..<blocks_reached (2 ^ log) (nat len) i])"
  have "i + nat len \<le> length ?ds * 2 ^ log" using blocks_reached(1) [of "2 ^ log" "nat len" i] by simp
  moreover have "page_pos 0 0 0" by (simp add: page_pos_def PAGE_CACHE_SIZE_def)
  ultimately have "\<nexists>buf'. copy_blocks pages (int (2 ^ log)) ?ds (int (nat len)) (int i) 0 0 buf = Ok buf'"
    using copy_blocks_fits [of pages "2 ^ log" ?ds "nat len" i 0 0 buf _ 0] s(1) l o(2) by fastforce
  then show ?thesis
    using copy_blocks_defined [of pages "int (2 ^ log)" ?ds "int (nat len)" "int i" 0 0 buf] o(2)
    by (cases "copy_blocks pages (int (2 ^ log)) ?ds (int (nat len)) (int i) 0 0 buf") (auto simp: s(2))
qed

end
