(* ===== verification/Kernel_Compressor.thy ===== *)
theory Kernel_Compressor
  imports Compressor Kernel_Device
begin

text \<open>
  \<open>src/linux/compressor*.c\<close>: the decompressors of the kernel module.  A method may have a
  \<open>create\<close> function, which allocates a context that its \<open>uncompress\<close> works in; the pointer to
  the context is in the global table of the methods, shared by all mounted file systems.

  The decompressors of the kernel are the fields of \<open>kernel_libraries\<close>; \<open>None\<close> stands for any
  return code but the one the wrapper accepts.
\<close>

record kernel_libraries =
  zlib_inflate :: "memory \<Rightarrow> int \<Rightarrow> memory option"
  klzo1x_decompress_safe :: "memory \<Rightarrow> int \<Rightarrow> memory option"
  xz_dec_run :: "memory \<Rightarrow> int \<Rightarrow> memory option"

section \<open>The wrappers\<close>

definition kernel_result :: "memory option \<Rightarrow> int \<times> memory" where
  "kernel_result r = (case r of None \<Rightarrow> (-1, []) | Some out \<Rightarrow> (to_s32 (int (length out)), out))"

definition kernel_none_uncompress :: codec_fn where
  "kernel_none_uncompress src dsize =
     (if dsize < int (length src) then (-1, []) else (to_s32 (int (length src)), src))"

definition kernel_gzip_uncompress :: "kernel_libraries \<Rightarrow> codec_fn" where
  "kernel_gzip_uncompress lib src dsize = kernel_result (zlib_inflate lib src dsize)"

definition kernel_lzma_uncompress :: codec_fn where
  "kernel_lzma_uncompress src dsize = (-1, [])"

definition kernel_lzo_uncompress :: "kernel_libraries \<Rightarrow> codec_fn" where
  "kernel_lzo_uncompress lib src dsize = kernel_result (klzo1x_decompress_safe lib src dsize)"

definition kernel_xz_uncompress :: "kernel_libraries \<Rightarrow> codec_fn" where
  "kernel_xz_uncompress lib src dsize = kernel_result (xz_dec_run lib src dsize)"

section \<open>The table and the state of the module\<close>

text \<open>A context is known by the number of its creation.\<close>

datatype kcontext = No_context | Context nat

record kcompressor =
  kc_name :: string
  kc_type :: compression_type
  kc_create :: bool
  kc_uncompress :: codec_fn
  kc_context :: kcontext

text \<open>
  The globals of the module: the cache of block buffers (of objects of a size, or destroyed
  while the pointer still points to it), the table of the methods, and the contexts that are
  allocated.
\<close>

datatype cache = No_cache | Cache int | Dead_cache

record kernel =
  k_cache :: cache
  k_compressors :: "kcompressor list"
  k_live :: "nat list"
  k_next :: nat

definition kernel_compressors :: "build \<Rightarrow> kernel_libraries \<Rightarrow> kcompressor list" where
  "kernel_compressors bld lib =
     (let method = (\<lambda>name typ create f. \<lparr>kc_name = name, kc_type = typ, kc_create = create,
        kc_uncompress = f, kc_context = No_context\<rparr>) in
     [method ''none'' compression_type_none False kernel_none_uncompress] @
     (if enable_gzip bld then [method ''gzip'' compression_type_gzip True (kernel_gzip_uncompress lib)] else []) @
     (if enable_lzma bld then [method ''lzma'' compression_type_lzma False kernel_lzma_uncompress] else []) @
     (if enable_lzo bld then [method ''lzo'' compression_type_lzo False (kernel_lzo_uncompress lib)] else []) @
     (if enable_xz bld then [method ''xz'' compression_type_xz True (kernel_xz_uncompress lib)] else []))"

text \<open>
  \<open>gzip_create\<close> and \<open>xz_create\<close> fail when one of their two allocations does;
  \<open>gzip_destroy\<close> and \<open>xz_destroy\<close> free the context.
\<close>

definition context_create :: "kernel_env \<Rightarrow> kernel \<Rightarrow> kcontext \<times> kernel" where
  "context_create env k =
     (let k' = k\<lparr>k_next := k_next k + 1\<rparr> in
      if ke_context env (k_next k) then (Context (k_next k), k'\<lparr>k_live := k_next k # k_live k\<rparr>)
      else (No_context, k'))"

definition context_destroy :: "kcontext \<Rightarrow> kernel \<Rightarrow> kernel res" where
  "context_destroy c k =
     (case c of
        No_context \<Rightarrow> Ok k
      | Context n \<Rightarrow> if n \<in> set (k_live k) then Ok (k\<lparr>k_live := remove1 n (k_live k)\<rparr>) else Undef)"

definition set_context :: "nat \<Rightarrow> kcontext \<Rightarrow> kernel \<Rightarrow> kernel" where
  "set_context i c k = k\<lparr>k_compressors := (k_compressors k)[i := (k_compressors k ! i)\<lparr>kc_context := c\<rparr>]\<rparr>"

text \<open>The loop of \<open>compressor_create_type\<close> over the table, from method \<open>i\<close> on.\<close>

fun create_scan :: "kernel_env \<Rightarrow> u32 \<Rightarrow> nat list \<Rightarrow> kernel \<Rightarrow> nat option \<times> kernel" where
  "create_scan env t [] k = (None, k)"
| "create_scan env t (i # is) k =
     (if compression_code (kc_type (k_compressors k ! i)) = t then
        if kc_create (k_compressors k ! i) then
          let (c, k) = context_create env k; k = set_context i c k in
          if c = No_context then create_scan env t is k else (Some i, k)
        else (Some i, k)
      else create_scan env t is k)"

definition kernel_create_type :: "kernel_env \<Rightarrow> kernel \<Rightarrow> u32 \<Rightarrow> nat option \<times> kernel" where
  "kernel_create_type env k t = create_scan env t [0..<length (k_compressors k)] k"

definition kernel_compressor_destroy :: "nat option \<Rightarrow> kernel \<Rightarrow> kernel res" where
  "kernel_compressor_destroy c k =
     (case c of
        None \<Rightarrow> Ok k
      | Some i \<Rightarrow> if kc_create (k_compressors k ! i) then context_destroy (kc_context (k_compressors k ! i)) k
                  else Ok k)"

text \<open>A method with a context works in it; a context that has been freed is \<open>Undef\<close>.\<close>

definition usable :: "kernel \<Rightarrow> nat \<Rightarrow> bool" where
  "usable k i \<longleftrightarrow> i < length (k_compressors k) \<and> (kc_create (k_compressors k ! i) \<longrightarrow>
     (case kc_context (k_compressors k ! i) of No_context \<Rightarrow> False | Context n \<Rightarrow> n \<in> set (k_live k)))"

definition kernel_uncompress :: "kernel \<Rightarrow> nat \<Rightarrow> memory \<Rightarrow> int \<Rightarrow> (int \<times> memory) res" where
  "kernel_uncompress k i src dsize =
     (if usable k i then Ok (kc_uncompress (k_compressors k ! i) src dsize) else Undef)"

section \<open>A method that is created can be used\<close>

lemma set_context_simps [simp]:
  "length (k_compressors (set_context i c k)) = length (k_compressors k)"
  "k_live (set_context i c k) = k_live k"
  "k_cache (set_context i c k) = k_cache k"
  by (simp_all add: set_context_def)

lemma create_scan_ok:
  assumes "create_scan env t is k = (Some i, k')" and "\<forall>j \<in> set is. j < length (k_compressors k)"
  shows "i \<in> set is \<and> usable k' i \<and> compression_code (kc_type (k_compressors k' ! i)) = t \<and>
    k_cache k' = k_cache k \<and> length (k_compressors k') = length (k_compressors k) \<and>
    (\<forall>j < length (k_compressors k). kc_uncompress (k_compressors k' ! j) = kc_uncompress (k_compressors k ! j) \<and>
       kc_type (k_compressors k' ! j) = kc_type (k_compressors k ! j) \<and>
       kc_create (k_compressors k' ! j) = kc_create (k_compressors k ! j))"
  using assms
proof (induction "is" arbitrary: k)
  case (Cons j js)
  show ?case
  proof (cases "compression_code (kc_type (k_compressors k ! j)) = t \<and> kc_create (k_compressors k ! j)")
    case True
    obtain c k1 where c: "context_create env k = (c, k1)" by fastforce
    have k1: "k_cache k1 = k_cache k" "k_compressors k1 = k_compressors k" "c = Context n \<Longrightarrow> n \<in> set (k_live k1)" for n
      using c by (auto simp: context_create_def Let_def split: if_splits)
    show ?thesis
    proof (cases c)
      case No_context
      then have "create_scan env t js (set_context j c k1) = (Some i, k')"
        using Cons.prems(1) True c by simp
      from Cons.IH [OF this] show ?thesis
        using Cons.prems(2) k1(1,2) by (auto simp: set_context_def nth_list_update)
    next
      case (Context n)
      then have "i = j" "k' = set_context j c k1" using Cons.prems(1) True c by auto
      then show ?thesis
        using Context Cons.prems(2) k1 True by (auto simp: set_context_def usable_def nth_list_update)
    qed
  next
    case False
    show ?thesis
    proof (cases "compression_code (kc_type (k_compressors k ! j)) = t")
      case True
      then have "i = j" "k' = k" using False Cons.prems(1) by simp_all
      then show ?thesis using True False Cons.prems(2) by (simp add: usable_def)
    next
      case other: False
      have "create_scan env t js k = (Some i, k')" using other Cons.prems(1) by simp
      from Cons.IH [OF this] Cons.prems(2) show ?thesis unfolding list.set(2) by blast
    qed
  qed
qed simp

lemma kernel_create_type_ok:
  assumes "kernel_create_type env k t = (Some i, k')"
  shows "usable k' i \<and> compression_code (kc_type (k_compressors k' ! i)) = t \<and> k_cache k' = k_cache k \<and>
    kc_uncompress (k_compressors k' ! i) = kc_uncompress (k_compressors k ! i) \<and>
    length (k_compressors k') = length (k_compressors k)"
  using create_scan_ok [OF assms [unfolded kernel_create_type_def]] by auto

end
