(* ===== verification/Kernel_Super.thy ===== *)
theory Kernel_Super
  imports Reader Kernel_Compressor
begin

text \<open>
  \<open>src/linux/super.c\<close>: the state of a mounted file system, \<open>block_fill\<close>, \<open>node_fill\<close>,
  \<open>node_read\<close>, the inodes, mounting and unmounting.

  A function that returns an \<open>int\<close> or an error pointer has its error codes as \<open>Err\<close>; memory
  that is released needs no step unless it is shared: the cache of block buffers and the
  contexts of the decompressors, which the record \<open>kernel\<close> holds.
\<close>

unbundle bit_operations_syntax

section \<open>The state\<close>

record super_info =
  si_devblksize :: int
  si_devblksize_log2 :: int
  si_max_inode_size :: int
  si_max_block_size :: int
  si_super :: super_block
  si_inodes_table :: memory
  si_blocks_table :: memory
  si_compressor :: nat

definition init_blockcache :: "kernel_env \<Rightarrow> kernel \<Rightarrow> int \<Rightarrow> int \<times> kernel" where
  "init_blockcache env k sz =
     (if ke_cache_create env sz then (0, k\<lparr>k_cache := Cache sz\<rparr>) else (enomem, k\<lparr>k_cache := No_cache\<rparr>))"

text \<open>The pointer is not cleared, and destroying a cache twice is \<open>Undef\<close>.\<close>

definition destroy_blockcache :: "kernel \<Rightarrow> kernel res" where
  "destroy_blockcache k =
     (case k_cache k of
        No_cache \<Rightarrow> Ok k
      | Cache sz \<Rightarrow> Ok (k\<lparr>k_cache := Dead_cache\<rparr>)
      | Dead_cache \<Rightarrow> Undef)"

text \<open>
  The \<open>n\<close>-th of the buffers that a function allocates: \<open>None\<close> if there is none, else the size of
  the object.
\<close>

definition block_alloc :: "kernel_env \<Rightarrow> kernel \<Rightarrow> nat \<Rightarrow> int option res" where
  "block_alloc env k n =
     (case k_cache k of
        Cache sz \<Rightarrow> Ok (if ke_cache_alloc env n then Some sz else None)
      | _ \<Rightarrow> Undef)"

section \<open>Blocks and nodes\<close>

definition block_fill :: "super_info \<Rightarrow> int \<Rightarrow> iblock res" where
  "block_fill si number =
     block_bits_at (si_super si) (si_blocks_table si) (uint (sb_blocks_size (si_super si)))
       (si_max_block_size si) number"

definition node_fill :: "super_info \<Rightarrow> int \<Rightarrow> node res" where
  "node_fill si number =
     rbind (node_bits (si_super si) (si_inodes_table si) (uint (sb_inodes_size (si_super si)))
       (si_max_inode_size si) number) (\<lambda>n.
     let n = node_defaults (si_super si) n; m = sb_min (si_super si) in
     Ok (n\<lparr>nd_ctime := nd_ctime n + uint (min_ctime m), nd_mtime := nd_mtime n + uint (min_mtime m)\<rparr>))"

text \<open>
  The part of \<open>node_read\<close>'s loop that gets a block.  The compressed block is read into a
  buffer of the cache, whose earlier contents do not matter, and uncompressed into another.
\<close>

definition read_block :: "kernel_env \<Rightarrow> kernel \<times> super_info \<Rightarrow> int \<Rightarrow> (int \<times> memory) res" where
  "read_block env st b =
     (let (k, si) = st; s = si_super si in
      rbind (block_fill si b) (\<lambda>bl.
      rbind (check (ik_size bl \<le> uint (sb_block_size s)) Minus1) (\<lambda>_.
      case k_cache k of
        Cache cap \<Rightarrow>
          rbind (smashfs_read env (si_devblksize si) (si_devblksize_log2 si) (replicate (nat cap) 0)
                  (to_s32 (uint (sb_entries_offset s) + ik_offset bl)) (to_s32 (ik_compressed_size bl)))
            (\<lambda>(rc, cbuffer).
          rbind (check (rc = ik_compressed_size bl) Minus1) (\<lambda>_.
          rbind (mem_slice cbuffer 0 (as_u32 (ik_compressed_size bl))) (\<lambda>src.
          rbind (kernel_uncompress k (si_compressor si) src (as_u32 (ik_size bl))) (\<lambda>(rc, out).
          if cap < int (length out) then Undef
          else rbind (check (rc = ik_size bl) Minus1) (\<lambda>_. Ok (ik_size bl, out))))))
      | _ \<Rightarrow> Undef)))"

text \<open>
  When the second buffer cannot be allocated the first one is freed twice.  Otherwise the
  result is 0 or -1, with the context of the callback.
\<close>

definition node_read ::
  "kernel_env \<Rightarrow> nat \<Rightarrow> kernel \<times> super_info \<Rightarrow> node \<Rightarrow> 'c callback \<Rightarrow> 'c \<Rightarrow> int \<Rightarrow> int \<Rightarrow> (int \<times> 'c) res" where
  "node_read env fuel st n fn c offset sz =
     (let s = si_super (snd st) in
      rbind (block_alloc env (fst st) 0) (\<lambda>ubuffer.
      if ubuffer = None then Ok (-1, c)
      else rbind (block_alloc env (fst st) 1) (\<lambda>cbuffer.
      if cbuffer = None then Undef
      else if 31 \<le> uint (sb_block_log2 s) then Undef
      else
        let o' = offset + nd_index n + nd_block n * uint (sb_block_size s);
            i = o' AND (push_bit (unat (sb_block_log2 s)) 1 - 1);
            b = drop_bit (unat (sb_block_log2 s)) o'
        in read_loop fuel (read_block env st) fn sz 0 i b c)))"

section \<open>Inodes\<close>

datatype inode_ops = Directory_ops | File_ops | Link_ops

record inode =
  i_ino :: int
  i_ops :: inode_ops
  i_mode :: int
  i_uid :: int
  i_gid :: int
  i_size :: int
  i_blocks :: int
  i_ctime :: int
  i_mtime :: int
  i_atime :: int
  i_node :: node

definition S_IFDIR :: int where "S_IFDIR = 0x4000"
definition S_IFREG :: int where "S_IFREG = 0x8000"
definition S_IFLNK :: int where "S_IFLNK = 0xA000"

text \<open>\<open>smashfs_read_inode\<close> for the inode that the kernel has given the number \<open>ino\<close>.\<close>

definition smashfs_read_inode :: "super_info \<Rightarrow> int \<Rightarrow> int \<Rightarrow> inode res" where
  "smashfs_read_inode si ino number =
     attempt (node_fill si number) (Err EINVAL) (\<lambda>n.
     rbind (if nd_type n = inode_code directory then Ok (S_IFDIR, Directory_ops)
            else if nd_type n = inode_code regular_file then Ok (S_IFREG, File_ops)
            else if nd_type n = inode_code symbolic_link then Ok (S_IFLNK, Link_ops)
            else Err EINVAL) (\<lambda>(mode, ops).
     Ok \<lparr>i_ino = ino, i_ops = ops, i_mode = mode OR file_mode n,
         i_uid = as_u32 (nd_uid n), i_gid = as_u32 (nd_gid n), i_size = nd_size n,
         i_blocks = drop_bit (nat (si_devblksize_log2 si)) (nd_size n + si_devblksize si - 1) + 1,
         i_ctime = nd_ctime n, i_mtime = nd_mtime n, i_atime = nd_mtime n, i_node = n\<rparr>))"

text \<open>
  The inodes that the kernel has hashed, by number.  \<open>iget_locked\<close> returns the one that is
  there, or else a new one that is read and hashed.
\<close>

type_synonym icache = "int \<Rightarrow> inode option"

definition smashfs_get_inode :: "kernel_env \<Rightarrow> super_info \<Rightarrow> icache \<Rightarrow> int \<Rightarrow> (inode \<times> icache) res" where
  "smashfs_get_inode env si ic number =
     (if \<not> ke_iget env then Err ENOMEM
      else case ic number of
        Some i \<Rightarrow> Ok (i, ic)
      | None \<Rightarrow>
          attempt (smashfs_read_inode si number number) (Err EINVAL) (\<lambda>i. Ok (i, ic(number := Some i))))"

section \<open>Mounting\<close>

text \<open>\<open>ffz (~x)\<close>: the position of the lowest bit of an \<open>int\<close>.\<close>

fun lowest_bit :: "nat \<Rightarrow> int \<Rightarrow> nat" where
  "lowest_bit 0 x = 0"
| "lowest_bit (Suc n) x = (if odd x then 0 else Suc (lowest_bit n (x div 2)))"

definition ffz_not :: "int \<Rightarrow> int" where
  "ffz_not x = int (lowest_bit 32 x)"

definition sizeof_super_info :: int where
  "sizeof_super_info = 56"

record mounted =
  m_info :: super_info
  m_root :: inode
  m_icache :: icache

text \<open>The exit of \<open>smashfs_fill_super\<close> for errors, where -EINVAL is \<open>None\<close>.\<close>

definition fill_bail :: "nat option \<Rightarrow> kernel \<Rightarrow> (kernel \<times> mounted option) res" where
  "fill_bail c k = rbind (kernel_compressor_destroy c k) (\<lambda>k. rbind (destroy_blockcache k) (\<lambda>k. Ok (k, None)))"

text \<open>The inode table is read into a block buffer and uncompressed into its own object.\<close>

definition read_inodes ::
  "kernel_env \<Rightarrow> kernel \<Rightarrow> int \<Rightarrow> int \<Rightarrow> super_block \<Rightarrow> nat \<Rightarrow> memory option res" where
  "read_inodes env k bs log2 s c =
     rbind (block_alloc env k 0) (\<lambda>r. case r of None \<Rightarrow> Ok None | Some cap \<Rightarrow>
     rbind (smashfs_read env bs log2 (replicate (nat cap) 0) (sint (sb_inodes_offset s)) (sint (sb_inodes_csize s)))
       (\<lambda>(rc, cbuffer).
     if to_u32 rc \<noteq> sb_inodes_csize s then Ok None
     else rbind (mem_slice cbuffer 0 (uint (sb_inodes_csize s))) (\<lambda>src.
          rbind (kernel_uncompress k c src (uint (sb_inodes_size s))) (\<lambda>(rc, out).
          if uint (sb_inodes_size s) < int (length out) then Undef
          else Ok (if to_u32 rc \<noteq> sb_inodes_size s then None else Some out)))))"

definition read_blocks :: "kernel_env \<Rightarrow> int \<Rightarrow> int \<Rightarrow> super_block \<Rightarrow> memory option res" where
  "read_blocks env bs log2 s =
     rbind (smashfs_read env bs log2 (replicate (unat (sb_blocks_size s)) 0)
              (sint (sb_blocks_offset s)) (sint (sb_blocks_size s))) (\<lambda>(rc, btab).
     Ok (if to_u32 rc \<noteq> sb_blocks_size s then None else Some btab))"

text \<open>
  The root: \<open>new_inode\<close> gives it a number of its own choice, under which it is hashed.  It
  returns a null pointer when it fails, which the code takes for an inode.
\<close>

definition read_root :: "kernel_env \<Rightarrow> super_info \<Rightarrow> inode option res" where
  "read_root env si =
     (case ke_new_inode env of
        None \<Rightarrow> Undef
      | Some ino \<Rightarrow>
          attempt (smashfs_read_inode si ino (uint (sb_root (si_super si)))) (Ok None) (\<lambda>root.
          Ok (if ke_d_alloc_root env then Some root else None)))"

definition smashfs_fill_super :: "kernel_env \<Rightarrow> kernel \<Rightarrow> (kernel \<times> mounted option) res" where
  "smashfs_fill_super env k =
     (if \<not> malloc_ok (ke_alloc env) sizeof_super_info then fill_bail None k
      else
        let bs = ke_min_blocksize env; log2 = ffz_not bs in
        if \<not> malloc_ok (ke_alloc env) sizeof_super then fill_bail None k
        else rbind (smashfs_read env bs log2 (replicate (nat sizeof_super) 0) SMASHFS_START sizeof_super) (\<lambda>(rc, d).
        let s = super_of_bytes d in
        if rc \<noteq> sizeof_super \<or> sb_magic s \<noteq> SMASHFS_MAGIC then fill_bail None k
        else
          let (rc, k) = init_blockcache env k (uint (sb_block_size s)) in
          if rc \<noteq> 0 then fill_bail None k
          else
            let (c, k) = kernel_create_type env k (sb_compression_type s) in
            case c of None \<Rightarrow> fill_bail None k | Some c' \<Rightarrow>
            if \<not> malloc_ok (ke_alloc env) (uint (sb_inodes_size s)) \<or>
               \<not> malloc_ok (ke_alloc env) (uint (sb_blocks_size s)) then fill_bail c k
            else rbind (read_inodes env k bs log2 s c') (\<lambda>r. case r of None \<Rightarrow> fill_bail c k | Some itab \<Rightarrow>
                 rbind (read_blocks env bs log2 s) (\<lambda>r. case r of None \<Rightarrow> fill_bail c k | Some btab \<Rightarrow>
                 let si = \<lparr>si_devblksize = bs, si_devblksize_log2 = log2,
                           si_max_inode_size = max_inode_size (sb_ibits s),
                           si_max_block_size = max_block_size (sb_kbits s), si_super = s,
                           si_inodes_table = itab, si_blocks_table = btab, si_compressor = c'\<rparr> in
                 rbind (read_root env si) (\<lambda>r. case r of None \<Rightarrow> fill_bail c k | Some root \<Rightarrow>
                 Ok (k, Some \<lparr>m_info = si, m_root = root,
                    m_icache = (\<lambda>_. None)(i_ino root := Some root)\<rparr>))))))"

lemmas mount_defs = smashfs_fill_super_def sizeof_super_info_def sizeof_super_def SMASHFS_START_def

definition SMASHFS_NAME_LEN :: int where
  "SMASHFS_NAME_LEN = 256"

text \<open>Unmounting, and what the file system tells of itself.\<close>

definition smashfs_put_super :: "kernel \<Rightarrow> mounted option \<Rightarrow> kernel res" where
  "smashfs_put_super k m =
     (case m of
        None \<Rightarrow> Ok k
      | Some m \<Rightarrow> rbind (kernel_compressor_destroy (Some (si_compressor (m_info m))) k) destroy_blockcache)"

record kstatfs =
  f_type :: u32
  f_bsize :: u32
  f_blocks :: u32
  f_bfree :: u32
  f_bavail :: u32
  f_files :: u32
  f_ffree :: u32
  f_namelen :: int
  f_fsid :: "u32 \<times> u32"

text \<open>\<open>dev\<close> is the encoded number of the device, 64 bits.\<close>

definition smashfs_statfs :: "64 word \<Rightarrow> super_info \<Rightarrow> kstatfs" where
  "smashfs_statfs dev si =
     \<lparr>f_type = SMASHFS_MAGIC, f_bsize = sb_block_size (si_super si), f_blocks = sb_blocks (si_super si),
      f_bfree = 0, f_bavail = 0, f_files = sb_inodes (si_super si), f_ffree = 0,
      f_namelen = SMASHFS_NAME_LEN, f_fsid = (ucast dev, ucast (drop_bit 32 dev))\<rparr>"

definition smashfs_remount :: "int \<Rightarrow> int" where
  "smashfs_remount flags = flags OR 1"

end
