(* ===== verification/Kernel_Read.thy ===== *)
theory Kernel_Read
  imports Kernel_Super
begin

text \<open>
  \<open>src/linux/super.c\<close>: the mounted file system delivers the contents of the nodes of a good
  image.
\<close>

section \<open>Blocks\<close>

text \<open>
  The device holds the compressed blocks of the entry data \<open>entry\<close> where the super block says,
  and everything that reading a block needs is there.
\<close>

definition kernel_serves :: "kernel_env \<Rightarrow> kernel \<times> super_info \<Rightarrow> nat \<Rightarrow> memory \<Rightarrow> bool" where
  "kernel_serves env st k entry \<longleftrightarrow>
     (let si = snd st; s = si_super si in
      (\<exists>cap. k_cache (fst st) = Cache cap \<and> 2 ^ k \<le> cap) \<and> ke_cache_alloc env 0 \<and> ke_cache_alloc env 1 \<and>
      usable (fst st) (si_compressor si) \<and> length entry < 2 ^ 31 \<and> block_size_ok s k \<and>
      si_max_block_size si = max_block_size (sb_kbits s) \<and> uint (sb_blocks_size s) < 2 ^ 28 \<and>
      (\<exists>btab ks ecb dev log pre post.
         holds_table (si_blocks_table si) btab \<and> block_table_good s ks btab \<and>
         device_ok env dev log \<and> si_devblksize si = 2 ^ log \<and> si_devblksize_log2 si = int log \<and>
         dev = pre @ ecb @ post \<and> int (length pre) = uint (sb_entries_offset s) \<and>
         int (length pre + length ecb) < 2 ^ 31 - 2 ^ 17 \<and>
         stored_blocks_ok (kc_uncompress (k_compressors (fst st) ! si_compressor si)) k entry ecb ks))"

lemma patch_start: "length x \<le> length buf \<Longrightarrow> take (length x) (patch buf 0 x) = x"
  by (simp add: patch_def)

text \<open>Reading the part of the device that lies behind \<open>pre\<close>.\<close>

lemma smashfs_read_part:
  assumes "device_ok env dev log" and "dev = pre @ d @ post" and "int (length pre + length d) < 2 ^ 31 - 2 ^ 17"
    and "length d \<le> length buf"
  shows "\<exists>buf'. smashfs_read env (2 ^ log) (int log) buf (int (length pre)) (int (length d)) = Ok (int (length d), buf') \<and>
    take (length d) buf' = d \<and> length buf' = length buf"
proof -
  have "smashfs_read env (2 ^ log) (int log) buf (int (length pre)) (int (length d)) =
      Ok (int (length d), patch buf 0 (take (nat (int (length d))) (drop (nat (int (length pre))) dev)))"
    using assms by (intro smashfs_read_ok) simp_all
  moreover have "take (nat (int (length d))) (drop (nat (int (length pre))) dev) = d" using assms(2) by simp
  ultimately show ?thesis using patch_start [of d buf] assms(4) length_patch [of 0 d buf] by simp
qed

lemma length_block_bytes: "length (block_bytes k entry b) \<le> 2 ^ k"
  by (simp add: block_bytes_def)

interpretation kernel: block_source "read_block env" "kernel_serves env" for env
proof unfold_locales
  fix st :: "kernel \<times> super_info" and k :: nat and entry :: memory and b :: int
  assume w: "kernel_serves env st k entry" and b: "0 \<le> b" "b < block_count k entry"
  obtain kern si where st: "st = (kern, si)" by fastforce
  let ?s = "si_super si" and ?u = "kc_uncompress (k_compressors kern ! si_compressor si)"
  obtain cap where cap: "k_cache kern = Cache cap" "2 ^ k \<le> cap" using w by (auto simp: kernel_serves_def st Let_def)
  have si: "usable kern (si_compressor si)" "length entry < 2 ^ 31" "block_size_ok ?s k"
    "si_max_block_size si = max_block_size (sb_kbits ?s)" "uint (sb_blocks_size ?s) < 2 ^ 28"
    using w by (simp_all add: kernel_serves_def st Let_def)
  obtain btab ks ecb dev log pre post where d: "holds_table (si_blocks_table si) btab" "block_table_good ?s ks btab"
    "device_ok env dev log" "si_devblksize si = 2 ^ log" "si_devblksize_log2 si = int log"
    "dev = pre @ ecb @ post" "int (length pre) = uint (sb_entries_offset ?s)"
    "int (length pre + length ecb) < 2 ^ 31 - 2 ^ 17" "stored_blocks_ok ?u k entry ecb ks"
    using w unfolding kernel_serves_def st Let_def fst_conv snd_conv by blast
  let ?d = "block_bytes k entry (nat b)"
  obtain off cs where k: "block_fill si b =
      Ok \<lparr>ik_offset = off, ik_size = int (length ?d), ik_compressed_size = cs\<rparr>"
    "0 \<le> off" "0 \<le> cs" "cs \<le> int (length ?d)" "off + cs \<le> int (length ecb)"
    "?u (take (nat cs) (drop (nat off) ecb)) (int (length ?d)) = (int (length ?d), ?d)"
    using block_bits_stored [OF d(1,2,9) si(2,3) uint_nonnegative si(5) b] by (auto simp: block_fill_def si(4))
  have ld: "int (length ?d) \<le> 2 ^ k" "int (length ?d) \<le> uint (sb_block_size ?s)"
    using length_block_bytes [of k entry "nat b"] block_size_okD(2) [OF si(3)] by simp_all
  define x where "x = take (nat cs) (drop (nat off) ecb)"
  have x: "int (length x) = cs" using k(2,3,5) by (simp add: x_def)
  have dev: "dev = (pre @ take (nat off) ecb) @ x @ (drop (nat cs) (drop (nat off) ecb) @ post)"
    unfolding d(6) x_def by (simp del: drop_drop)
  have lp: "int (length (pre @ take (nat off) ecb)) = uint (sb_entries_offset ?s) + off"
    using k(2,3,5) d(7) by simp
  have "int (length (pre @ take (nat off) ecb) + length x) < 2 ^ 31 - 2 ^ 17"
    using k(2,3,5) d(7,8) x lp by simp
  moreover have xc: "int (length x) \<le> cap" using x k(4) ld(1) cap(2) by linarith
  then have "length x \<le> length (replicate (nat cap) (0 :: byte))" by simp
  ultimately obtain buf' where rd: "smashfs_read env (2 ^ log) (int log) (replicate (nat cap) 0)
      (int (length (pre @ take (nat off) ecb))) (int (length x)) = Ok (int (length x), buf')"
    "take (length x) buf' = x" "length buf' = length (replicate (nat cap) (0 :: byte))"
    using smashfs_read_part [OF d(3) dev] by blast
  have cs: "cs < 2 ^ 31" "nat cs = length x" using k(4) ld(1) si(2) x by (auto simp: block_bytes_def)
  have o31: "uint (sb_entries_offset ?s) + off < 2147483648" using lp d(8) k(2,3,5) d(7) by simp
  have sl: "mem_slice buf' 0 cs = Ok x"
    using rd(2,3) k(3) cs(2) x xc by (subst mem_slice_Ok) simp_all
  have dc: "int (length ?d) \<le> cap" using ld(1) cap(2) by linarith
  have "length ?d < 2 ^ 31" using si(2) by (simp add: block_bytes_def)
  then have du: "as_u32 (int (length ?d)) = int (length ?d)" by simp
  have ts: "to_s32 (uint (sb_entries_offset ?s) + off) = uint (sb_entries_offset ?s) + off"
    using o31 k(2) uint_nonnegative [of "sb_entries_offset ?s"] by (intro to_s32_id) linarith+
  show "read_block env st b = Ok (int (length ?d), ?d)"
    using rd(1) [unfolded lp x] k(1,3) k(6) [folded x_def] cs(1) sl si(1) ld(2) dc
    by (simp add: read_block_def st Let_def d(4,5) cap(1) ts du kernel_uncompress_def)
qed

section \<open>Nodes\<close>

text \<open>Any part of a node's contents is read as that part.\<close>

lemma node_read_ok:
  assumes w: "kernel_serves env st k entry" and p: "node_placed s k entry n" and s: "s = si_super (snd st)"
    and v: "nd_index v = n_index n" "nd_block v = n_block n"
    and o: "0 \<le> offset" "0 \<le> sz" "offset + sz \<le> n_size n" and c: "sz \<le> cap" "nat sz < fuel"
  shows "node_read env fuel st v node_read_copy (cap, []) offset sz =
    Ok (0, (cap, take (nat sz) (drop (nat offset) (node_bytes s n))))"
proof -
  have bs: "block_size_ok s k" "length entry < 2 ^ 31" using w by (simp_all add: kernel_serves_def Let_def s)
  note bd = block_size_okD [OF bs(1)]
  obtain cap' where ca: "k_cache (fst st) = Cache cap'" using w by (auto simp: kernel_serves_def Let_def)
  have al: "ke_cache_alloc env 0" "ke_cache_alloc env 1" using w by (simp_all add: kernel_serves_def Let_def)
  have lg: "\<not> 31 \<le> uint (sb_block_log2 s)"
  proof -
    have "k \<le> 20" using bs(1) by (simp add: block_size_ok_def)
    moreover have "uint (sb_block_log2 s) = int k" by (simp only: uint_nat bd(1))
    ultimately show ?thesis by simp
  qed
  define o' where "o' = offset + n_index n + n_block n * 2 ^ k"
  have pl: "n_size n = int (length (node_bytes s n))" "0 \<le> n_block n" "0 \<le> n_index n"
    "n_block n * 2 ^ k + n_index n + n_size n \<le> int (length entry)"
    "take (length (node_bytes s n)) (drop (nat (n_block n * 2 ^ k + n_index n)) entry) = node_bytes s n"
    using p by (simp_all add: node_placed_def)
  have q: "0 \<le> n_block n * 2 ^ k" using pl(2) by simp
  have o0: "0 \<le> o'" using o(1) pl(3) q by (simp add: o'_def)
  have e: "o' div 2 ^ k * 2 ^ k + o' mod 2 ^ k = o'" by (rule div_mult_mod_eq)
  have le: "o' + sz \<le> int (length entry)" using o(3) pl(4) by (simp add: o'_def)
  have rl: "read_loop fuel (read_block env st) node_read_copy sz 0 (o' mod 2 ^ k) (o' div 2 ^ k) (cap, []) =
      Ok (0, (cap, take (nat sz) (drop (nat o') entry)))"
    using kernel.read_copy_ok [OF w, of "o' div 2 ^ k" "o' mod 2 ^ k" sz cap fuel, unfolded e] o0 le o(2) c bs(2)
    by (simp add: pos_imp_zdiv_nonneg_iff)
  have "take (nat sz) (drop (nat o') entry) = take (nat sz) (drop (nat offset) (node_bytes s n))"
  proof -
    have n: "nat o' = nat (n_block n * 2 ^ k + n_index n) + nat offset"
      using o(1) pl(3) q by (simp add: o'_def nat_add_distrib)
    have "nat sz \<le> length (node_bytes s n) - nat offset" using o pl(1) by linarith
    then have "take (nat sz) (drop (nat offset) (take (length (node_bytes s n)) xs)) =
        take (nat sz) (drop (nat offset) xs)" for xs
      by (simp add: drop_take min_absorb1)
    from this [of "drop (nat (n_block n * 2 ^ k + n_index n)) entry"]
    have "take (nat sz) (drop (nat offset) (node_bytes s n)) =
        take (nat sz) (drop (nat offset) (drop (nat (n_block n * 2 ^ k + n_index n)) entry))"
      unfolding pl(5) .
    then show ?thesis by (simp add: n add.commute)
  qed
  with rl show ?thesis
    using ca al lg
    by (simp add: node_read_def block_alloc_def s [symmetric] bd(1,2) v push_bit_eq_mult and_pow2_minus_1
        shiftr_div flip: o'_def)
qed

text \<open>
  What \<open>node_fill\<close> delivers of a node; unlike the extractor, the module adds the least times
  of the super block.
\<close>

definition mounted_node :: "options \<Rightarrow> super_block \<Rightarrow> int \<Rightarrow> mnode \<Rightarrow> node" where
  "mounted_node opt s number n =
     (expected_node opt s number n)
       \<lparr>nd_ctime := expected_ctime opt s n + uint (min_ctime (sb_min s)),
        nd_mtime := expected_mtime opt s n + uint (min_mtime (sb_min s))\<rparr>"

definition kernel_ok ::
  "kernel_env \<Rightarrow> options \<Rightarrow> super_block \<Rightarrow> mnode list \<Rightarrow> nat \<Rightarrow> memory \<Rightarrow> kernel \<times> super_info \<Rightarrow> bool" where
  "kernel_ok env opt s nodes k entry st \<longleftrightarrow>
     (let si = snd st in
      si_super si = s \<and> kernel_serves env st k entry \<and> heap_ok (ke_alloc env) \<and>
      sb_root s = 0 \<and> sb_ctime s = 0 \<and> optional_bits opt s \<and>
      si_max_inode_size si = max_inode_size (sb_ibits s) \<and> inode_widths_ok s \<and>
      int (length nodes) = uint (sb_inodes s) \<and> length nodes < 2 ^ 22 \<and> uint (sb_inodes_size s) < 2 ^ 28 \<and>
      (\<exists>itab. holds_table (si_inodes_table si) itab \<and> int (length itab) = inode_table_size s \<and>
         holds (membit itab) 0 (concat (map (inode_fields s) nodes))) \<and>
      (\<forall>n \<in> set nodes. node_ok n \<and> node_placed s k entry n \<and> payload_exact s (n_payload n) \<and>
         map field_value (inode_fields s n) = inode_view opt s n))"

lemma node_fill_ok:
  assumes "kernel_ok env opt s nodes k entry (kern, si)" and "i < length nodes"
  shows "node_fill si (int i) = Ok (mounted_node opt s (int i) (nodes ! i))"
proof -
  obtain itab where t: "holds_table (si_inodes_table si) itab" "int (length itab) = inode_table_size s"
    "holds (membit itab) 0 (concat (map (inode_fields s) nodes))"
    using assms(1) by (auto simp: kernel_ok_def Let_def)
  have u: "si_super si = s" "si_max_inode_size si = max_inode_size (sb_ibits s)" "inode_widths_ok s"
    "int (length nodes) = uint (sb_inodes s)" "length nodes < 2 ^ 22" "length entry < 2 ^ 31"
    "uint (sb_inodes_size s) < 2 ^ 28" "optional_bits opt s" "sb_ctime s = 0"
    using assms(1) by (auto simp: kernel_ok_def kernel_serves_def Let_def)
  have n: "node_ok (nodes ! i)" "node_placed s k entry (nodes ! i)"
    "map field_value (inode_fields s (nodes ! i)) = inode_view opt s (nodes ! i)"
    using assms nth_mem [OF assms(2)] by (auto simp: kernel_ok_def Let_def)
  show ?thesis
    unfolding node_fill_def u(1,2) node_bits_ok [OF t u(3-5) uint_nonnegative u(7) assms(2)]
    using node_defaults_ok [OF n(1,2) u(6,8,9)] n(3)
    by (simp add: Let_def mounted_node_def expected_node_def)
qed

lemma mounted_node_simps [simp]:
  "nd_type (mounted_node opt s i n) = n_type n" "nd_size (mounted_node opt s i n) = n_size n"
  "nd_index (mounted_node opt s i n) = n_index n" "nd_block (mounted_node opt s i n) = n_block n"
  "nd_owner_mode (mounted_node opt s i n) = n_owner_mode n"
  by (simp_all add: mounted_node_def expected_node_def)

text \<open>The inode of a node.\<close>

definition ops_of :: "mnode \<Rightarrow> inode_ops" where
  "ops_of n = (case n_payload n of Directory_payload p es \<Rightarrow> Directory_ops | Link_payload p \<Rightarrow> Link_ops | _ \<Rightarrow> File_ops)"

definition type_bits :: "inode_ops \<Rightarrow> int" where
  "type_bits ops = (case ops of Directory_ops \<Rightarrow> S_IFDIR | File_ops \<Rightarrow> S_IFREG | Link_ops \<Rightarrow> S_IFLNK)"

definition mounted_inode :: "options \<Rightarrow> super_info \<Rightarrow> int \<Rightarrow> int \<Rightarrow> mnode \<Rightarrow> inode" where
  "mounted_inode opt si ino number n =
     (let v = mounted_node opt (si_super si) number n in
      \<lparr>i_ino = ino, i_ops = ops_of n, i_mode = type_bits (ops_of n) OR file_mode v,
       i_uid = nd_uid v, i_gid = nd_gid v, i_size = n_size n,
       i_blocks = drop_bit (nat (si_devblksize_log2 si)) (n_size n + si_devblksize si - 1) + 1,
       i_ctime = nd_ctime v, i_mtime = nd_mtime v, i_atime = nd_mtime v, i_node = v\<rparr>)"

lemma smashfs_read_inode_ok:
  assumes "kernel_ok env opt s nodes k entry (kern, si)" and "i < length nodes"
  shows "smashfs_read_inode si ino (int i) = Ok (mounted_inode opt si ino (int i) (nodes ! i))"
proof -
  let ?n = "nodes ! i"
  have s: "si_super si = s" using assms(1) by (simp add: kernel_ok_def Let_def)
  have n: "node_ok ?n" using assms nth_mem [OF assms(2)] by (auto simp: kernel_ok_def Let_def)
  have u: "0 \<le> nd_uid (mounted_node opt s (int i) ?n)" "nd_uid (mounted_node opt s (int i) ?n) < 4294967296"
    "0 \<le> nd_gid (mounted_node opt s (int i) ?n)" "nd_gid (mounted_node opt s (int i) ?n) < 4294967296"
    using n by (simp_all add: node_ok_def u32_range_def mounted_node_def expected_node_def)
  have "payload_ok ?n" using n by (simp add: node_ok_def)
  then show ?thesis
    by (cases rule: payload_ok_cases)
      (use u in \<open>simp_all add: smashfs_read_inode_def node_fill_ok [OF assms] mounted_inode_def Let_def s ops_of_def
        type_bits_def\<close>)
qed

end
