(* ===== verification/Reader_Directory.thy ===== *)
theory Reader_Directory
  imports Reader
begin

text \<open>
  How the readers take a directory apart: its header (the number of the parent directory and
  the number of entries), then per entry the packed number, length and type, followed by the
  name.  The extractor's \<open>traverse\<close> and the kernel's \<open>readdir\<close> and \<open>lookup\<close> all walk it with a
  pointer into the contents of the node, here the bytes from that pointer on.
\<close>

definition dir_header :: "super_block \<Rightarrow> memory \<Rightarrow> int \<Rightarrow> (u32 \<times> u32) res" where
  "dir_header s buf sz =
     rbind (bitbuffer_init_from_buffer buf (to_s32 sz)) (\<lambda>bb.
     rbind (bitbuffer_getbits bb (sint (ib_parent (sb_ibits s)))) (\<lambda>(parent, bb).
     rbind (bitbuffer_getbits bb (sint (ib_nentries (sb_ibits s)))) (\<lambda>(nentries, _).
     Ok (parent, nentries))))"

text \<open>An entry with its type, as \<open>readdir\<close> reads it.\<close>

definition dir_entry :: "super_block \<Rightarrow> memory \<Rightarrow> (u32 \<times> u32 \<times> u32) res" where
  "dir_entry s buf =
     rbind (bitbuffer_init_from_buffer buf (to_s32 (entry_size s))) (\<lambda>bb.
     rbind (bitbuffer_getbits bb (sint (ib_entry_number (sb_ibits s)))) (\<lambda>(number, bb).
     rbind (bitbuffer_getbits bb (sint (ib_entry_length (sb_ibits s)))) (\<lambda>(len, bb).
     rbind (bitbuffer_getbits bb (sint (ib_entry_type (sb_ibits s)))) (\<lambda>(type, _).
     Ok (number, len, type)))))"

text \<open>An entry with its type skipped.\<close>

definition dir_entry_skip :: "super_block \<Rightarrow> memory \<Rightarrow> (u32 \<times> u32) res" where
  "dir_entry_skip s buf =
     rbind (bitbuffer_init_from_buffer buf (to_s32 (entry_size s))) (\<lambda>bb.
     rbind (bitbuffer_getbits bb (sint (ib_entry_number (sb_ibits s)))) (\<lambda>(number, bb).
     rbind (bitbuffer_getbits bb (sint (ib_entry_length (sb_ibits s)))) (\<lambda>(len, bb).
     rbind (bitbuffer_skipbits bb (sint (ib_entry_type (sb_ibits s)))) (\<lambda>_.
     Ok (number, len)))))"

section \<open>They read what was written\<close>

lemma get_packed_fields:
  assumes fs: "widths_ok fs" "0 \<le> sz" "sz < 2 ^ 28" "int (width_sum fs) \<le> 8 * sz"
    and l: "length (pack sz fs @ rest) < 2 ^ 28"
  shows "\<exists>b'. getbits_seq (map fst fs) \<lparr>bb_buffer = pack sz fs @ rest, bb_end = n, bb_size = n, bb_bsize = n * 8,
      bb_index = 0, bb_external = True\<rparr> = Ok (map field_value fs, b')"
proof -
  have t: "holds_table (pack sz fs @ rest) (pack sz fs)" using l by (simp add: holds_table_def)
  have le: "width_sum fs \<le> 8 * length (pack sz fs)" using pack_ok(2) [OF fs] fs(2,4) by linarith
  have "holds (membit (pack sz fs @ rest)) 0 fs"
    by (rule holds_table_fields [OF t pack_ok(3) [OF fs] le])
  with get_table_fields [OF t fs(1), of 0 n] le show ?thesis by simp
qed

lemma init_at_start:
  assumes "0 \<le> sz" and "sz < 2 ^ 28"
  shows "bitbuffer_init_from_buffer buf (to_s32 sz) =
    Ok \<lparr>bb_buffer = buf, bb_end = sz, bb_size = sz, bb_bsize = sz * 8, bb_index = 0, bb_external = True\<rparr>"
  using assms by (simp add: bitbuffer_init_from_buffer_def)

lemma dir_header_ok:
  assumes w: "entry_widths_ok s" and x: "payload_exact s (Directory_payload p es)"
    and l: "length (directory_bytes s p es) < 2 ^ 28" and sz: "0 \<le> sz" "sz < 2 ^ 28"
  shows "dir_header s (directory_bytes s p es) sz = Ok (to_u32 p, to_u32 (int (length es)))"
proof -
  let ?fs = "directory_fields s p (int (length es))"
  note f = directory_fields_ok [OF w]
  have d: "directory_size s < 2 ^ 28" using f(3) by simp
  from get_packed_fields [OF f(1,2) d f(4), of p "int (length es)" "concat (map (entry_bytes s) es)" sz] l
  obtain b' where "getbits_seq (map fst ?fs) \<lparr>bb_buffer = directory_bytes s p es, bb_end = sz, bb_size = sz,
      bb_bsize = sz * 8, bb_index = 0, bb_external = True\<rparr> = Ok (map field_value ?fs, b')"
    by (auto simp: directory_bytes_def)
  moreover have "map field_value ?fs = [to_u32 p, to_u32 (int (length es))]"
    using x by (simp add: payload_exact_def)
  ultimately show ?thesis
    unfolding dir_header_def init_at_start [OF sz] by (auto simp: directory_fields_def)
qed

lemma dir_entry_fields:
  assumes w: "entry_widths_ok s" and x: "map field_value (entry_fields s e) = [to_u32 (de_number e), to_u32 (de_length e), to_u32 (de_type e)]"
    and l: "length (entry_bytes s e @ rest) < 2 ^ 28"
  shows "dir_entry s (entry_bytes s e @ rest) = Ok (to_u32 (de_number e), to_u32 (de_length e), to_u32 (de_type e))"
    and "dir_entry_skip s (entry_bytes s e @ rest) = Ok (to_u32 (de_number e), to_u32 (de_length e))"
proof -
  let ?fs = "entry_fields s e" and ?n = "entry_size s"
  note f = entry_fields_ok [OF w]
  have d: "?n < 2 ^ 28" using f(3) by simp
  let ?b = "\<lparr>bb_buffer = entry_bytes s e @ rest, bb_end = ?n, bb_size = ?n, bb_bsize = ?n * 8, bb_index = 0,
    bb_external = True\<rparr>"
  from get_packed_fields [OF f(1,2) d f(4), of e "de_name e @ rest" ?n] l
  obtain b' where "getbits_seq (map fst ?fs) ?b = Ok (map field_value ?fs, b')"
    by (auto simp: entry_bytes_def)
  then obtain b1 b2 b3 where g: "bitbuffer_getbits ?b (sint (ib_entry_number (sb_ibits s))) = Ok (to_u32 (de_number e), b1)"
    "bitbuffer_getbits b1 (sint (ib_entry_length (sb_ibits s))) = Ok (to_u32 (de_length e), b2)"
    "bitbuffer_getbits b2 (sint (ib_entry_type (sb_ibits s))) = Ok (to_u32 (de_type e), b3)"
    unfolding x by (auto simp: entry_fields_def)
  then show "dir_entry s (entry_bytes s e @ rest) = Ok (to_u32 (de_number e), to_u32 (de_length e), to_u32 (de_type e))"
    unfolding dir_entry_def init_at_start [OF f(2) d] by simp
  have w3: "uint (ib_entry_number (sb_ibits s)) \<le> 32" "uint (ib_entry_length (sb_ibits s)) \<le> 32"
    "uint (ib_entry_type (sb_ibits s)) \<le> 32"
    using w by (auto simp: entry_widths_ok_def)
  have len: "int (width_sum ?fs) \<le> 8 * int (length (entry_bytes s e))"
    using f(2) f(4) [of e] pack_ok(2) [OF f(1,2) d f(4), of e] by (simp add: entry_bytes_def)
  have ws: "width_sum ?fs = unat (ib_entry_number (sb_ibits s)) + unat (ib_entry_length (sb_ibits s)) +
      unat (ib_entry_type (sb_ibits s))"
    using w3 by (simp add: entry_fields_def width_sint)
  have wf: "bb_wf ?b" using l by (simp add: bb_wf_def)
  from bb.get_ok [OF this, of "unat (ib_entry_number (sb_ibits s))"] g(1) len ws w3
  have b1: "bb_wf b1" "nat (bb_index b1) = unat (ib_entry_number (sb_ibits s))"
    "length (bb_buffer b1) = length (entry_bytes s e @ rest)"
    by (auto simp: width_sint)
  from bb.get_ok [OF b1(1), of "unat (ib_entry_length (sb_ibits s))"] g(2) b1 len ws w3
  have b2: "bb_wf b2" "nat (bb_index b2) = unat (ib_entry_number (sb_ibits s)) + unat (ib_entry_length (sb_ibits s))"
    by (auto simp: width_sint)
  have i2: "0 \<le> bb_index b2" using b2(1) by (simp add: bb_wf_def)
  then have "bb_index b2 = int (nat (bb_index b2))" by simp
  also have "\<dots> = uint (ib_entry_number (sb_ibits s)) + uint (ib_entry_length (sb_ibits s))"
    using b2(2) by simp
  finally have "bb_index b2 + uint (ib_entry_type (sb_ibits s)) \<le> 96" using w3 by linarith
  then have "c_int (bb_index b2 + uint (ib_entry_type (sb_ibits s))) = Ok (bb_index b2 + uint (ib_entry_type (sb_ibits s)))"
    using i2 uint_nonnegative [of "ib_entry_type (sb_ibits s)"] by (intro c_int_Ok) linarith+
  then have "bitbuffer_skipbits b2 (sint (ib_entry_type (sb_ibits s))) =
      Ok (b2\<lparr>bb_index := bb_index b2 + uint (ib_entry_type (sb_ibits s))\<rparr>)"
    using w3(3) by (simp add: bitbuffer_skipbits_def width_sint)
  then show "dir_entry_skip s (entry_bytes s e @ rest) = Ok (to_u32 (de_number e), to_u32 (de_length e))"
    unfolding dir_entry_skip_def init_at_start [OF f(2) d] using g(1,2) by simp
qed

end
