(* ===== verification/Kernel_Dir.thy ===== *)
theory Kernel_Dir
  imports Kernel_Read Reader_Directory
begin

text \<open>
  \<open>src/linux/super.c\<close>, \<open>smashfs_readdir\<close>, \<open>smashfs_lookup\<close> and \<open>smashfs_readpage\<close>: what a
  mounted file system answers to listing a directory, to opening a name in it and to reading
  a page of a file.
\<close>

section \<open>Listing a directory\<close>

record kdirent =
  kd_name :: memory
  kd_ino :: int
  kd_type :: int

definition DT_DIR :: int where "DT_DIR = 4"

text \<open>The type of an entry for user space; 0 is \<open>DT_UNKNOWN\<close>.\<close>

definition dt_of :: "u32 \<Rightarrow> int" where
  "dt_of t =
     (if uint t = inode_code regular_file then 8
      else if uint t = inode_code directory then DT_DIR
      else if uint t = inode_code symbolic_link then 10
      else if uint t = inode_code character_device then 2
      else if uint t = inode_code block_device then 6
      else if uint t = inode_code fifo then 1
      else if uint t = inode_code socket then 12
      else 0)"

text \<open>
  \<open>accept out d\<close> is the answer of \<open>dir_emit\<close>: whether there is room for \<open>d\<close> after \<open>out\<close>.  The
  loop over the two dots stops at the first refusal, which is the first part of its result.
\<close>

type_synonym acceptor = "kdirent list \<Rightarrow> kdirent \<Rightarrow> bool"

function readdir_dots :: "acceptor \<Rightarrow> int \<Rightarrow> int \<Rightarrow> int \<Rightarrow> kdirent list \<Rightarrow> bool \<times> int \<times> kdirent list" where
  "readdir_dots accept ino parent pos out =
     (if pos < 3 then
        let (name, len, i_ino) = (if pos = 0 then ([0x2E], 1, to_s32 ino) else ([0x2E, 0x2E], 2, to_s32 (parent + 1)));
            d = \<lparr>kd_name = name, kd_ino = i_ino, kd_type = DT_DIR\<rparr>
        in if \<not> accept out d then (True, pos, out)
           else readdir_dots accept ino parent (pos + len) (out @ [d])
      else (False, pos, out))"
  by pat_completeness auto
termination
  by (relation "measure (\<lambda>(accept, ino, parent, pos, out). nat (3 - pos))") (auto split: if_splits)

declare readdir_dots.simps [simp del]

text \<open>
  The loop over the entries: \<open>buf\<close> are the bytes from the pointer on, \<open>off\<close> its distance from
  the start.  An entry is handed out only if the position is its own.
\<close>

fun readdir_entries ::
  "super_block \<Rightarrow> acceptor \<Rightarrow> nat \<Rightarrow> memory \<Rightarrow> int \<Rightarrow> int \<Rightarrow> kdirent list \<Rightarrow> (int \<times> kdirent list) res" where
  "readdir_entries s accept 0 buf off pos out = Ok (pos, out)"
| "readdir_entries s accept (Suc e) buf off pos out =
     rbind (dir_entry s buf) (\<lambda>(number, len, typ).
     let sz = entry_size s; buf = drop (nat sz) buf in
     if pos = off + 3 then
       rbind (mem_slice buf 0 (to_s32 (uint len))) (\<lambda>name.
       let d = \<lparr>kd_name = name, kd_ino = uint number + 1, kd_type = dt_of typ\<rparr> in
       if \<not> accept out d then Ok (pos, out)
       else readdir_entries s accept e (drop (unat len) buf) (off + sz + uint len) (pos + sz + uint len) (out @ [d]))
     else readdir_entries s accept e (drop (unat len) buf) (off + sz + uint len) pos out)"

text \<open>The result is the \<open>int\<close> returned, the new position and what has been handed out.\<close>

definition smashfs_readdir ::
  "kernel_env \<Rightarrow> nat \<Rightarrow> kernel \<times> super_info \<Rightarrow> inode \<Rightarrow> acceptor \<Rightarrow> int \<Rightarrow> (int \<times> int \<times> kdirent list) res" where
  "smashfs_readdir env fuel st dir accept pos =
     (let n = i_node dir; s = si_super (snd st) in
      if 3 + nd_size n \<le> pos then Ok (0, pos, [])
      else if \<not> malloc_ok (ke_alloc env) (nd_size n) then Ok (enomem, pos, [])
      else rbind (node_read env fuel st n node_read_copy (nd_size n, []) 0 (nd_size n)) (\<lambda>(rc, (_, buf)).
        if rc \<noteq> 0 then Ok (eio, pos, [])
        else rbind (dir_header s buf (nd_size n)) (\<lambda>(parent, nentries).
          let (full, pos, out) = readdir_dots accept (i_ino dir) (uint parent) pos [] in
          if full then Ok (0, pos, out)
          else
            let sz = directory_size s; pos = (if pos < 3 + sz then pos + sz else pos) in
            rbind (readdir_entries s accept (unat nentries) (drop (nat sz) buf) sz pos out) (\<lambda>(pos, out).
            Ok (0, pos, out)))))"

section \<open>Looking a name up\<close>

text \<open>
  The number of the entry with a name; the search ends at an entry whose first byte, a signed
  \<open>char\<close>, is greater than that of the name.
\<close>

fun lookup_entries :: "super_block \<Rightarrow> memory \<Rightarrow> nat \<Rightarrow> memory \<Rightarrow> int option res" where
  "lookup_entries s name 0 buf = Ok None"
| "lookup_entries s name (Suc e) buf =
     rbind (dir_entry_skip s buf) (\<lambda>(number, len).
     let buf = drop (nat (entry_size s)) buf in
     rbind (mem_get buf 0) (\<lambda>c.
     if uint (case name of [] \<Rightarrow> 0 | d # _ \<Rightarrow> d) < sint c then Ok None
     else rbind (if uint len = int (length name) then rbind (mem_slice buf 0 (int (length name))) (\<lambda>x. Ok (x = name))
                 else Ok False) (\<lambda>hit.
          if hit then Ok (Some (uint number))
          else lookup_entries s name e (drop (unat len) buf))))"

definition smashfs_lookup ::
  "kernel_env \<Rightarrow> nat \<Rightarrow> kernel \<times> super_info \<Rightarrow> icache \<Rightarrow> inode \<Rightarrow> memory \<Rightarrow> (inode \<times> icache) res" where
  "smashfs_lookup env fuel st ic dir name =
     (let n = i_node dir; s = si_super (snd st) in
      rbind (check (malloc_ok (ke_alloc env) (nd_size n)) ENOMEM) (\<lambda>_.
      rbind (node_read env fuel st n node_read_copy (nd_size n, []) 0 (nd_size n)) (\<lambda>(rc, (_, buf)).
      rbind (check (rc = 0) EIO) (\<lambda>_.
      rbind (dir_header s buf (nd_size n)) (\<lambda>(_, nentries).
      rbind (lookup_entries s name (unat nentries) (drop (nat (directory_size s)) buf)) (\<lambda>r.
      case r of None \<Rightarrow> Err ENOENT | Some number \<Rightarrow> smashfs_get_inode env (snd st) ic number))))))"

section \<open>Reading a page\<close>

text \<open>
  The result is whether the page is up to date, and its bytes.  What a page held before is
  \<open>page\<close>; the index is compared as an unsigned number.
\<close>

definition smashfs_readpage ::
  "kernel_env \<Rightarrow> nat \<Rightarrow> kernel \<times> super_info \<Rightarrow> inode \<Rightarrow> memory \<Rightarrow> nat \<Rightarrow> (bool \<times> memory) res" where
  "smashfs_readpage env fuel st inode page index =
     (let n = i_node inode;
          max_block = to_s32 (drop_bit PAGE_CACHE_SHIFT (i_size inode + PAGE_CACHE_SIZE - 1)) in
      if int index < max_block mod 2 ^ 64 then
        if nd_type n = inode_code symbolic_link \<or> nd_type n = inode_code regular_file then
          let offset = int index * PAGE_CACHE_SIZE; sz = min (nd_size n - offset) PAGE_CACHE_SIZE in
          rbind (node_read env fuel st n node_read_copy (PAGE_CACHE_SIZE, []) offset sz) (\<lambda>(rc, (_, d)).
          if rc \<noteq> 0 then Ok (False, d @ drop (length d) page)
          else Ok (True, take (nat sz) (d @ drop (length d) page) @ replicate (nat (PAGE_CACHE_SIZE - sz)) 0))
        else Ok (False, page)
      else Ok (True, replicate (nat PAGE_CACHE_SIZE) 0))"

end
