(* ===== verification/Kernel_Listing.thy ===== *)
theory Kernel_Listing
  imports Kernel_Dir
begin

text \<open>
  The module's directories: listing one, in as many calls as the caller needs, gives every
  entry once and in order; looking a name up gives the node that the entry names.
\<close>

section \<open>The contents of a directory\<close>

text \<open>A node that can be read whole: its contents and the number of turns are within bounds.\<close>

definition readable :: "nat \<Rightarrow> mnode \<Rightarrow> bool" where
  "readable fuel n \<longleftrightarrow> n_size n < 2 ^ 28 \<and> nat (n_size n) < fuel"

definition entries_good :: "super_block \<Rightarrow> dentry list \<Rightarrow> bool" where
  "entries_good s es \<longleftrightarrow> (\<forall>e \<in> set es. dentry_ok e \<and> de_name e \<noteq> [] \<and> map field_value (entry_fields s e) =
      [to_u32 (de_number e), to_u32 (de_length e), to_u32 (de_type e)])"

lemma kernel_directory:
  assumes w: "kernel_ok env opt s nodes k entry st" and i: "i < length nodes"
    and pl: "n_payload (nodes ! i) = Directory_payload p es" and r: "readable fuel (nodes ! i)"
    and v: "nd_index v = n_index (nodes ! i)" "nd_block v = n_block (nodes ! i)" "nd_size v = n_size (nodes ! i)"
  shows "malloc_ok (ke_alloc env) (nd_size v)"
    and "node_read env fuel st v node_read_copy (nd_size v, []) 0 (nd_size v) = Ok (0, (nd_size v, directory_bytes s p es))"
    and "dir_header s (directory_bytes s p es) (nd_size v) = Ok (to_u32 p, to_u32 (int (length es)))"
    and "unat (to_u32 (int (length es))) = length es"
    and "drop (nat (directory_size s)) (directory_bytes s p es) = concat (map (entry_bytes s) es)"
    and "nd_size v = directory_size s + int (length (concat (map (entry_bytes s) es)))"
    and "length (concat (map (entry_bytes s) es)) < 2 ^ 28" and "entry_widths_ok s" and "uint (to_u32 p) = p"
proof -
  let ?n = "nodes ! i"
  have m: "?n \<in> set nodes" using i by simp
  have g: "node_ok ?n" "node_placed s k entry ?n" "payload_exact s (n_payload ?n)" "entry_widths_ok s"
    "heap_ok (ke_alloc env)" "si_super (snd st) = s" "kernel_serves env st k entry"
    using w m inode_widths_entry by (auto simp: kernel_ok_def Let_def)
  have po: "u32_range p" "length es < 2 ^ 31"
    using g(1) pl by (simp_all add: node_ok_def payload_ok_def)
  have nb: "node_bytes s ?n = directory_bytes s p es" by (simp add: node_bytes_def pl)
  have sz: "n_size ?n = int (length (directory_bytes s p es))" using g(2) nb by (simp add: node_placed_def)
  have r28: "n_size ?n < 2 ^ 28" "nat (n_size ?n) < fuel" using r by (simp_all add: readable_def)
  have dl: "length (directory_bytes s p es) < 2 ^ 28" using r28 sz by simp
  have "0 \<le> n_size ?n" using sz by simp
  then show "malloc_ok (ke_alloc env) (nd_size v)" using g(5) r28 v(3) by simp
  show "node_read env fuel st v node_read_copy (nd_size v, []) 0 (nd_size v) = Ok (0, (nd_size v, directory_bytes s p es))"
    using node_read_ok [OF g(7,2) g(6) [symmetric] v(1,2), of 0 "n_size ?n" "n_size ?n" fuel] r28 nb sz v(3) by simp
  have px: "payload_exact s (Directory_payload p es)" using g(3) pl by simp
  have "0 \<le> nd_size v" "nd_size v < 2 ^ 28" using r28 v(3) sz by simp_all
  from dir_header_ok [OF g(4) px dl this]
  show "dir_header s (directory_bytes s p es) (nd_size v) = Ok (to_u32 p, to_u32 (int (length es)))" .
  show "unat (to_u32 (int (length es))) = length es" using po(2) by (simp add: unat_of_nat)
  note df = directory_fields_ok [OF g(4)]
  have "directory_size s < 2 ^ 28" using df(3) by simp
  note pk = pack_ok(2) [OF df(1,2) this df(4), of p "int (length es)"]
  show "drop (nat (directory_size s)) (directory_bytes s p es) = concat (map (entry_bytes s) es)"
    using pk by (simp add: directory_bytes_def)
  show "nd_size v = directory_size s + int (length (concat (map (entry_bytes s) es)))"
    using pk df(2) v(3) sz by (simp add: directory_bytes_def)
  show "length (concat (map (entry_bytes s) es)) < 2 ^ 28" using dl by (simp add: directory_bytes_def)
  show "entry_widths_ok s" by (rule g(4))
  show "uint (to_u32 p) = p" using po(1) by (simp add: u32_range_def)
qed

section \<open>Listing\<close>

definition dirent_of :: "dentry \<Rightarrow> kdirent" where
  "dirent_of e = \<lparr>kd_name = de_name e, kd_ino = de_number e + 1, kd_type = dt_of (to_u32 (de_type e))\<rparr>"

definition listing :: "int \<Rightarrow> int \<Rightarrow> dentry list \<Rightarrow> kdirent list" where
  "listing ino p es =
     [\<lparr>kd_name = [0x2E], kd_ino = to_s32 ino, kd_type = DT_DIR\<rparr>,
      \<lparr>kd_name = [0x2E, 0x2E], kd_ino = to_s32 (p + 1), kd_type = DT_DIR\<rparr>] @ map dirent_of es"

text \<open>Where in the contents the first \<open>j\<close> entries end, and the position before item \<open>j\<close>.\<close>

definition entries_end :: "super_block \<Rightarrow> dentry list \<Rightarrow> nat \<Rightarrow> int" where
  "entries_end s es j = int (length (concat (map (entry_bytes s) (take j es))))"

definition list_pos :: "super_block \<Rightarrow> dentry list \<Rightarrow> nat \<Rightarrow> int" where
  "list_pos s es j = (if j < 2 then int j else 3 + directory_size s + entries_end s es (j - 2))"

text \<open>A caller that takes \<open>m\<close> items a call.\<close>

definition budget :: "nat \<Rightarrow> acceptor" where
  "budget m = (\<lambda>out d. length out < m)"

lemma entries_end_simps [simp]:
  "entries_end s es 0 = 0"
  "entries_end s (e # es) (Suc j) = int (length (entry_bytes s e)) + entries_end s es j"
  "0 \<le> entries_end s es j"
  by (simp_all add: entries_end_def)

text \<open>One step of the loop, and of the search.\<close>

lemma entry_step:
  assumes w: "entry_widths_ok s" and g: "entries_good s (e # es)"
    and l: "length (concat (map (entry_bytes s) (e # es))) < 2 ^ 28"
  defines "rest \<equiv> concat (map (entry_bytes s) es)"
  shows "dir_entry s (concat (map (entry_bytes s) (e # es))) =
      Ok (to_u32 (de_number e), to_u32 (de_length e), to_u32 (de_type e))"
    and "dir_entry_skip s (concat (map (entry_bytes s) (e # es))) = Ok (to_u32 (de_number e), to_u32 (de_length e))"
    and "drop (nat (entry_size s)) (concat (map (entry_bytes s) (e # es))) = de_name e @ rest"
    and "uint (to_u32 (de_number e)) = de_number e" and "uint (to_u32 (de_length e)) = int (length (de_name e))"
    and "unat (to_u32 (de_length e)) = length (de_name e)"
    and "int (length (entry_bytes s e)) = entry_size s + int (length (de_name e))"
    and "length (de_name e) < 2 ^ 28" and "0 < length (entry_bytes s e)"
proof -
  have e: "dentry_ok e" "de_name e \<noteq> []" "map field_value (entry_fields s e) =
      [to_u32 (de_number e), to_u32 (de_length e), to_u32 (de_type e)]"
    using g by (simp_all add: entries_good_def)
  have l': "length (entry_bytes s e @ rest) < 2 ^ 28" using l by (simp add: rest_def)
  show "dir_entry s (concat (map (entry_bytes s) (e # es))) =
      Ok (to_u32 (de_number e), to_u32 (de_length e), to_u32 (de_type e))"
    "dir_entry_skip s (concat (map (entry_bytes s) (e # es))) = Ok (to_u32 (de_number e), to_u32 (de_length e))"
    using dir_entry_fields [OF w e(3) l'] by (simp_all add: rest_def)
  note f = entry_fields_ok [OF w]
  have "entry_size s < 2 ^ 28" using f(3) by simp
  note pk = pack_ok(2) [OF f(1,2) this f(4), of e]
  show "drop (nat (entry_size s)) (concat (map (entry_bytes s) (e # es))) = de_name e @ rest"
    using pk by (simp add: entry_bytes_def rest_def)
  show n: "int (length (entry_bytes s e)) = entry_size s + int (length (de_name e))"
    using length_entry_bytes [OF w, of e] by (simp add: de_length_def)
  show l28: "length (de_name e) < 2 ^ 28" using l' n f(2) by simp
  show "0 < length (entry_bytes s e)" using e(2) by (simp add: entry_bytes_def)
  show "uint (to_u32 (de_number e)) = de_number e" using e(1) by (simp add: dentry_ok_def u32_range_def)
  show u: "uint (to_u32 (de_length e)) = int (length (de_name e))"
    unfolding de_length_def using l28 by (intro uint_to_u32_id) simp_all
  then show "unat (to_u32 (de_length e)) = length (de_name e)" by (simp only: uint_nat of_nat_eq_iff)
qed

lemma entries_end_less:
  assumes g: "entries_good s es" and j: "j < length es"
  shows "entries_end s es j < entries_end s es (length es)"
proof -
  have "de_name (es ! j) \<noteq> []" using g j by (simp add: entries_good_def)
  then have "0 < length (entry_bytes s (es ! j))" by (simp add: entry_bytes_def)
  moreover have "es = take j es @ es ! j # drop (Suc j) es" using j by (rule id_take_nth_drop)
  then have "concat (map (entry_bytes s) es) =
      concat (map (entry_bytes s) (take j es)) @ entry_bytes s (es ! j) @ concat (map (entry_bytes s) (drop (Suc j) es))"
    by (metis concat.simps(2) concat_append list.map(2) map_append)
  ultimately have "length (concat (map (entry_bytes s) (take j es))) < length (concat (map (entry_bytes s) es))"
    by simp
  then show ?thesis unfolding entries_end_def by simp
qed

lemma readdir_entries_ok:
  assumes w: "entry_widths_ok s" and acc: "\<And>out d. accept out d \<longleftrightarrow> length out < m"
  shows "entries_good s es \<Longrightarrow> length (concat (map (entry_bytes s) es)) < 2 ^ 28 \<Longrightarrow> j \<le> length es \<Longrightarrow>
    length out \<le> m \<Longrightarrow> pos = off + 3 + entries_end s es j \<Longrightarrow>
    readdir_entries s accept (length es) (concat (map (entry_bytes s) es)) off pos out =
      Ok (off + 3 + entries_end s es (j + min (m - length out) (length es - j)),
          out @ take (m - length out) (drop j (map dirent_of es)))"
proof (induction es arbitrary: j off pos out)
  case (Cons e es)
  note st = entry_step [OF w Cons.prems(1,2)]
  have g: "entries_good s es" "length (concat (map (entry_bytes s) es)) < 2 ^ 28"
    using Cons.prems(1,2) by (simp_all add: entries_good_def)
  let ?off = "off + entry_size s + int (length (de_name e))"
  have off: "?off = off + int (length (entry_bytes s e))" using st(7) by simp
  have nm: "mem_slice (de_name e @ concat (map (entry_bytes s) es)) 0 (to_s32 (int (length (de_name e)))) = Ok (de_name e)"
    using st(8) by simp
  have un: "readdir_entries s accept (length (e # es)) (concat (map (entry_bytes s) (e # es))) off pos out =
      (if pos = off + 3 then
         if \<not> length out < m then Ok (pos, out)
         else readdir_entries s accept (length es) (concat (map (entry_bytes s) es)) ?off
                (pos + entry_size s + int (length (de_name e))) (out @ [dirent_of e])
       else readdir_entries s accept (length es) (concat (map (entry_bytes s) es)) ?off pos out)"
    unfolding list.size(4) add_0_right Nat.add_Suc_right One_nat_def readdir_entries.simps st(1) rbind.simps
      prod.case Let_def st(3-6) nm by (simp add: dirent_of_def acc)
  show ?case
  proof (cases j)
    case 0
    then have p: "pos = off + 3" using Cons.prems(5) by simp
    show ?thesis
    proof (cases "length out < m")
      case True
      have pe: "pos + entry_size s + int (length (de_name e)) = ?off + 3 + entries_end s es 0" using p by simp
      have "length (out @ [dirent_of e]) \<le> m" using True by simp
      from Cons.IH [OF g le0 this pe]
      have "readdir_entries s accept (length es) (concat (map (entry_bytes s) es)) ?off
          (pos + entry_size s + int (length (de_name e))) (out @ [dirent_of e]) =
        Ok (?off + 3 + entries_end s es (min (m - Suc (length out)) (length es)),
          (out @ [dirent_of e]) @ take (m - Suc (length out)) (map dirent_of es))"
        by simp
      moreover have "m - length out = Suc (m - Suc (length out))" using True by simp
      ultimately show ?thesis unfolding un using p True 0 st(7) by (simp add: add.assoc add.left_commute)
    next
      case False
      then show ?thesis unfolding un using p 0 Cons.prems(4) by simp
    qed
  next
    case (Suc j')
    have "0 < int (length (entry_bytes s e))" using st(9) by simp
    then have ne: "pos \<noteq> off + 3" using Cons.prems(5) Suc by (simp add: add_pos_nonneg order_less_imp_not_eq2)
    have "j' \<le> length es" "pos = ?off + 3 + entries_end s es j'" using Cons.prems(3,5) Suc off by simp_all
    from Cons.IH [OF g this(1) Cons.prems(4) this(2)] show ?thesis
      unfolding un using ne Suc st(7) by (simp add: add.assoc add.left_commute)
  qed
qed simp

lemma readdir_dots_ok:
  assumes "j < 2" and "length out \<le> m" and acc: "\<And>out d. accept out d \<longleftrightarrow> length out < m"
  shows "readdir_dots accept ino p (int j) out =
    (if m - length out < 2 - j then (True, int (j + (m - length out)), out @ take (m - length out) (drop j (take 2 (listing ino p es))))
     else (False, 3, out @ drop j (take 2 (listing ino p es))))"
proof -
  have 2: "readdir_dots accept ino p 3 out = (False, 3, out)" for out
    by (subst readdir_dots.simps) simp
  have 1: "readdir_dots accept ino p 1 out =
      (if length out < m then (False, 3, out @ [\<lparr>kd_name = [0x2E, 0x2E], kd_ino = to_s32 (p + 1), kd_type = DT_DIR\<rparr>])
       else (True, 1, out))" for out
    by (subst readdir_dots.simps) (simp add: 2 acc)
  have z: "readdir_dots accept ino p 0 out =
      (if length out < m then readdir_dots accept ino p 1 (out @ [\<lparr>kd_name = [0x2E], kd_ino = to_s32 ino, kd_type = DT_DIR\<rparr>])
       else (True, 0, out))" for out
    by (subst readdir_dots.simps) (simp add: acc)
  have "j = 0 \<or> j = 1" using assms(1) by auto
  then show ?thesis
  proof
    assume "j = 1"
    then show ?thesis using assms(2) by (auto simp: 1 listing_def numeral_2_eq_2)
  next
    assume j: "j = 0"
    show ?thesis
    proof (cases "m - length out")
      case 0
      then show ?thesis using assms(2) j by (simp add: z)
    next
      case (Suc q)
      then show ?thesis using j by (cases q) (auto simp: z 1 listing_def numeral_2_eq_2)
    qed
  qed
qed

lemma length_listing [simp]: "length (listing ino p es) = length es + 2"
  by (simp add: listing_def)

lemma drop_listing:
  "j \<le> 2 \<Longrightarrow> drop j (listing ino p es) = drop j (take 2 (listing ino p es)) @ map dirent_of es"
  "drop (q + 2) (listing ino p es) = drop q (map dirent_of es)"
  by (auto simp: listing_def le_Suc_eq numeral_2_eq_2)

lemma list_pos_simps:
  "j < 2 \<Longrightarrow> list_pos s es j = int j"
  "list_pos s es (2 + q) = directory_size s + 3 + entries_end s es q"
  "list_pos s es (Suc (Suc q)) = directory_size s + 3 + entries_end s es q"
  by (simp_all add: list_pos_def)

text \<open>The inode \<open>dir\<close> of a mounted directory with the parent \<open>p\<close> and the entries \<open>es\<close>.\<close>

definition listable ::
  "kernel_env \<Rightarrow> super_block \<Rightarrow> nat \<Rightarrow> kernel \<times> super_info \<Rightarrow> inode \<Rightarrow> int \<Rightarrow> dentry list \<Rightarrow> bool" where
  "listable env s fuel st dir p es \<longleftrightarrow>
     (\<exists>opt nodes k entry i. kernel_ok env opt s nodes k entry st \<and> i < length nodes \<and>
        n_payload (nodes ! i) = Directory_payload p es \<and> readable fuel (nodes ! i) \<and>
        nd_index (i_node dir) = n_index (nodes ! i) \<and> nd_block (i_node dir) = n_block (nodes ! i) \<and>
        nd_size (i_node dir) = n_size (nodes ! i)) \<and> entries_good s es"

lemma listable_sizes:
  assumes "listable env s fuel st dir p es"
  shows "0 \<le> directory_size s" and "nd_size (i_node dir) = directory_size s + entries_end s es (length es)"
    and "entry_widths_ok s" and "entries_good s es" and "length (concat (map (entry_bytes s) es)) < 2 ^ 28"
proof -
  obtain opt nodes k entry i where d: "kernel_ok env opt s nodes k entry st" "i < length nodes"
    "n_payload (nodes ! i) = Directory_payload p es" "readable fuel (nodes ! i)"
    "nd_index (i_node dir) = n_index (nodes ! i)" "nd_block (i_node dir) = n_block (nodes ! i)"
    "nd_size (i_node dir) = n_size (nodes ! i)"
    using assms unfolding listable_def by blast
  note k = kernel_directory [OF d]
  show "0 \<le> directory_size s" using directory_fields_ok(2) [OF k(8)] .
  show "nd_size (i_node dir) = directory_size s + entries_end s es (length es)" using k(6) by (simp add: entries_end_def)
  show "entry_widths_ok s" "length (concat (map (entry_bytes s) es)) < 2 ^ 28" by (fact k)+
  show "entries_good s es" using assms by (simp add: listable_def)
qed

text \<open>A call that is not behind the end: the two first items, then the entries of the directory.\<close>

lemma smashfs_readdir_steps:
  assumes l: "listable env s fuel st dir p es" and pos: "pos < 3 + nd_size (i_node dir)"
  shows "smashfs_readdir env fuel st dir accept pos =
    (let (full, pos, out) = readdir_dots accept (i_ino dir) p pos [] in
     if full then Ok (0, pos, out)
     else rbind (readdir_entries s accept (length es) (concat (map (entry_bytes s) es)) (directory_size s)
            (if pos < 3 + directory_size s then pos + directory_size s else pos) out) (\<lambda>(pos, out). Ok (0, pos, out)))"
proof -
  obtain opt nodes k entry i where d: "kernel_ok env opt s nodes k entry st" "i < length nodes"
    "n_payload (nodes ! i) = Directory_payload p es" "readable fuel (nodes ! i)"
    "nd_index (i_node dir) = n_index (nodes ! i)" "nd_block (i_node dir) = n_block (nodes ! i)"
    "nd_size (i_node dir) = n_size (nodes ! i)"
    using l unfolding listable_def by blast
  note k = kernel_directory [OF d]
  have s: "si_super (snd st) = s" using d(1) by (simp add: kernel_ok_def Let_def)
  have n: "unat (word_of_nat (length es) :: u32) = length es" using k(4) by simp
  show ?thesis
    using pos k(1) by (simp add: smashfs_readdir_def Let_def s k(2,3,5,9) n split: prod.split)
qed

lemma readdir_from_entries:
  assumes l: "listable env s fuel st dir p es" and q: "q \<le> length es"
  shows "smashfs_readdir env fuel st dir (budget m) (list_pos s es (2 + q)) =
    Ok (0, list_pos s es (min (2 + q + m) (length es + 2)), take m (drop q (map dirent_of es)))"
proof (cases "q = length es")
  case True
  have "min (2 + q + m) (length es + 2) = 2 + q" using True by simp
  moreover have "3 + nd_size (i_node dir) \<le> list_pos s es (2 + q)"
    unfolding list_pos_simps(2) listable_sizes(2) [OF l] True by simp
  ultimately show ?thesis using True by (simp add: smashfs_readdir_def Let_def)
next
  case False
  note z = listable_sizes [OF l]
  have "entries_end s es q < entries_end s es (length es)" using False q entries_end_less [OF z(4)] by simp
  then have np: "list_pos s es (2 + q) < 3 + nd_size (i_node dir)" using z(2) by (simp add: list_pos_simps)
  have "3 \<le> list_pos s es (2 + q)"
    unfolding list_pos_simps(2) using z(1) entries_end_simps(3) [of s es q] by linarith
  then have "readdir_dots (budget m) (i_ino dir) p (list_pos s es (2 + q)) [] = (False, list_pos s es (2 + q), [])"
    by (subst readdir_dots.simps) simp
  moreover have "\<not> list_pos s es (2 + q) < 3 + directory_size s"
    unfolding list_pos_simps(2) using entries_end_simps(3) [of s es q] by linarith
  moreover have "min (2 + q + m) (length es + 2) = 2 + (q + min m (length es - q))" using q by simp
  moreover have "readdir_entries s (budget m) (length es) (concat (map (entry_bytes s) es)) (directory_size s)
      (list_pos s es (2 + q)) [] =
    Ok (directory_size s + 3 + entries_end s es (q + min m (length es - q)), take m (drop q (map dirent_of es)))"
    using readdir_entries_ok [OF z(3) _ z(4,5) q, of "budget m" m "[]"] by (simp add: budget_def list_pos_simps)
  ultimately show ?thesis
    unfolding smashfs_readdir_steps [OF l np] by (simp add: list_pos_simps)
qed

lemma readdir_from_dots:
  assumes l: "listable env s fuel st dir p es" and j: "j < 2"
  shows "smashfs_readdir env fuel st dir (budget m) (list_pos s es j) =
    Ok (0, list_pos s es (min (j + m) (length es + 2)), take m (drop j (listing (i_ino dir) p es)))"
proof -
  note z = listable_sizes [OF l]
  let ?o = "drop j (take 2 (listing (i_ino dir) p es))"
  have np: "list_pos s es j < 3 + nd_size (i_node dir)" using j z(1,2) entries_end_simps(3) [of s es "length es"]
    unfolding list_pos_simps(1) [OF j] by linarith
  have dots: "readdir_dots (budget m) (i_ino dir) p (int j) [] =
      (if m < 2 - j then (True, int (j + m), take m ?o) else (False, 3, ?o))"
    using readdir_dots_ok [where accept = "budget m" and out = "[]" and m = m and es = es, OF j]
    by (simp add: budget_def)
  have dl: "drop j (listing (i_ino dir) p es) = ?o @ map dirent_of es" using j by (intro drop_listing) simp
  have ol: "length ?o = 2 - j" by simp
  show ?thesis
  proof (cases "m < 2 - j")
    case True
    then have "j + m < 2" "take m (drop j (listing (i_ino dir) p es)) = take m ?o" unfolding dl by simp_all
    then show ?thesis
      unfolding smashfs_readdir_steps [OF l np] using dots True j by (simp add: list_pos_simps(1))
  next
    case False
    have e: "(if (3 :: int) < 3 + directory_size s then 3 + directory_size s else 3) = directory_size s + 3 + entries_end s es 0"
      using z(1) by simp
    have "readdir_entries s (budget m) (length es) (concat (map (entry_bytes s) es)) (directory_size s)
        (directory_size s + 3 + entries_end s es 0) ?o =
      Ok (directory_size s + 3 + entries_end s es (min (m - (2 - j)) (length es)),
          ?o @ take (m - (2 - j)) (map dirent_of es))"
      using readdir_entries_ok [OF z(3) _ z(4,5) le0, of "budget m" m ?o] False
      by (simp add: budget_def numeral_2_eq_2)
    moreover have "min (j + m) (length es + 2) = 2 + min (m - (2 - j)) (length es)" using j False by simp
    ultimately show ?thesis
      unfolding smashfs_readdir_steps [OF l np] dl
      using dots False j e by (simp add: list_pos_simps flip: numeral_2_eq_2)
  qed
qed

lemma smashfs_readdir_ok:
  assumes w: "kernel_ok env opt s nodes k entry st" and i: "i < length nodes"
    and pl: "n_payload (nodes ! i) = Directory_payload p es" and r: "readable fuel (nodes ! i)"
    and g: "entries_good s es"
    and v: "nd_index (i_node dir) = n_index (nodes ! i)" "nd_block (i_node dir) = n_block (nodes ! i)"
      "nd_size (i_node dir) = n_size (nodes ! i)"
    and j: "j \<le> length es + 2"
  shows "smashfs_readdir env fuel st dir (budget m) (list_pos s es j) =
    Ok (0, list_pos s es (min (j + m) (length es + 2)), take m (drop j (listing (i_ino dir) p es)))"
proof -
  have l: "listable env s fuel st dir p es" using w i pl r g v unfolding listable_def by blast
  show ?thesis
  proof (cases "j < 2")
    case False
    then obtain q where "j = 2 + q" using le_Suc_ex by (metis not_less)
    with readdir_from_entries [OF l, of q m] j drop_listing(2) [of q] show ?thesis by (simp add: add.commute)
  qed (rule readdir_from_dots [OF l])
qed

end
