(* ===== verification/Kernel_Lookup.thy ===== *)
theory Kernel_Lookup
  imports Kernel_Listing
begin

text \<open>
  The module's \<open>lookup\<close> and \<open>readpage\<close> on a good image: a name leads to the inode of the node
  that its entry names, and a page holds its part of the file.
\<close>

section \<open>Names\<close>

lemma sint_less_byte:
  assumes "uint (a :: byte) < sint (c :: byte)"
  shows "a < c"
proof -
  have "sint c \<le> uint c"
    unfolding sint_uint signed_take_bit_int_less_eq_self_iff by (rule order_trans [OF _ uint_nonnegative]) simp
  with assms show ?thesis by (simp add: word_less_alt)
qed

lemma lookup_entries_ok:
  assumes w: "entry_widths_ok s" and n: "name \<noteq> []"
  shows "entries_good s es \<Longrightarrow> length (concat (map (entry_bytes s) es)) < 2 ^ 28 \<Longrightarrow>
    sorted (map (\<lambda>e. hd (de_name e)) es) \<Longrightarrow>
    lookup_entries s name (length es) (concat (map (entry_bytes s) es)) =
      Ok (map_option de_number (find (\<lambda>e. de_name e = name) es))"
proof (induction es)
  case (Cons e es)
  note st = entry_step [OF w Cons.prems(1,2)]
  have g: "entries_good s es" "length (concat (map (entry_bytes s) es)) < 2 ^ 28" "de_name e \<noteq> []"
    using Cons.prems(1,2) by (simp_all add: entries_good_def)
  have IH: "lookup_entries s name (length es) (concat (map (entry_bytes s) es)) =
      Ok (map_option de_number (find (\<lambda>e. de_name e = name) es))"
    using Cons.IH g Cons.prems(3) by simp
  let ?c = "hd (de_name e)" and ?rest = "concat (map (entry_bytes s) es)"
  have c: "mem_get (de_name e @ ?rest) 0 = Ok ?c" using g(3) by (cases "de_name e") simp_all
  have h: "(case name of [] \<Rightarrow> 0 | d # _ \<Rightarrow> d) = hd name" using n by (cases name) simp_all
  have sl: "mem_slice (de_name e @ ?rest) 0 (int (length name)) = Ok (de_name e)" if "length (de_name e) = length name"
    using that by (simp flip: that)
  have un: "lookup_entries s name (length (e # es)) (concat (map (entry_bytes s) (e # es))) =
      (if uint (hd name) < sint ?c then Ok None
       else if de_name e = name then Ok (Some (de_number e))
       else lookup_entries s name (length es) ?rest)"
  proof -
    have "rbind (if int (length (de_name e)) = int (length name)
          then rbind (mem_slice (de_name e @ ?rest) 0 (int (length name))) (\<lambda>x. Ok (x = name)) else Ok False) f =
        f (de_name e = name)" for f :: "bool \<Rightarrow> int option res"
    proof (cases "length (de_name e) = length name")
      case False
      then have "(de_name e = name) = False" by auto
      with False show ?thesis by simp
    qed (simp add: sl)
    then show ?thesis
      unfolding list.size(4) add_0_right Nat.add_Suc_right One_nat_def lookup_entries.simps st(2) rbind.simps
        prod.case Let_def st(3-6) c h by simp
  qed
  show ?case
  proof (cases "uint (hd name) < sint ?c")
    case True
    have "de_name x \<noteq> name" if "x \<in> set (e # es)" for x
    proof -
      have "?c \<le> hd (de_name x)" using that Cons.prems(3) by auto
      with sint_less_byte [OF True] show ?thesis by auto
    qed
    then have "find (\<lambda>e. de_name e = name) (e # es) = None" by (auto simp: find_None_iff)
    then show ?thesis unfolding un using True by simp
  next
    case False
    then show ?thesis unfolding un using IH by simp
  qed
qed simp

lemma smashfs_lookup_ok:
  assumes w: "kernel_ok env opt s nodes k entry st" and i: "i < length nodes"
    and pl: "n_payload (nodes ! i) = Directory_payload p es" and r: "readable fuel (nodes ! i)"
    and g: "entries_good s es" "sorted (map (\<lambda>e. hd (de_name e)) es)" and n: "name \<noteq> []"
    and v: "nd_index (i_node dir) = n_index (nodes ! i)" "nd_block (i_node dir) = n_block (nodes ! i)"
      "nd_size (i_node dir) = n_size (nodes ! i)"
  shows "smashfs_lookup env fuel st ic dir name =
    (case find (\<lambda>e. de_name e = name) es of
       None \<Rightarrow> Err ENOENT
     | Some e \<Rightarrow> smashfs_get_inode env (snd st) ic (de_number e))"
proof -
  note d = kernel_directory [OF w i pl r v]
  have s: "si_super (snd st) = s" using w by (simp add: kernel_ok_def Let_def)
  have d4: "unat (word_of_nat (length es) :: u32) = length es" using d(4) by simp
  note le = lookup_entries_ok [OF d(8) n g(1) d(7) g(2)]
  show ?thesis
    using d(1,2,3,5) d4 le
    by (cases "find (\<lambda>e. de_name e = name) es") (simp_all add: smashfs_lookup_def Let_def s)
qed

text \<open>The inodes that are hashed are the inodes of the nodes of their numbers.\<close>

definition icache_ok :: "options \<Rightarrow> super_info \<Rightarrow> mnode list \<Rightarrow> icache \<Rightarrow> bool" where
  "icache_ok opt si nodes ic \<longleftrightarrow> (\<forall>i x. i < length nodes \<longrightarrow> ic (int i) = Some x \<longrightarrow>
     x = mounted_inode opt si (int i) (int i) (nodes ! i))"

lemma smashfs_get_inode_ok:
  assumes w: "kernel_ok env opt s nodes k entry (kern, si)" and e: "ke_iget env" and ic: "icache_ok opt si nodes ic"
    and i: "i < length nodes"
  shows "\<exists>ic'. smashfs_get_inode env si ic (int i) = Ok (mounted_inode opt si (int i) (int i) (nodes ! i), ic') \<and>
    icache_ok opt si nodes ic'"
proof (cases "ic (int i)")
  case None
  have "icache_ok opt si nodes (ic(int i := Some (mounted_inode opt si (int i) (int i) (nodes ! i))))"
    using ic by (auto simp: icache_ok_def)
  then show ?thesis using None e smashfs_read_inode_ok [OF w i, of "int i"] by (auto simp: smashfs_get_inode_def)
next
  case (Some x)
  then have "x = mounted_inode opt si (int i) (int i) (nodes ! i)" using ic i by (simp add: icache_ok_def)
  then show ?thesis using Some e ic by (auto simp: smashfs_get_inode_def)
qed

section \<open>Pages\<close>

definition page_of :: "memory \<Rightarrow> nat \<Rightarrow> memory" where
  "page_of d index = take 4096 (drop (4096 * index) d @ replicate 4096 0)"

lemma smashfs_readpage_ok:
  assumes w: "kernel_ok env opt s nodes k entry st" and i: "i < length nodes"
    and pl: "\<And>p es. n_payload (nodes ! i) \<noteq> Directory_payload p es" and f: "4096 < fuel"
    and v: "nd_index (i_node inode) = n_index (nodes ! i)" "nd_block (i_node inode) = n_block (nodes ! i)"
      "nd_size (i_node inode) = n_size (nodes ! i)" "nd_type (i_node inode) = n_type (nodes ! i)"
      "i_size inode = n_size (nodes ! i)"
  shows "smashfs_readpage env fuel st inode page index = Ok (True, page_of (node_bytes s (nodes ! i)) index)"
proof -
  let ?n = "nodes ! i" and ?d = "node_bytes s (nodes ! i)"
  have m: "?n \<in> set nodes" using i by simp
  have g: "node_ok ?n" "node_placed s k entry ?n" "si_super (snd st) = s" "kernel_serves env st k entry"
    using w m by (auto simp: kernel_ok_def Let_def)
  have g5: "length entry < 2 ^ 31" using g(4) by (simp add: kernel_serves_def Let_def)
  have "payload_ok ?n" using g(1) by (simp add: node_ok_def)
  then have t: "n_type ?n = 1 \<or> n_type ?n = 3" using pl by (cases rule: payload_ok_cases) blast+
  have sz: "n_size ?n = int (length ?d)" using g(2) by (simp add: node_placed_def)
  have s31: "n_size ?n < 2147483648" using node_placed_range(2) [OF g(2) g5] by simp
  have mb: "to_s32 (drop_bit PAGE_CACHE_SHIFT (n_size ?n + PAGE_CACHE_SIZE - 1)) = (n_size ?n + 4095) div 4096"
    "(n_size ?n + 4095) div 4096 < 2 ^ 64" "0 \<le> (n_size ?n + 4095) div 4096"
    using sz s31 by (simp_all add: shiftr_div PAGE_CACHE_SHIFT_def PAGE_CACHE_SIZE_def)
  have lt: "int index < (n_size ?n + 4095) div 4096 \<longleftrightarrow> 4096 * index < length ?d"
  proof -
    have "int index * 4096 < int (length ?d) \<longleftrightarrow> 4096 * index < length ?d" by linarith
    then show ?thesis using less_ceil_div [of 4096 "int index" "n_size ?n"] sz by simp
  qed
  show ?thesis
  proof (cases "4096 * index < length ?d")
    case False
    then have "drop (4096 * index) ?d = []" by simp
    then have "page_of ?d index = replicate 4096 0" by (simp add: page_of_def)
    then show ?thesis
      using False lt mb by (simp add: smashfs_readpage_def Let_def v PAGE_CACHE_SIZE_def)
  next
    case True
    let ?sz = "min (n_size ?n - int index * 4096) 4096"
    have b: "0 \<le> ?sz" "int index * 4096 + ?sz \<le> n_size ?n" "nat ?sz \<le> 4096" using True sz by simp_all
    have "node_read env fuel st (i_node inode) node_read_copy (4096, []) (int index * 4096) ?sz =
        Ok (0, (4096, take (nat ?sz) (drop (nat (int index * 4096)) ?d)))"
      using b f by (intro node_read_ok [OF g(4,2) g(3) [symmetric] v(1,2)]) simp_all
    moreover have tk: "take (nat ?sz) (drop (4096 * index) ?d) = take 4096 (drop (4096 * index) ?d)"
    proof -
      have "nat ?sz = min (length ?d - 4096 * index) 4096" using True sz by (simp add: nat_diff_distrib')
      then show ?thesis by (simp add: min_def)
    qed
    moreover have "nat (int index * 4096) = 4096 * index" by simp
    ultimately have rd: "node_read env fuel st (i_node inode) node_read_copy (4096, []) (int index * 4096) ?sz =
        Ok (0, (4096, take 4096 (drop (4096 * index) ?d)))" by simp
    have ln: "length (take 4096 (drop (4096 * index) ?d)) = nat ?sz" using True sz by (simp add: nat_diff_distrib' min.commute)
    have "page_of ?d index = take 4096 (drop (4096 * index) ?d) @ replicate (nat (4096 - ?sz)) 0"
    proof -
      have "take 4096 (xs @ replicate 4096 0) = take 4096 xs @ replicate (4096 - length xs) (0 :: byte)" for xs
        by simp
      moreover have "4096 - length (drop (4096 * index) ?d) = nat (4096 - ?sz)" using True sz by simp
      ultimately show ?thesis unfolding page_of_def by metis
    qed
    then show ?thesis
      using True lt mb t rd ln tk by (auto simp: smashfs_readpage_def Let_def v PAGE_CACHE_SIZE_def)
  qed
qed

end
