(* ===== verification/Kernel_Mount.thy ===== *)
theory Kernel_Mount
  imports Kernel_Read
begin

text \<open>
  \<open>src/linux/super.c\<close>: mounting a good image, and what mounting and unmounting do to the
  globals of the module.
\<close>

section \<open>Mounting a good image\<close>

lemma lowest_bit_power: "log < n \<Longrightarrow> lowest_bit n (2 ^ log) = log"
proof (induction n arbitrary: log)
  case (Suc n)
  then show ?case by (cases log) simp_all
qed simp

lemma ffz_not_power: "log < 32 \<Longrightarrow> ffz_not (2 ^ log) = int log"
  by (simp add: ffz_not_def lowest_bit_power)

text \<open>
  What mounting relies on besides the image: the device starts with it, its blocks and memory
  are there.
\<close>

definition mount_ok :: "kernel_env \<Rightarrow> memory \<Rightarrow> bool" where
  "mount_ok env img \<longleftrightarrow>
     (\<exists>log rest. device_ok env (img @ rest) log \<and> ke_min_blocksize env = 2 ^ log) \<and>
     (\<forall>n. ke_cache_create env n) \<and> (\<forall>n. ke_cache_alloc env n) \<and> (\<forall>n. ke_context env n) \<and>
     ke_new_inode env \<noteq> None \<and> ke_d_alloc_root env \<and> ke_iget env"

text \<open>The method that the module finds for a type, and what it does.\<close>

definition kernel_finds :: "kernel_env \<Rightarrow> kernel \<Rightarrow> u32 \<Rightarrow> codec_fn \<Rightarrow> bool" where
  "kernel_finds env k t decomp \<longleftrightarrow> (\<forall>cap. \<exists>c k'. kernel_create_type env (k\<lparr>k_cache := cap\<rparr>) t = (Some c, k') \<and>
     kc_uncompress (k_compressors k' ! c) = decomp)"

lemma smashfs_read_at:
  assumes "device_ok env dev log" and "dev = pre @ d @ post" and "int (length pre + length d) < 2 ^ 31 - 2 ^ 17"
    and "offset = int (length pre)" and "n = int (length d)" and "length d \<le> length buf"
  obtains buf' where "smashfs_read env (2 ^ log) (int log) buf offset n = Ok (n, buf')" "take (length d) buf' = d"
    "length buf' = length buf"
  using smashfs_read_part [OF assms(1-3,6)] assms(4,5) by auto

text \<open>The three parts of a good image that mounting reads.\<close>

definition on_device :: "kernel_env \<Rightarrow> memory \<Rightarrow> nat \<Rightarrow> bool" where
  "on_device env img log \<longleftrightarrow> (\<exists>rest. device_ok env (img @ rest) log) \<and> int (length img) < 2 ^ 31 - 2 ^ 17"

lemma on_device_read:
  assumes "on_device env img log" and "img = pre @ d @ post"
    and "offset = int (length pre)" and "n = int (length d)" and "length d \<le> length buf"
  obtains buf' where "smashfs_read env (2 ^ log) (int log) buf offset n = Ok (n, buf')" "take (length d) buf' = d"
    "length buf' = length buf"
proof -
  obtain rest where dev: "device_ok env (img @ rest) log" using assms(1) by (auto simp: on_device_def)
  have e: "img @ rest = pre @ d @ (post @ rest)" "int (length pre + length d) < 2 ^ 31 - 2 ^ 17"
    using assms(1,2) by (simp_all add: on_device_def)
  from smashfs_read_at [OF dev e assms(3-5)] that show ?thesis by blast
qed

lemma layout_ok_parts:
  assumes l: "layout_ok s img icb btab ecb" and sz: "int (length img) < 2 ^ 31 - 2 ^ 17"
  obtains pad where "img = super_bytes s @ icb @ btab @ ecb @ pad"
    and "sint (sb_inodes_offset s) = int (length (super_bytes s))" and "sint (sb_inodes_csize s) = int (length icb)"
    and "sint (sb_blocks_offset s) = int (length (super_bytes s @ icb))" and "sint (sb_blocks_size s) = int (length btab)"
    and "uint (sb_entries_offset s) = int (length (super_bytes s @ icb @ btab))"
    and "uint (sb_inodes_csize s) = int (length icb)" and "uint (sb_blocks_size s) = int (length btab)"
proof -
  obtain pad where img: "img = super_bytes s @ icb @ btab @ ecb @ pad" using l by (auto simp: layout_ok_def)
  have lay: "uint (sb_inodes_offset s) = int (length (super_bytes s))" "uint (sb_inodes_csize s) = int (length icb)"
    "uint (sb_blocks_offset s) = int (length (super_bytes s @ icb))" "uint (sb_blocks_size s) = int (length btab)"
    "uint (sb_entries_offset s) = int (length (super_bytes s @ icb @ btab))"
    using l by (simp_all add: layout_ok_def sizeof_super_def)
  moreover have "sint (sb_inodes_offset s) = int (length (super_bytes s))" "sint (sb_inodes_csize s) = int (length icb)"
    "sint (sb_blocks_offset s) = int (length (super_bytes s @ icb))" "sint (sb_blocks_size s) = int (length btab)"
    using lay sz by (simp_all add: sint_eq_uint_small img)
  ultimately show ?thesis using that img by blast
qed

lemma kernel_super_read:
  assumes "on_device env img log" and "layout_ok s img icb btab ecb"
  obtains b0 where "smashfs_read env (2 ^ log) (int log) (replicate 152 0) 0 152 = Ok (152, b0)"
    and "super_of_bytes b0 = s"
proof -
  obtain pad where img: "img = super_bytes s @ icb @ btab @ ecb @ pad" using assms(2) by (auto simp: layout_ok_def)
  obtain b0 where b0: "smashfs_read env (2 ^ log) (int log) (replicate 152 0) 0 152 = Ok (152, b0)"
    "take (length (super_bytes s)) b0 = super_bytes s" "length b0 = 152"
    by (rule on_device_read [OF assms(1), of "[]" "super_bytes s" "icb @ btab @ ecb @ pad" 0 152 "replicate 152 0"])
      (simp_all add: img)
  have "super_of_bytes (super_bytes s) = s" by simp
  with b0 that show ?thesis by simp
qed

lemma read_inodes_ok:
  assumes d: "on_device env img log" and l: "layout_ok s img icb btab ecb"
    and cs: "uint (sb_inodes_csize s) \<le> uint (sb_block_size s)"
    and k: "usable k c" "k_cache k = Cache (uint (sb_block_size s))" "ke_cache_alloc env 0"
    and it: "int (length itab) = inode_table_size s" "uint (sb_inodes_size s) = inode_table_size s"
      "kc_uncompress (k_compressors k ! c) icb (inode_table_size s) = (inode_table_size s, itab)"
  shows "read_inodes env k (2 ^ log) (int log) s c = Ok (Some itab)"
proof -
  have sz: "int (length img) < 2 ^ 31 - 2 ^ 17" using d by (simp add: on_device_def)
  obtain pad where img: "img = super_bytes s @ icb @ btab @ ecb @ pad"
    and si: "sint (sb_inodes_offset s) = int (length (super_bytes s))" "sint (sb_inodes_csize s) = int (length icb)"
    and ui: "uint (sb_inodes_csize s) = int (length icb)"
    using layout_ok_parts [OF l sz] .
  have bs: "length icb \<le> length (replicate (unat (sb_block_size s)) (0 :: byte))"
    using cs [unfolded ui] by (simp only: uint_nat of_nat_le_iff length_replicate)
  obtain b1 where b1: "smashfs_read env (2 ^ log) (int log) (replicate (unat (sb_block_size s)) 0)
      (int (length (super_bytes s))) (int (length icb)) = Ok (int (length icb), b1)" "take (length icb) b1 = icb"
    "length b1 = unat (sb_block_size s)"
    by (rule on_device_read [OF d, of "super_bytes s" icb "btab @ ecb @ pad" _ _ "replicate (unat (sb_block_size s)) 0"])
      (use bs in \<open>simp_all add: img\<close>)
  have w: "to_u32 (int (length icb)) = sb_inodes_csize s" "to_u32 (inode_table_size s) = sb_inodes_size s"
    by (simp_all flip: ui it(2))
  have "length icb \<le> length b1" using b1(3) bs by simp
  then have "mem_slice b1 0 (int (length icb)) = Ok icb" using b1(2) by (simp add: mem_slice_def)
  then show ?thesis
    using b1(1) k w it
    by (simp add: read_inodes_def block_alloc_def si ui kernel_uncompress_def)
qed

lemma read_blocks_ok:
  assumes d: "on_device env img log" and l: "layout_ok s img icb btab ecb"
  shows "read_blocks env (2 ^ log) (int log) s = Ok (Some btab)"
proof -
  have sz: "int (length img) < 2 ^ 31 - 2 ^ 17" using d by (simp add: on_device_def)
  obtain pad where img: "img = super_bytes s @ icb @ btab @ ecb @ pad"
    and si: "sint (sb_blocks_offset s) = int (length (super_bytes s @ icb))" "sint (sb_blocks_size s) = int (length btab)"
    and ui: "uint (sb_blocks_size s) = int (length btab)"
    using layout_ok_parts [OF l sz] .
  obtain b2 where b2: "smashfs_read env (2 ^ log) (int log) (replicate (length btab) 0)
      (int (length (super_bytes s @ icb))) (int (length btab)) = Ok (int (length btab), b2)" "take (length btab) b2 = btab"
    "length b2 = length btab"
    by (rule on_device_read [OF d, of "super_bytes s @ icb" btab "ecb @ pad" _ _ "replicate (length btab) 0"])
      (simp_all add: img)
  have "to_u32 (int (length btab)) = sb_blocks_size s" by (simp flip: ui)
  moreover have "unat (sb_blocks_size s) = length btab" using ui by (simp only: uint_nat of_nat_eq_iff)
  ultimately show ?thesis using b2 by (simp add: read_blocks_def si)
qed

text \<open>What the super block info of the mount then serves.\<close>

definition mounted_info :: "nat \<Rightarrow> super_block \<Rightarrow> memory \<Rightarrow> memory \<Rightarrow> nat \<Rightarrow> super_info" where
  "mounted_info log s itab btab c =
     \<lparr>si_devblksize = 2 ^ log, si_devblksize_log2 = int log,
      si_max_inode_size = max_inode_size (sb_ibits s), si_max_block_size = max_block_size (sb_kbits s), si_super = s,
      si_inodes_table = itab, si_blocks_table = btab, si_compressor = c\<rparr>"

lemma mounted_info_serves:
  assumes d: "on_device env img log" and l: "layout_ok s img icb btab ecb" and b: "block_size_ok s kk"
    and bt: "block_table_good s ks btab" and e: "length entry < 2 ^ 31"
      "stored_blocks_ok (kc_uncompress (k_compressors k ! c)) kk entry ecb ks"
    and k: "usable k c" "k_cache k = Cache (uint (sb_block_size s))" "\<forall>n. ke_cache_alloc env n"
  shows "kernel_serves env (k, mounted_info log s itab btab c) kk entry"
proof -
  have sz: "int (length img) < 2 ^ 31 - 2 ^ 17" using d by (simp add: on_device_def)
  obtain pad where img: "img = super_bytes s @ icb @ btab @ ecb @ pad"
    and eo: "uint (sb_entries_offset s) = int (length (super_bytes s @ icb @ btab))"
    and ui: "uint (sb_blocks_size s) = int (length btab)"
    using layout_ok_parts [OF l sz] .
  obtain rest where dev: "device_ok env (img @ rest) log" using d by (auto simp: on_device_def)
  have len: "length btab < 2 ^ 28" using bt block_table_ok(3) [of s ks] by (simp add: block_table_good_def)
  have "holds_table btab btab" using len by (simp add: holds_table_def)
  moreover have "img @ rest = (super_bytes s @ icb @ btab) @ ecb @ (pad @ rest)" by (simp add: img)
  moreover have "int (length (super_bytes s @ icb @ btab) + length ecb) < 2 ^ 31 - 2 ^ 17" using sz by (simp add: img)
  ultimately have "\<exists>btab' ks ecb dev log' pre post.
      holds_table (si_blocks_table (mounted_info log s itab btab c)) btab' \<and> block_table_good s ks btab' \<and>
      device_ok env dev log' \<and> si_devblksize (mounted_info log s itab btab c) = 2 ^ log' \<and>
      si_devblksize_log2 (mounted_info log s itab btab c) = int log' \<and>
      dev = pre @ ecb @ post \<and> int (length pre) = uint (sb_entries_offset s) \<and>
      int (length pre + length ecb) < 2 ^ 31 - 2 ^ 17 \<and>
      stored_blocks_ok (kc_uncompress (k_compressors k ! c)) kk entry ecb ks"
    using bt dev eo e(2) unfolding mounted_info_def super_info.select_convs by metis
  moreover have "(2 :: int) ^ kk \<le> uint (sb_block_size s)" by (simp add: block_size_okD(2) [OF b])
  ultimately show ?thesis
    using k b e(1) len ui by (simp add: kernel_serves_def mounted_info_def)
qed

lemma smashfs_fill_super_ok:
  assumes i: "image_ok decomp opt s nodes img" and m: "mount_ok env img" and f: "kernel_finds env k (sb_compression_type s) decomp"
    and sz: "int (length img) < 2 ^ 31 - 2 ^ 17" and cs: "uint (sb_inodes_csize s) \<le> uint (sb_block_size s)"
    and ne: "nodes \<noteq> []"
  shows "\<exists>kern mnt kk entry. smashfs_fill_super env k = Ok (kern, Some mnt) \<and>
    kernel_ok env opt s nodes kk entry (kern, m_info mnt) \<and>
    m_root mnt = mounted_inode opt (m_info mnt) (the (ke_new_inode env)) 0 (nodes ! 0) \<and>
    m_icache mnt = (\<lambda>_. None)(the (ke_new_inode env) := Some (m_root mnt)) \<and> k_cache kern = Cache (uint (sb_block_size s))"
proof -
  obtain icb btab ecb ks kk entry where i1: "sb_magic s = SMASHFS_MAGIC" "sb_ctime s = 0" "sb_root s = 0"
    "optional_bits opt s" "layout_ok s img icb btab ecb" "block_size_ok s kk"
    and i2: "inode_table_ok decomp s nodes icb" and i3: "block_table_good s ks btab"
    and i4: "length entry < 2 ^ 31" "stored_blocks_ok decomp kk entry ecb ks"
      "\<forall>n \<in> set nodes. node_ok n \<and> node_placed s kk entry n \<and> payload_exact s (n_payload n) \<and>
           map field_value (inode_fields s n) = inode_view opt s n"
    using i unfolding image_ok_def by blast
  obtain log rest where dev: "device_ok env (img @ rest) log" "ke_min_blocksize env = 2 ^ log"
    using m by (auto simp: mount_ok_def)
  then have d: "on_device env img log" "ke_min_blocksize env = 2 ^ log" "log < 32" "heap_ok (ke_alloc env)"
    using sz unfolding on_device_def by (blast, simp_all add: device_ok_def)
  have env: "ke_cache_create env n" "ke_cache_alloc env n'" for n n' using m by (simp_all add: mount_ok_def)
  obtain itab where it: "int (length itab) = inode_table_size s" "uint (sb_inodes_size s) = inode_table_size s"
    "inode_table_size s < 2 ^ 28" "decomp icb (inode_table_size s) = (inode_table_size s, itab)"
    "holds (membit itab) 0 (concat (map (inode_fields s) nodes))" "inode_widths_ok s"
    "int (length nodes) = uint (sb_inodes s)" "length nodes < 2 ^ 22"
    using i2 by (auto simp: inode_table_ok_def)
  define k1 where "k1 = k\<lparr>k_cache := Cache (uint (sb_block_size s))\<rparr>"
  obtain c k2 where c: "kernel_create_type env k1 (sb_compression_type s) = (Some c, k2)"
    "kc_uncompress (k_compressors k2 ! c) = decomp"
    using f unfolding kernel_finds_def k1_def by blast
  have k2: "usable k2 c" "k_cache k2 = Cache (uint (sb_block_size s))"
    using kernel_create_type_ok [OF c(1)] by (simp_all add: k1_def)
  obtain b0 where b0: "smashfs_read env (2 ^ log) (int log) (replicate 152 0) 0 152 = Ok (152, b0)"
    and sb: "super_of_bytes b0 = s"
    using kernel_super_read [OF d(1) i1(5)] .
  note ri = read_inodes_ok [OF d(1) i1(5) cs k2 env(2) it(1,2), unfolded c(2), OF it(4)]
    and rb = read_blocks_ok [OF d(1) i1(5)]
  let ?si = "mounted_info log s itab btab c"
  have "kernel_serves env (k2, ?si) kk entry"
    using mounted_info_serves [OF d(1) i1(5,6) i3 i4(1) _ k2] i4(2) env(2) by (simp add: c(2))
  moreover have "holds_table itab itab" using it(1,3) by (simp add: holds_table_def)
  ultimately have ko: "kernel_ok env opt s nodes kk entry (k2, ?si)"
    using d(4) i1 it i4(3) unfolding kernel_ok_def mounted_info_def Let_def snd_conv super_info.select_convs by auto
  obtain ino where ino: "ke_new_inode env = Some ino" using m by (auto simp: mount_ok_def)
  let ?root = "mounted_inode opt ?si ino 0 (nodes ! 0)"
  have rt: "read_root env ?si = Ok (Some ?root)"
    using smashfs_read_inode_ok [OF ko, of 0 ino] ne ino i1(3) m by (simp add: read_root_def mount_ok_def mounted_info_def)
  have ii: "i_ino ?root = ino" by (simp add: mounted_inode_def Let_def)
  have "uint (sb_inodes_size s) < 4611686018427387904" "uint (sb_blocks_size s) < 4611686018427387904"
    using it(2,3) i1(5) i3 block_table_ok(3) [of s ks] by (simp_all add: block_table_good_def layout_ok_def)
  then have "malloc_ok (ke_alloc env) (uint (sb_inodes_size s))" "malloc_ok (ke_alloc env) (uint (sb_blocks_size s))"
    using d(4) by simp_all
  then have "smashfs_fill_super env k = Ok (k2, Some \<lparr>m_info = ?si, m_root = ?root,
      m_icache = (\<lambda>_. None)(ino := Some ?root)\<rparr>)"
    using d(2,4) ffz_not_power [OF d(3)] b0 sb i1(1) env(1) c(1) ri rb rt ii
    by (simp add: mount_defs Let_def
        init_blockcache_def mounted_info_def flip: k1_def)
  with ko ino k2(2) show ?thesis by auto
qed

text \<open>
  An inode table that is larger than a block, once compressed, is read into a block buffer all
  the same: mounting writes behind it.
\<close>

lemma smashfs_fill_super_overrun:
  assumes i: "image_ok decomp opt s nodes img" and m: "mount_ok env img" and f: "kernel_finds env k (sb_compression_type s) decomp"
    and sz: "int (length img) < 2 ^ 31 - 2 ^ 17" and cs: "uint (sb_block_size s) < uint (sb_inodes_csize s)"
  shows "smashfs_fill_super env k = Undef"
proof -
  obtain icb btab ecb ks where i1: "sb_magic s = SMASHFS_MAGIC" "layout_ok s img icb btab ecb"
    and i2: "inode_table_ok decomp s nodes icb" and i3: "block_table_good s ks btab"
    using i unfolding image_ok_def by blast
  obtain log rest where dev: "device_ok env (img @ rest) log" "ke_min_blocksize env = 2 ^ log"
    using m by (auto simp: mount_ok_def)
  then have d: "on_device env img log" "log < 32" "heap_ok (ke_alloc env)"
    using sz unfolding on_device_def by (blast, simp_all add: device_ok_def)
  have env: "ke_cache_create env n" "ke_cache_alloc env n'" for n n' using m by (simp_all add: mount_ok_def)
  define k1 where "k1 = k\<lparr>k_cache := Cache (uint (sb_block_size s))\<rparr>"
  obtain c k2 where c: "kernel_create_type env k1 (sb_compression_type s) = (Some c, k2)"
    using f unfolding kernel_finds_def k1_def by blast
  have k2: "k_cache k2 = Cache (uint (sb_block_size s))"
    using kernel_create_type_ok [OF c] by (simp add: k1_def)
  obtain b0 where b0: "smashfs_read env (2 ^ log) (int log) (replicate 152 0) 0 152 = Ok (152, b0)"
    and sb: "super_of_bytes b0 = s"
    using kernel_super_read [OF d(1) i1(2)] .
  obtain pad where img: "img = super_bytes s @ icb @ btab @ ecb @ pad"
    and si: "sint (sb_inodes_offset s) = int (length (super_bytes s))" "sint (sb_inodes_csize s) = int (length icb)"
    and ui: "uint (sb_inodes_csize s) = int (length icb)"
    using layout_ok_parts [OF i1(2) sz] .
  have "smashfs_read env (2 ^ log) (int log) (replicate (unat (sb_block_size s)) 0)
      (int (length (super_bytes s))) (int (length icb)) = Undef"
    by (rule smashfs_read_overrun [OF dev(1)]) (use cs ui sz in \<open>simp_all add: img\<close>)
  then have ri: "read_inodes env k2 (2 ^ log) (int log) s c = Undef"
    using k2 env(2) by (simp add: read_inodes_def block_alloc_def si)
  have "uint (sb_inodes_size s) < 4611686018427387904" "uint (sb_blocks_size s) < 4611686018427387904"
    using i2 i1(2) i3 block_table_ok(3) [of s ks] by (auto simp: inode_table_ok_def block_table_good_def layout_ok_def)
  then have "malloc_ok (ke_alloc env) (uint (sb_inodes_size s))" "malloc_ok (ke_alloc env) (uint (sb_blocks_size s))"
    using d(3) by simp_all
  then show ?thesis
    using dev(2) d(3) ffz_not_power [OF d(2)] b0 sb i1(1) env(1) c ri
    by (simp add: mount_defs Let_def
        init_blockcache_def flip: k1_def)
qed

end
