(* ===== verification/Unfs.thy ===== *)
theory Unfs
  imports Reader
begin

text \<open>
  \<open>src/mkfs/unfs.c\<close>, the extractor: reading an image into memory (\<open>main\<close> up to the
  traversal), \<open>node_fill\<close>, \<open>block_fill\<close> and \<open>node_read\<close>.

  The file is the byte list \<open>img\<close>.  What the system decides is in the record \<open>reader_env\<close>:
  \<open>r_read at n\<close> is the result of \<open>read\<close> for \<open>n\<close> bytes at file position \<open>at\<close>.
\<close>

section \<open>The state\<close>

record reader_env =
  r_alloc :: heap
  r_open :: bool
  r_seek :: "int \<Rightarrow> bool"
  r_read :: "int \<Rightarrow> int \<Rightarrow> int"

text \<open>The static and global variables.\<close>

record unfs =
  u_compressor :: compressor
  u_inode_buffer :: buffer
  u_block_buffer :: buffer
  u_entry_buffer :: buffer
  u_super :: super_block
  u_max_inode_size :: int
  u_max_block_size :: int

section \<open>Reading the image\<close>

text \<open>One \<open>read\<close> into an object of \<open>n\<close> bytes; the system does not deliver more than asked for.\<close>

definition read_file :: "reader_env \<Rightarrow> memory \<Rightarrow> int \<Rightarrow> int \<Rightarrow> (int \<times> memory) res" where
  "read_file env img at n =
     (let rc = r_read env at n in
      if rc \<le> 0 then Ok (rc, [])
      else if n < rc then Undef
      else rbind (mem_slice img at rc) (\<lambda>d. Ok (rc, d)))"

definition read_super :: "reader_env \<Rightarrow> memory \<Rightarrow> super_block res" where
  "read_super env img =
     rbind (read_file env img 0 sizeof_super) (\<lambda>(rc, d).
     rbind (check (rc = sizeof_super) Minus1) (\<lambda>_.
     let s = super_of_bytes d in
     rbind (check (sb_magic s = SMASHFS_MAGIC) Minus1) (\<lambda>_. Ok s)))"

text \<open>The loop that reads a part of the file in pieces of at most 1024 bytes.\<close>

function read_pieces :: "reader_env \<Rightarrow> memory \<Rightarrow> int \<Rightarrow> int \<Rightarrow> int \<Rightarrow> buffer \<Rightarrow> buffer res" where
  "read_pieces env img offset n r b =
     (if r < n then
        rbind (read_file env img (offset + r) (min 1024 (n - r))) (\<lambda>(rc, d).
        if rc \<le> 0 then Err Minus1
        else rbind (buffer_add (r_alloc env) b d (to_u32 rc)) (\<lambda>(rb, b).
             rbind (check (rb = rc) Minus1) (\<lambda>_. read_pieces env img offset n (r + rc) b)))
      else Ok b)"
  by pat_completeness auto
termination
  by (relation "measure (\<lambda>(env, img, offset, n, r, b). nat (n - r))") auto

declare read_pieces.simps [simp del]

definition read_part :: "reader_env \<Rightarrow> memory \<Rightarrow> u32 \<Rightarrow> u32 \<Rightarrow> buffer \<Rightarrow> buffer res" where
  "read_part env img offset n b =
     rbind (check (r_seek env (uint offset)) Minus1) (\<lambda>_.
     read_pieces env img (uint offset) (uint n) 0 b)"

text \<open>The inode table is uncompressed and takes the place of what was read.\<close>

definition uncompress_inodes :: "reader_env \<Rightarrow> super_block \<Rightarrow> compressor \<Rightarrow> buffer \<Rightarrow> buffer res" where
  "uncompress_inodes env s c ib =
     (let cbsize = uint (sb_inodes_size s) in
     rbind (check (malloc_ok (r_alloc env) cbsize) Minus1) (\<lambda>_.
     rbind (mem_slice (buffer_buffer ib) 0 (as_u32 (buffer_length ib))) (\<lambda>src.
     let (rc, out) = compressor_uncompress c src cbsize in
     if cbsize < int (length out) then Undef
     else rbind (check (rc = sint (sb_inodes_size s)) Minus1) (\<lambda>_.
          rbind (buffer_add (r_alloc env) (buffer_reset ib) out (sb_inodes_size s)) (\<lambda>(rc, ib).
          rbind (check (rc = sint (sb_inodes_size s)) Minus1) (\<lambda>_. Ok ib))))))"

definition unfs_load :: "reader_env \<Rightarrow> compressor list \<Rightarrow> memory \<Rightarrow> unfs res" where
  "unfs_load env cs img =
     rbind (check (r_open env) Minus1) (\<lambda>_.
     rbind (read_super env img) (\<lambda>s.
     case compressor_create_type cs (sb_compression_type s) of
       None \<Rightarrow> Err Minus1
     | Some c \<Rightarrow>
         rbind (check (malloc_ok (r_alloc env) 1024) Minus1) (\<lambda>_.
         rbind (read_part env img (sb_inodes_offset s) (sb_inodes_csize s) buffer_init) (\<lambda>ib.
         rbind (uncompress_inodes env s c ib) (\<lambda>ib.
         rbind (read_part env img (sb_blocks_offset s) (sb_blocks_size s) buffer_init) (\<lambda>bb.
         rbind (read_part env img (sb_entries_offset s) (sb_entries_size s) buffer_init) (\<lambda>eb.
         Ok \<lparr>u_compressor = c, u_inode_buffer = ib, u_block_buffer = bb, u_entry_buffer = eb,
             u_super = s, u_max_inode_size = max_inode_size (sb_ibits s),
             u_max_block_size = max_block_size (sb_kbits s)\<rparr>)))))))"

section \<open>Nodes and blocks\<close>

definition unfs_node_fill :: "unfs \<Rightarrow> int \<Rightarrow> node res" where
  "unfs_node_fill u number =
     rbind (node_bits (u_super u) (buffer_buffer (u_inode_buffer u)) (buffer_length (u_inode_buffer u))
       (u_max_inode_size u) number) (\<lambda>n. Ok (node_defaults (u_super u) n))"

definition unfs_block_fill :: "unfs \<Rightarrow> int \<Rightarrow> iblock res" where
  "unfs_block_fill u number =
     block_bits_at (u_super u) (buffer_buffer (u_block_buffer u)) (buffer_length (u_block_buffer u))
       (u_max_block_size u) number"

text \<open>
  The part of \<open>node_read\<close>'s loop that gets a block: its size and what was uncompressed of
  it.  Only a negative result of the method counts as a failure here.
\<close>

definition unfs_fetch :: "heap \<Rightarrow> unfs \<Rightarrow> int \<Rightarrow> (int \<times> memory) res" where
  "unfs_fetch alloc u b =
     rbind (unfs_block_fill u b) (\<lambda>k.
     rbind (check (malloc_ok alloc (ik_size k)) Minus1) (\<lambda>_.
     rbind (mem_slice (buffer_buffer (u_entry_buffer u)) (ik_offset k) (ik_compressed_size k)) (\<lambda>src.
     let (rc, out) = compressor_uncompress (u_compressor u) src (ik_size k) in
     if ik_size k < int (length out) then Undef
     else rbind (check (0 \<le> rc) Minus1) (\<lambda>_. Ok (ik_size k, out)))))"

definition unfs_node_read :: "heap \<Rightarrow> nat \<Rightarrow> unfs \<Rightarrow> node \<Rightarrow> 'c callback \<Rightarrow> 'c \<Rightarrow> (int \<times> 'c) res" where
  "unfs_node_read alloc fuel u n fn c =
     read_loop fuel (unfs_fetch alloc u) fn (nd_size n) 0 (nd_index n) (nd_block n) c"

section \<open>Reading a good image\<close>

text \<open>
  What the system does for a reader: memory is there, the file opens, and \<open>read\<close> delivers
  at least one byte and no more than are left, all of the super block at once.
\<close>

definition reader_ok :: "reader_env \<Rightarrow> memory \<Rightarrow> bool" where
  "reader_ok env img \<longleftrightarrow> heap_ok (r_alloc env) \<and> r_open env \<and> (\<forall>at. r_seek env at) \<and>
     (\<forall>at n. 0 \<le> at \<and> 0 < n \<and> at < int (length img) \<longrightarrow>
        1 \<le> r_read env at n \<and> r_read env at n \<le> n \<and> r_read env at n \<le> int (length img) - at) \<and>
     (sizeof_super \<le> int (length img) \<longrightarrow> r_read env 0 sizeof_super = sizeof_super)"

lemma read_file_ok:
  assumes "reader_ok env img" and "0 \<le> at" and "0 < n" and "at < int (length img)"
  shows "\<exists>rc. 1 \<le> rc \<and> rc \<le> n \<and> rc \<le> int (length img) - at \<and>
    read_file env img at n = Ok (rc, take (nat rc) (drop (nat at) img))"
proof -
  have r: "1 \<le> r_read env at n" "r_read env at n \<le> n" "r_read env at n \<le> int (length img) - at"
    using assms unfolding reader_ok_def by blast+
  then have "mem_slice img at (r_read env at n) = Ok (take (nat (r_read env at n)) (drop (nat at) img))"
    using assms(2) by (intro mem_slice_Ok) auto
  with r show ?thesis by (auto simp: read_file_def Let_def)
qed

lemma buffer_add_memory:
  assumes "buffer_add alloc b d n = Ok (r, b')"
  shows "length (bf_buffer b') \<le> max (length (bf_buffer b)) (bf_length b + unat n)"
    and "length (bf_buffer b) = bf_length b \<Longrightarrow> length (bf_buffer b') = bf_length b'"
    and "bf_length b' = bf_length b + unat n"
  using assms by (auto simp: buffer_add_def Let_def mem_slice_eq_Ok split: if_splits)

lemma read_pieces_ok:
  assumes "reader_ok env img"
  shows "0 \<le> offset \<Longrightarrow> 0 \<le> r \<Longrightarrow> r \<le> n \<Longrightarrow> offset + n \<le> int (length img) \<Longrightarrow> length img < 2 ^ 32 \<Longrightarrow>
    buffer_ok b \<Longrightarrow> length (bf_buffer b) = bf_length b \<Longrightarrow> int (bf_length b) = r \<Longrightarrow>
    \<exists>b'. read_pieces env img offset n r b = Ok b' \<and> buffer_ok b' \<and> length (bf_buffer b') = bf_length b' \<and>
      buffer_contents b' = buffer_contents b @ take (nat (n - r)) (drop (nat (offset + r)) img)"
proof (induction "nat (n - r)" arbitrary: r b rule: less_induct)
  case less
  show ?case
  proof (cases "r < n")
    case False
    then show ?thesis using less.prems by (subst read_pieces.simps) simp
  next
    case True
    obtain rc where rc: "1 \<le> rc" "rc \<le> min 1024 (n - r)" "rc \<le> int (length img) - (offset + r)"
      "read_file env img (offset + r) (min 1024 (n - r)) = Ok (rc, take (nat rc) (drop (nat (offset + r)) img))"
      using read_file_ok [OF assms, of "offset + r" "min 1024 (n - r)"] True less.prems by auto
    let ?d = "take (nat rc) (drop (nat (offset + r)) img)"
    have d: "length ?d = nat rc" "int (length ?d) = rc" using rc less.prems by auto
    have bc: "length (buffer_contents b) = bf_length b"
      using less.prems by (simp add: buffer_ok_def length_buffer_contents)
    have "length (buffer_contents b) + length ?d < 2 ^ 60"
    proof -
      have "int (bf_length b) + int (nat rc) \<le> int (length img)" using rc less.prems(1,2,8) by linarith
      then have "bf_length b + nat rc \<le> length img" by linarith
      also have "\<dots> < 4294967296" using less.prems(5) by simp
      finally show ?thesis using bc d(1) by simp
    qed
    moreover have "heap_ok (r_alloc env)" "length ?d < 2147483648"
      using assms rc d by (auto simp: reader_ok_def)
    ultimately obtain b1 where b1: "buffer_add (r_alloc env) b ?d (to_u32 rc) = Ok (rc, b1)" "buffer_ok b1"
      "buffer_contents b1 = buffer_contents b @ ?d"
      using buffer_add_ok [OF less.prems(6)] d(2) by (metis of_int_of_nat_eq)
    have u: "unat (to_u32 rc) = nat rc" using rc(1,2) by (simp add: unat_eq_nat_uint)
    note m = buffer_add_memory [OF b1(1)]
    have n1: "int (bf_length b1) = r + rc" using m(3) u less.prems(8) rc(1) by simp
    obtain b' where b': "read_pieces env img offset n (r + rc) b1 = Ok b'" "buffer_ok b'"
      "length (bf_buffer b') = bf_length b'"
      "buffer_contents b' = buffer_contents b1 @ take (nat (n - (r + rc))) (drop (nat (offset + (r + rc))) img)"
      using less.hyps [of "r + rc" b1] rc less.prems True b1(2) m(2) n1 by auto
    have e: "nat (offset + (r + rc)) = nat (offset + r) + nat rc" "nat rc + nat (n - (r + rc)) = nat (n - r)"
      using rc less.prems by (simp_all flip: nat_add_distrib)
    have "buffer_contents b' = buffer_contents b @ take (nat (n - r)) (drop (nat (offset + r)) img)"
      unfolding b'(4) b1(3) e(1) append_assoc take_drop_append e(2) ..
    moreover have "read_pieces env img offset n r b = Ok b'"
      using True rc(1,4) b1(1) b'(1) by (subst read_pieces.simps) simp
    ultimately show ?thesis using b'(2,3) by blast
  qed
qed

lemma read_part_ok:
  assumes e: "reader_ok env img" and img: "img = pre @ d @ post" "length img < 2 ^ 32"
    and o: "uint offset = int (length pre)" "uint n = int (length d)"
  shows "\<exists>b. read_part env img offset n buffer_init = Ok b \<and> buffer_ok b \<and> buffer_contents b = d \<and> bf_buffer b = d"
proof -
  have i: "bf_buffer buffer_init = []" "bf_length buffer_init = 0" by (simp_all add: buffer_init_def)
  have "r_seek env (uint offset)" using e by (simp add: reader_ok_def)
  moreover obtain b where b: "read_pieces env img (uint offset) (uint n) 0 buffer_init = Ok b" "buffer_ok b"
    "length (bf_buffer b) = bf_length b"
    "buffer_contents b = buffer_contents buffer_init @ take (nat (uint n - 0)) (drop (nat (uint offset + 0)) img)"
    using read_pieces_ok [OF e, of "uint offset" 0 "uint n" buffer_init] img o buffer_ok_init i by auto
  have "buffer_contents buffer_init = []" by (simp add: buffer_contents_def buffer_init_def)
  then have "buffer_contents b = d" using b(4) img(1) o by simp
  moreover have "buffer_contents b = bf_buffer b" using b(3) by (simp add: buffer_contents_def)
  ultimately show ?thesis using b(1,2) by (simp add: read_part_def)
qed

text \<open>\<open>u\<close> has the entry data \<open>entry\<close>, in blocks of \<open>2 ^ k\<close> bytes, behind its block table.\<close>

definition unfs_serves :: "heap \<Rightarrow> unfs \<Rightarrow> nat \<Rightarrow> memory \<Rightarrow> bool" where
  "unfs_serves alloc u k entry \<longleftrightarrow> heap_ok alloc \<and> length entry < 2 ^ 31 \<and> block_size_ok (u_super u) k \<and>
     u_max_block_size u = max_block_size (sb_kbits (u_super u)) \<and>
     (\<exists>btab ks ecb. holds_table (buffer_buffer (u_block_buffer u)) btab \<and> block_table_good (u_super u) ks btab \<and>
        buffer_length (u_block_buffer u) < 2 ^ 28 \<and> buffer_buffer (u_entry_buffer u) = ecb \<and>
        stored_blocks_ok (compressor_uncompress (u_compressor u)) k entry ecb ks)"

text \<open>The blocks the extractor fetches are the blocks of the entry data.\<close>

interpretation unfs: block_source "unfs_fetch alloc" "unfs_serves alloc" for alloc
proof unfold_locales
  fix u :: unfs and k :: nat and entry :: memory and b :: int
  assume w: "unfs_serves alloc u k entry" and b: "0 \<le> b" "b < block_count k entry"
  obtain btab ks where t: "holds_table (buffer_buffer (u_block_buffer u)) btab" "block_table_good (u_super u) ks btab"
    "buffer_length (u_block_buffer u) < 2 ^ 28"
    "stored_blocks_ok (compressor_uncompress (u_compressor u)) k entry (buffer_buffer (u_entry_buffer u)) ks"
    using w by (auto simp: unfs_serves_def)
  have u: "heap_ok alloc" "length entry < 2 ^ 31" "block_size_ok (u_super u) k"
    "u_max_block_size u = max_block_size (sb_kbits (u_super u))"
    using w by (simp_all add: unfs_serves_def)
  let ?d = "block_bytes k entry (nat b)" and ?e = "buffer_buffer (u_entry_buffer u)"
  have "0 \<le> buffer_length (u_block_buffer u)" by (simp add: buffer_length_def)
  from block_bits_stored [OF t(1,2,4) u(2,3) this t(3) b] obtain off cs where
    k: "unfs_block_fill u b = Ok \<lparr>ik_offset = off, ik_size = int (length ?d), ik_compressed_size = cs\<rparr>"
    "0 \<le> off" "0 \<le> cs" "off + cs \<le> int (length ?e)"
    "compressor_uncompress (u_compressor u) (take (nat cs) (drop (nat off) ?e)) (int (length ?d)) = (int (length ?d), ?d)"
    by (auto simp: unfs_block_fill_def u(4))
  have "length ?d < 2 ^ 31" using u(2) by (simp add: block_bytes_def)
  then show "unfs_fetch alloc u b = Ok (int (length ?d), ?d)"
    using k u(1) by (simp add: unfs_fetch_def)
qed

text \<open>\<open>u\<close> is what a good image with the super block \<open>s\<close> and these nodes has been read into.\<close>

definition unfs_ok :: "heap \<Rightarrow> options \<Rightarrow> super_block \<Rightarrow> mnode list \<Rightarrow> nat \<Rightarrow> memory \<Rightarrow> unfs \<Rightarrow> bool" where
  "unfs_ok alloc opt s nodes k entry u \<longleftrightarrow> u_super u = s \<and> unfs_serves alloc u k entry \<and>
     sb_root s = 0 \<and> sb_ctime s = 0 \<and> optional_bits opt s \<and>
     u_max_inode_size u = max_inode_size (sb_ibits s) \<and> inode_widths_ok s \<and>
     int (length nodes) = uint (sb_inodes s) \<and> length nodes < 2 ^ 22 \<and>
     0 \<le> buffer_length (u_inode_buffer u) \<and> buffer_length (u_inode_buffer u) < 2 ^ 28 \<and>
     (\<exists>itab. holds_table (buffer_buffer (u_inode_buffer u)) itab \<and> int (length itab) = inode_table_size s \<and>
        holds (membit itab) 0 (concat (map (inode_fields s) nodes))) \<and>
     (\<forall>n \<in> set nodes. node_ok n \<and> node_placed s k entry n \<and> payload_exact s (n_payload n) \<and>
        map field_value (inode_fields s n) = inode_view opt s n)"

lemma unfs_node_fill_ok:
  assumes "unfs_ok alloc opt s nodes k entry u" and "i < length nodes"
  shows "unfs_node_fill u (int i) = Ok (expected_node opt s (int i) (nodes ! i))"
proof -
  obtain itab where t: "holds_table (buffer_buffer (u_inode_buffer u)) itab"
    "int (length itab) = inode_table_size s" "holds (membit itab) 0 (concat (map (inode_fields s) nodes))"
    using assms(1) by (auto simp: unfs_ok_def)
  have u: "u_super u = s" "u_max_inode_size u = max_inode_size (sb_ibits s)" "inode_widths_ok s"
    "int (length nodes) = uint (sb_inodes s)" "length nodes < 2 ^ 22" "length entry < 2 ^ 31"
    "0 \<le> buffer_length (u_inode_buffer u)" "buffer_length (u_inode_buffer u) < 2 ^ 28"
    "optional_bits opt s" "sb_ctime s = 0"
    using assms(1) by (auto simp: unfs_ok_def unfs_serves_def)
  have n: "node_ok (nodes ! i)" "node_placed s k entry (nodes ! i)"
    "map field_value (inode_fields s (nodes ! i)) = inode_view opt s (nodes ! i)"
    using assms nth_mem [OF assms(2)] by (auto simp: unfs_ok_def)
  show ?thesis
    unfolding unfs_node_fill_def u(1,2) node_bits_ok [OF t u(3-5,7,8) assms(2)]
    using node_defaults_ok [OF n(1,2) u(6,9,10)] n(3) by simp
qed

text \<open>The file that an image is written to is read back into such a state.\<close>

lemma read_super_ok:
  assumes "reader_ok env (super_bytes s @ rest)" and "sb_magic s = SMASHFS_MAGIC"
  shows "read_super env (super_bytes s @ rest) = Ok s"
proof -
  have "r_read env 0 sizeof_super = sizeof_super" using assms(1) by (simp add: reader_ok_def sizeof_super_def)
  then have "read_file env (super_bytes s @ rest) 0 sizeof_super = Ok (sizeof_super, super_bytes s)"
    by (simp add: read_file_def sizeof_super_def)
  moreover have "super_of_bytes (super_bytes s) = s" by simp
  ultimately show ?thesis using assms(2) by (simp add: read_super_def)
qed

lemma uncompress_inodes_ok:
  assumes h: "heap_ok (r_alloc env)" and ib: "buffer_ok ib" "buffer_contents ib = icb" "bf_buffer ib = icb"
    and sz: "uint (sb_inodes_size s) = int (length itab)" "length itab < 2 ^ 28" "length icb < 2 ^ 28"
    and d: "compressor_uncompress c icb (int (length itab)) = (int (length itab), itab)"
  shows "\<exists>ib'. uncompress_inodes env s c ib = Ok ib' \<and> holds_table (buffer_buffer ib') itab \<and>
    buffer_length ib' = int (length itab)"
proof -
  have l: "bf_length ib = length icb" "buffer_length ib = int (length icb)"
    using ib(1,2) length_buffer_contents [of ib] by (auto simp: buffer_ok_def buffer_length_def)
  have si: "sint (sb_inodes_size s) = int (length itab)" using sz by (simp add: sint_eq_uint_small)
  have m: "mem_slice (buffer_buffer ib) 0 (as_u32 (buffer_length ib)) = Ok icb"
    using l sz(3) ib(3) by (simp add: buffer_buffer_def)
  have "buffer_ok (buffer_reset ib)" using ib(1) buffer_wf_reset by (simp add: buffer_ok_def) (simp add: buffer_reset_def)
  from buffer_add_ok [OF this h, of itab] sz(2)
  obtain b where b: "buffer_add (r_alloc env) (buffer_reset ib) itab (of_nat (length itab)) = Ok (int (length itab), b)"
    "buffer_ok b" "buffer_contents b = itab"
    by auto
  have n: "of_nat (length itab) = sb_inodes_size s" using sz(1) by (metis of_int_of_nat_eq word_of_int_uint)
  note bm = buffer_add_memory [OF b(1)]
  have "unat (of_nat (length itab) :: u32) = length itab" using sz(2) by (simp add: unat_of_nat)
  then have bl: "bf_length b = length itab" "length (bf_buffer b) < 2 ^ 28"
    using bm(1,3) sz(2,3) ib(3) by (simp_all add: buffer_reset_def)
  have "take (length itab) (bf_buffer b) = itab" using b(3) bl(1) by (simp add: buffer_contents_def)
  then have "holds_table (buffer_buffer b) itab" using bl(2) by (simp add: holds_table_def buffer_buffer_def)
  moreover have "malloc_ok (r_alloc env) (uint (sb_inodes_size s))" using h sz(1,2) by simp
  ultimately show ?thesis
    using m d b(1) bl(1) sz(1) si n by (simp add: uncompress_inodes_def buffer_length_def)
qed

lemma unfs_load_ok:
  assumes e: "reader_ok env img" and i: "image_ok (compressor_uncompress c) opt s nodes img" and l: "length img < 2 ^ 32"
    and c: "compressor_create_type cs (sb_compression_type s) = Some c"
  shows "\<exists>u k entry. unfs_load env cs img = Ok u \<and> unfs_ok (r_alloc env) opt s nodes k entry u"
proof -
  obtain icb btab ecb ks k entry where i1: "sb_magic s = SMASHFS_MAGIC" "sb_ctime s = 0" "sb_root s = 0"
    "optional_bits opt s" "layout_ok s img icb btab ecb" "block_size_ok s k"
    and i2: "inode_table_ok (compressor_uncompress c) s nodes icb" and i3: "block_table_good s ks btab"
    and i4: "length entry < 2 ^ 31" "stored_blocks_ok (compressor_uncompress c) k entry ecb ks"
      "\<forall>n \<in> set nodes. node_ok n \<and> node_placed s k entry n \<and> payload_exact s (n_payload n) \<and>
           map field_value (inode_fields s n) = inode_view opt s n"
    using i unfolding image_ok_def by blast
  obtain pad where img: "img = super_bytes s @ icb @ btab @ ecb @ pad" using i1(5) by (auto simp: layout_ok_def)
  have o: "uint (sb_inodes_offset s) = int (length (super_bytes s))" "uint (sb_inodes_csize s) = int (length icb)"
    "uint (sb_blocks_offset s) = int (length (super_bytes s @ icb))" "uint (sb_blocks_size s) = int (length btab)"
    "uint (sb_entries_offset s) = int (length (super_bytes s @ icb @ btab))" "uint (sb_entries_size s) = int (length ecb)"
    using i1(5) by (simp_all add: layout_ok_def sizeof_super_def)
  have h: "heap_ok (r_alloc env)" "r_open env" using e by (simp_all add: reader_ok_def)
  obtain itab where it: "int (length itab) = inode_table_size s" "uint (sb_inodes_size s) = inode_table_size s"
    "inode_table_size s < 2 ^ 28" "compressor_uncompress c icb (inode_table_size s) = (inode_table_size s, itab)"
    "holds (membit itab) 0 (concat (map (inode_fields s) nodes))" "length icb < 2 ^ 28" "inode_widths_ok s"
    "int (length nodes) = uint (sb_inodes s)" "length nodes < 2 ^ 22"
    using i2 by (auto simp: inode_table_ok_def)
  have s: "read_super env img = Ok s"
    using read_super_ok [of env s] e i1(1) unfolding img by blast
  obtain ib where ib: "read_part env img (sb_inodes_offset s) (sb_inodes_csize s) buffer_init = Ok ib" "buffer_ok ib"
    "buffer_contents ib = icb" "bf_buffer ib = icb"
    using read_part_ok [OF e _ l o(1,2), of "btab @ ecb @ pad"] by (auto simp: img)
  obtain bb where bb: "read_part env img (sb_blocks_offset s) (sb_blocks_size s) buffer_init = Ok bb" "buffer_ok bb"
    "buffer_contents bb = btab" "bf_buffer bb = btab"
    using read_part_ok [OF e _ l o(3,4), of "ecb @ pad"] by (auto simp: img)
  obtain eb where eb: "read_part env img (sb_entries_offset s) (sb_entries_size s) buffer_init = Ok eb" "buffer_ok eb"
    "buffer_contents eb = ecb" "bf_buffer eb = ecb"
    using read_part_ok [OF e _ l o(5,6), of pad] by (auto simp: img)
  have "length itab < 2 ^ 28" "uint (sb_inodes_size s) = int (length itab)"
    "compressor_uncompress c icb (int (length itab)) = (int (length itab), itab)"
    using it by simp_all
  from uncompress_inodes_ok [OF h(1) ib(2-4) this(2,1) it(6) this(3)] obtain ib' where
    ib': "uncompress_inodes env s c ib = Ok ib'" "holds_table (buffer_buffer ib') itab" "buffer_length ib' = int (length itab)"
    by blast
  let ?u = "\<lparr>u_compressor = c, u_inode_buffer = ib', u_block_buffer = bb, u_entry_buffer = eb,
             u_super = s, u_max_inode_size = max_inode_size (sb_ibits s),
             u_max_block_size = max_block_size (sb_kbits s)\<rparr>"
  have "unfs_load env cs img = Ok ?u"
    using h s c ib(1) ib'(1) bb(1) eb(1) by (simp add: unfs_load_def)
  moreover have "int (length btab) < 2 ^ 28"
    using i3 block_table_ok(3) [of s ks] by (simp add: block_table_good_def)
  then have "holds_table (buffer_buffer bb) btab" "buffer_length bb < 2 ^ 28"
    using bb(2-4) by (simp_all add: holds_table_def buffer_buffer_def buffer_ok_length)
  then have "unfs_serves (r_alloc env) ?u k entry"
    using h(1) i1(6) i3 i4(1,2) eb(4) by (auto simp: unfs_serves_def buffer_buffer_def)
  then have "unfs_ok (r_alloc env) opt s nodes k entry ?u"
    using i1 it ib' i4(3) by (auto simp: unfs_ok_def)
  ultimately show ?thesis by blast
qed

text \<open>Reading a node hands its contents to the callback.\<close>

lemma unfs_node_read_ok:
  assumes u: "unfs_ok alloc opt s nodes k entry u" and n: "n \<in> set nodes" and f: "nat (n_size n) < fuel"
    and step: "\<And>c acc x. R c acc \<Longrightarrow> x \<noteq> [] \<Longrightarrow> int (length (acc @ x)) \<le> n_size n \<Longrightarrow>
      \<exists>c'. fn c x (int (length x)) = Ok (int (length x), c') \<and> R c' (acc @ x)" and c: "R c []"
  shows "\<exists>c'. unfs_node_read alloc fuel u (expected_node opt s number n) fn c = Ok (0, c') \<and> R c' (node_bytes s n)"
proof -
  have p: "node_placed s k entry n" "unfs_serves alloc u k entry" using u n by (simp_all add: unfs_ok_def)
  then have p': "0 \<le> n_block n" "0 \<le> n_index n" "n_index n < 2 ^ k"
    "n_block n * 2 ^ k + n_index n + (n_size n - 0) \<le> int (length entry)"
    "n_size n = int (length (node_bytes s n))"
    "take (length (node_bytes s n)) (drop (nat (n_block n * 2 ^ k + n_index n)) entry) = node_bytes s n"
    by (simp_all add: node_placed_def)
  from unfs.read_loop_ok [where R = R and n = "n_size n" and s = 0 and acc = "[]" and fuel = fuel and c = c
      and fn = fn and st = u and alloc = alloc and k = k and entry = entry and b = "n_block n" and i = "n_index n",
      OF p(2) step c _ _ p'(1-4)] f
  obtain c' where "read_loop fuel (unfs_fetch alloc u) fn (n_size n) 0 (n_index n) (n_block n) c = Ok (0, c')"
    "R c' ([] @ take (nat (n_size n - 0)) (drop (nat (n_block n * 2 ^ k + n_index n)) entry))"
    using p'(5) by auto
  with p'(5,6) show ?thesis by (auto simp: unfs_node_read_def expected_node_def)
qed

lemma unfs_node_read_copy_ok:
  assumes u: "unfs_ok alloc opt s nodes k entry u" and n: "n \<in> set nodes" and f: "nat (n_size n) < fuel"
  shows "unfs_node_read alloc fuel u (expected_node opt s number n) node_read_copy (n_size n, []) =
    Ok (0, (n_size n, node_bytes s n))"
proof -
  have "n_size n < 2 ^ 31"
    using u n node_placed_range(2) by (auto simp: unfs_ok_def unfs_serves_def)
  then have "\<exists>c'. node_read_copy c x (int (length x)) = Ok (int (length x), c') \<and> c' = (n_size n, acc @ x)"
    if "c = (n_size n, acc)" "int (length (acc @ x)) \<le> n_size n" for c acc x
    using that by (auto simp: node_read_copy_def)
  with unfs_node_read_ok [OF u n f, of "\<lambda>c acc. c = (n_size n, acc)" node_read_copy "(n_size n, [])" number]
  show ?thesis by auto
qed

end
