(* ===== verification/Unfs_Traverse.thy ===== *)
theory Unfs_Traverse
  imports Unfs Reader_Directory
begin

text \<open>
  \<open>src/mkfs/unfs.c\<close>, \<open>traverse\<close> and the end of \<open>main\<close>: the tree of an image is recreated under
  the current directory.

  What the program does to the system is the sequence of its system calls, a \<open>trace\<close>; what
  the system answers to the last call of a trace is given by \<open>os\<close>.  \<open>traverse\<close> returns
  nothing, so its result is the trace after it: the early returns of the source end it, and
  the caller goes on.
\<close>

unbundle bit_operations_syntax

section \<open>System calls\<close>

datatype syscall =
  Mkdir memory int
| Chdir memory
| Unlink memory
| Open memory int
| Write memory
| Close
| Symlink memory memory
| Chmod memory int
| Lchown memory int int

type_synonym trace = "syscall list"

record os =
  os_rc :: "trace \<Rightarrow> int"
  os_eexist :: "trace \<Rightarrow> bool"

definition call :: "os \<Rightarrow> syscall \<Rightarrow> trace \<Rightarrow> int \<times> trace" where
  "call os c tr = (os_rc os (tr @ [c]), tr @ [c])"

text \<open>The string \<open>".."\<close>, and the call whose failure is only reported.\<close>

definition dot_dot :: memory where
  "dot_dot = [0x2E, 0x2E]"

definition go_up :: "os \<Rightarrow> trace \<Rightarrow> trace" where
  "go_up os tr = snd (call os (Chdir dot_dot) tr)"

section \<open>The traversal\<close>

text \<open>\<open>strndup\<close> of at most \<open>n\<close> bytes at the start of \<open>m\<close>; it needs all of them, or a zero.\<close>

definition strndup :: "heap \<Rightarrow> memory \<Rightarrow> int \<Rightarrow> memory option res" where
  "strndup alloc m n =
     (let p = c_str (take (nat n) m) in
      if int (length m) < n \<and> 0 \<notin> set m then Undef
      else if malloc_ok alloc (int (length p) + 1) then Ok (Some p) else Ok None)"

definition node_read_regular_file :: "os \<Rightarrow> trace callback" where
  "node_read_regular_file os = (\<lambda>tr x n. let (rc, tr) = call os (Write x) tr in Ok (to_s32 rc, tr))"

text \<open>
  The loop over the entries of a directory, with \<open>rec\<close> for the recursive call and \<open>buf\<close> for
  the bytes from the pointer on.
\<close>

fun traverse_entries ::
  "(int \<Rightarrow> memory \<Rightarrow> trace \<Rightarrow> trace res) \<Rightarrow> heap \<Rightarrow> super_block \<Rightarrow> nat \<Rightarrow> memory \<Rightarrow> trace \<Rightarrow> trace res" where
  "traverse_entries rec alloc s 0 buf tr = Ok tr"
| "traverse_entries rec alloc s (Suc e) buf tr =
     rbind (dir_entry_skip s buf) (\<lambda>(number, len).
     let buf = drop (nat (entry_size s)) buf in
     rbind (strndup alloc buf (uint len)) (\<lambda>path.
     rbind (case path of None \<Rightarrow> Ok tr | Some p \<Rightarrow> rec (uint number) p tr) (\<lambda>tr.
     traverse_entries rec alloc s e (drop (unat len) buf) tr)))"

text \<open>The three branches of \<open>traverse\<close>; \<open>False\<close> when it returns from them.\<close>

definition traverse_directory ::
  "(int \<Rightarrow> memory \<Rightarrow> trace \<Rightarrow> trace res) \<Rightarrow> heap \<Rightarrow> nat \<Rightarrow> os \<Rightarrow> unfs \<Rightarrow> node \<Rightarrow> memory \<Rightarrow> trace \<Rightarrow> (bool \<times> trace) res"
where
  "traverse_directory rec alloc fuel os u n name tr =
     (let (rc, tr) = call os (Mkdir name (file_mode n)) tr in
      if rc \<noteq> 0 \<and> \<not> os_eexist os tr then Ok (False, tr)
      else let (rc, tr) = call os (Chdir name) tr in
      if rc \<noteq> 0 then Ok (False, tr)
      else if \<not> malloc_ok alloc (nd_size n) then Ok (False, go_up os tr)
      else rbind (unfs_node_read alloc fuel u n node_read_copy (nd_size n, [])) (\<lambda>(rc, (_, buf)).
        if rc \<noteq> 0 then Ok (False, go_up os tr)
        else rbind (dir_header (u_super u) buf (nd_size n)) (\<lambda>(_, nentries).
          rbind (traverse_entries rec alloc (u_super u) (unat nentries)
                   (drop (nat (directory_size (u_super u))) buf) tr) (\<lambda>tr.
          let (rc, tr) = call os (Chdir dot_dot) tr in Ok (rc = 0, tr)))))"

definition traverse_file :: "heap \<Rightarrow> nat \<Rightarrow> os \<Rightarrow> unfs \<Rightarrow> node \<Rightarrow> memory \<Rightarrow> trace \<Rightarrow> (bool \<times> trace) res" where
  "traverse_file alloc fuel os u n name tr =
     (let (_, tr) = call os (Unlink name) tr; (fd, tr) = call os (Open name (file_mode n)) tr in
      if fd < 0 then Ok (False, tr)
      else rbind (unfs_node_read alloc fuel u n (node_read_regular_file os) tr) (\<lambda>(rc, tr).
        if rc \<noteq> 0 then Ok (False, go_up os tr)
        else Ok (True, snd (call os Close tr))))"

definition traverse_link :: "heap \<Rightarrow> nat \<Rightarrow> os \<Rightarrow> unfs \<Rightarrow> node \<Rightarrow> memory \<Rightarrow> trace \<Rightarrow> (bool \<times> trace) res" where
  "traverse_link alloc fuel os u n name tr =
     (let (_, tr) = call os (Unlink name) tr in
      if \<not> malloc_ok alloc (nd_size n) then Ok (False, go_up os tr)
      else rbind (unfs_node_read alloc fuel u n node_read_copy (nd_size n, [])) (\<lambda>(rc, (_, buf)).
        if rc \<noteq> 0 then Ok (False, go_up os tr)
        else if 0 \<notin> set buf then Undef
        else let (rc, tr) = call os (Symlink (c_str buf) name) tr in Ok (rc = 0, tr)))"

text \<open>
  The function itself, with \<open>depth\<close> for the depth of the recursion and \<open>fuel\<close> for the turns
  of a reading loop.  The block that it looks up first is not used for anything.
\<close>

fun traverse :: "heap \<Rightarrow> nat \<Rightarrow> os \<Rightarrow> unfs \<Rightarrow> nat \<Rightarrow> int \<Rightarrow> memory \<Rightarrow> trace \<Rightarrow> trace res" where
  "traverse alloc fuel os u 0 inode name tr = Timeout"
| "traverse alloc fuel os u (Suc depth) inode name tr =
     attempt (unfs_node_fill u inode) (Ok tr) (\<lambda>n.
     attempt (unfs_block_fill u (nd_block n)) (Ok tr) (\<lambda>_.
     rbind (if nd_type n = inode_code directory then
              traverse_directory (traverse alloc fuel os u depth) alloc fuel os u n name tr
            else if nd_type n = inode_code regular_file then traverse_file alloc fuel os u n name tr
            else if nd_type n = inode_code symbolic_link then traverse_link alloc fuel os u n name tr
            else Ok (False, tr)) (\<lambda>(go, tr).
     if go then
       Ok (snd (call os (Lchown name (nd_uid n) (nd_gid n)) (snd (call os (Chmod name (file_mode n)) tr))))
     else Ok tr)))"

text \<open>The end of \<open>main\<close>: into the output directory, the tree of the root, and back.\<close>

definition dot_slash :: memory where
  "dot_slash = [0x2E, 0x2F]"

definition unfs_run ::
  "reader_env \<Rightarrow> compressor list \<Rightarrow> os \<Rightarrow> nat \<Rightarrow> nat \<Rightarrow> memory \<Rightarrow> memory \<Rightarrow> memory \<Rightarrow> trace res" where
  "unfs_run env cs os fuel depth img out cwd =
     rbind (unfs_load env cs img) (\<lambda>u.
     let (rc, tr) = call os (Mkdir out 511) [] in
     rbind (check (rc = 0 \<or> os_eexist os tr) Minus1) (\<lambda>_.
     rbind (check (malloc_ok (r_alloc env) (1024 * 1024)) Minus1) (\<lambda>_.
     let (rc, tr) = call os (Chdir out) tr in
     rbind (check (rc = 0) Minus1) (\<lambda>_.
     rbind (traverse (r_alloc env) fuel os u depth (uint (sb_root (u_super u))) dot_slash tr) (\<lambda>tr.
     let (rc, tr) = call os (Chdir cwd) tr in
     rbind (check (rc = 0) Minus1) (\<lambda>_. Ok tr))))))"

section \<open>What it should do\<close>

text \<open>
  The calls that recreate the node \<open>number\<close> under the name \<open>name\<close>, from the node table of
  \<open>mkfs\<close>: directories depth first, a file by one write of all its contents.
\<close>

definition shown_mode :: "options \<Rightarrow> mnode \<Rightarrow> int" where
  "shown_mode opt n = file_mode
     \<lparr>nd_number = 0, nd_type = 0, nd_owner_mode = n_owner_mode n,
      nd_group_mode = (if o_no_group_mode opt then n_owner_mode n else n_group_mode n),
      nd_other_mode = (if o_no_other_mode opt then n_owner_mode n else n_other_mode n),
      nd_uid = 0, nd_gid = 0, nd_ctime = 0, nd_mtime = 0, nd_size = 0, nd_block = 0, nd_index = 0\<rparr>"

definition shown_owner :: "options \<Rightarrow> mnode \<Rightarrow> memory \<Rightarrow> syscall" where
  "shown_owner opt n name =
     Lchown name (if o_no_uid opt then 0 else n_uid n) (if o_no_gid opt then 0 else n_gid n)"

fun tree_calls :: "options \<Rightarrow> mnode list \<Rightarrow> nat \<Rightarrow> int \<Rightarrow> memory \<Rightarrow> trace" where
  "tree_calls opt nodes 0 number name = []"
| "tree_calls opt nodes (Suc depth) number name =
     (let n = nodes ! nat number; mode = shown_mode opt n in
      (case n_payload n of
         Directory_payload p es \<Rightarrow>
           [Mkdir name mode, Chdir name] @
           concat (map (\<lambda>e. tree_calls opt nodes depth (de_number e) (de_name e)) es) @ [Chdir dot_dot]
       | File_payload d \<Rightarrow> [Unlink name, Open name mode] @ (if d = [] then [] else [Write d]) @ [Close]
       | Link_payload p \<Rightarrow> [Unlink name, Symlink (c_str p) name]
       | No_payload \<Rightarrow> []) @ [Chmod name mode, shown_owner opt n name])"

lemma expected_node_shown:
  "file_mode (expected_node opt s number n) = shown_mode opt n"
  "Lchown name (nd_uid (expected_node opt s number n)) (nd_gid (expected_node opt s number n)) = shown_owner opt n name"
  by (simp_all add: shown_mode_def shown_owner_def file_mode_def expected_node_def)

text \<open>The table is a tree of at most that depth below \<open>number\<close>, with proper names.\<close>

fun tree_ok :: "mnode list \<Rightarrow> nat \<Rightarrow> int \<Rightarrow> bool" where
  "tree_ok nodes 0 number = False"
| "tree_ok nodes (Suc depth) number \<longleftrightarrow> 0 \<le> number \<and> number < int (length nodes) \<and>
     (case n_payload (nodes ! nat number) of
        Directory_payload p es \<Rightarrow> \<forall>e \<in> set es. 0 \<notin> set (de_name e) \<and> tree_ok nodes depth (de_number e)
      | _ \<Rightarrow> True)"

text \<open>Writes to the same file that follow each other are one.\<close>

fun is_write :: "syscall \<Rightarrow> bool" where
  "is_write (Write x) = True"
| "is_write c = False"

definition join_write :: "syscall \<Rightarrow> trace \<Rightarrow> trace" where
  "join_write c cs = (case (c, cs) of (Write x, Write y # ds) \<Rightarrow> Write (x @ y) # ds | _ \<Rightarrow> c # cs)"

definition coalesce :: "trace \<Rightarrow> trace" where
  "coalesce cs = foldr join_write cs []"

text \<open>A system on which every call succeeds and a write takes all that it is given.\<close>

definition os_good :: "os \<Rightarrow> bool" where
  "os_good os \<longleftrightarrow> (\<forall>tr c. case c of
       Write x \<Rightarrow> os_rc os (tr @ [c]) = int (length x)
     | Open p m \<Rightarrow> 0 \<le> os_rc os (tr @ [c])
     | _ \<Rightarrow> os_rc os (tr @ [c]) = 0)"

lemma os_goodD:
  "os_good os \<Longrightarrow> case c of Write x \<Rightarrow> os_rc os (tr @ [c]) = int (length x)
     | Open p m \<Rightarrow> 0 \<le> os_rc os (tr @ [c]) | _ \<Rightarrow> os_rc os (tr @ [c]) = 0"
  unfolding os_good_def by blast

lemma call_good [simp]:
  assumes "os_good os"
  shows "call os (Mkdir p m) tr = (0, tr @ [Mkdir p m])" "call os (Chdir p) tr = (0, tr @ [Chdir p])"
    "call os (Symlink t p) tr = (0, tr @ [Symlink t p])" "call os (Write x) tr = (int (length x), tr @ [Write x])"
  using os_goodD [OF assms, where c = "Mkdir p m" and tr = tr] os_goodD [OF assms, where c = "Chdir p" and tr = tr]
    os_goodD [OF assms, where c = "Symlink t p" and tr = tr] os_goodD [OF assms, where c = "Write x" and tr = tr]
  by (simp_all add: call_def)

lemma call_open: "os_good os \<Longrightarrow> \<exists>fd \<ge> 0. call os (Open p m) tr = (fd, tr @ [Open p m])"
  using os_goodD [where c = "Open p m" and tr = tr] by (simp add: call_def)

lemma snd_call [simp]: "snd (call os c tr) = tr @ [c]"
  by (simp add: call_def)

lemma join_write_other [simp]: "\<not> is_write c \<Longrightarrow> join_write c cs = c # cs"
  by (cases c) (simp_all add: join_write_def)

lemma join_write_other2 [simp]: "\<not> is_write d \<Longrightarrow> join_write c (d # cs) = c # d # cs"
  by (cases c; cases d) (simp_all add: join_write_def)

lemma join_write_append: "ys \<noteq> [] \<Longrightarrow> join_write c (ys @ zs) = join_write c ys @ zs"
  by (cases ys) (auto simp: join_write_def split: syscall.splits)

lemma join_write_nonempty [simp]: "join_write c cs \<noteq> []"
  by (auto simp: join_write_def split: syscall.splits list.splits)

lemma foldr_join_write:
  "xs \<noteq> [] \<Longrightarrow> \<not> is_write (last xs) \<Longrightarrow> foldr join_write xs zs = foldr join_write xs [] @ zs"
proof (induction xs)
  case (Cons c xs)
  show ?case
  proof (cases xs)
    case (Cons d ds)
    then have "foldr join_write xs zs = foldr join_write xs [] @ zs" "foldr join_write xs [] \<noteq> []"
      using Cons.IH Cons.prems by simp_all
    then show ?thesis by (simp add: join_write_append)
  qed (use Cons.prems in simp)
qed simp

lemma coalesce_append:
  assumes "xs = [] \<or> \<not> is_write (last xs)"
  shows "coalesce (xs @ ys) = coalesce xs @ coalesce ys"
proof (cases "xs = []")
  case False
  then show ?thesis using assms foldr_join_write [of xs "coalesce ys"] by (simp add: coalesce_def)
qed (simp add: coalesce_def)

lemma coalesce_simps [simp]:
  "coalesce [] = []"
  "\<not> is_write c \<Longrightarrow> coalesce (c # cs) = c # coalesce cs"
  by (simp_all add: coalesce_def)

lemma coalesce_writes:
  assumes "\<not> is_write c" and "[] \<notin> set xs"
  shows "coalesce (map Write xs @ c # cs) = (if concat xs = [] then [] else [Write (concat xs)]) @ c # coalesce cs"
  using assms(2)
proof (induction xs)
  case (Cons x xs)
  then have IH: "coalesce (map Write xs @ c # cs) = (if concat xs = [] then [] else [Write (concat xs)]) @ c # coalesce cs"
    by simp
  have "coalesce (map Write (x # xs) @ c # cs) = join_write (Write x) (coalesce (map Write xs @ c # cs))"
    by (simp add: coalesce_def)
  moreover have "xs \<noteq> [] \<Longrightarrow> concat xs \<noteq> []" using Cons.prems by (cases xs) auto
  ultimately show ?case using Cons.prems assms(1) unfolding IH by (cases "xs = []"; cases c) (auto simp: join_write_def)
qed (use assms(1) in simp)

section \<open>It does\<close>

lemma unfs_block_fill_ok:
  assumes "unfs_ok alloc opt s nodes k entry u" and "0 \<le> b" and "b < uint (sb_blocks s)"
  shows "\<exists>x. unfs_block_fill u b = Ok x"
proof -
  obtain btab ks where t: "holds_table (buffer_buffer (u_block_buffer u)) btab" "block_table_good s ks btab"
    "buffer_length (u_block_buffer u) < 2 ^ 28"
    "stored_blocks_ok (compressor_uncompress (u_compressor u)) k entry (buffer_buffer (u_entry_buffer u)) ks"
    using assms(1) by (auto simp: unfs_ok_def unfs_serves_def)
  have u: "length entry < 2 ^ 31" "block_size_ok s k" "u_super u = s" "u_max_block_size u = max_block_size (sb_kbits s)"
    using assms(1) by (auto simp: unfs_ok_def unfs_serves_def)
  have b: "b < block_count k entry"
    using assms(3) t(2,4) by (simp add: block_table_good_def stored_blocks_ok_def)
  have "0 \<le> buffer_length (u_block_buffer u)" by (simp add: buffer_length_def)
  from block_bits_stored [OF t(1,2,4) u(1,2) this t(3) assms(2) b] show ?thesis
    by (auto simp: unfs_block_fill_def u(3,4))
qed

lemma traverse_file_ok:
  fixes number :: int
  assumes u: "unfs_ok alloc opt s nodes k entry u" and n: "n \<in> set nodes" and f: "nat (n_size n) < fuel"
    and os: "os_good os" and pl: "n_payload n = File_payload d"
  defines "v \<equiv> expected_node opt s number n"
  shows "\<exists>xs. traverse_file alloc fuel os u v name tr =
      Ok (True, tr @ [Unlink name, Open name (file_mode v)] @ map Write xs @ [Close]) \<and> concat xs = d \<and> [] \<notin> set xs"
proof -
  let ?tr = "tr @ [Unlink name, Open name (file_mode v)]"
  let ?R = "\<lambda>t acc. \<exists>xs. t = ?tr @ map Write xs \<and> concat xs = acc \<and> [] \<notin> set xs"
  have sz: "n_size n < 2 ^ 31" using u n node_placed_range(2) by (auto simp: unfs_ok_def unfs_serves_def)
  have step: "\<exists>c'. node_read_regular_file os c x (int (length x)) = Ok (int (length x), c') \<and> ?R c' (acc @ x)"
    if r: "?R c acc" and x: "x \<noteq> []" and l: "int (length (acc @ x)) \<le> n_size n" for c acc x
  proof -
    obtain xs where xs: "c = ?tr @ map Write xs" "concat xs = acc" "[] \<notin> set xs" using r by blast
    have "node_read_regular_file os c x (int (length x)) = Ok (int (length x), c @ [Write x])"
      using os l sz by (simp add: node_read_regular_file_def)
    moreover have "c @ [Write x] = ?tr @ map Write (xs @ [x])" "concat (xs @ [x]) = acc @ x" "[] \<notin> set (xs @ [x])"
      using xs x by auto
    ultimately show ?thesis by blast
  qed
  have "?R ?tr []" by (rule exI [of _ "[]"]) simp
  from unfs_node_read_ok [where R = ?R and fn = "node_read_regular_file os" and c = ?tr and number = number, OF u n f step this]
  obtain xs where xs: "unfs_node_read alloc fuel u v (node_read_regular_file os) ?tr = Ok (0, ?tr @ map Write xs)"
    "concat xs = node_bytes s n" "[] \<notin> set xs"
    by (auto simp: v_def)
  obtain fd where "0 \<le> fd" "call os (Open name (file_mode v)) (tr @ [Unlink name]) = (fd, ?tr)"
    using call_open [OF os, of name "file_mode v" "tr @ [Unlink name]"] by auto
  moreover have "call os (Unlink name) tr = (os_rc os (tr @ [Unlink name]), tr @ [Unlink name])"
    by (simp add: call_def)
  ultimately show ?thesis using xs pl by (auto simp: traverse_file_def node_bytes_def)
qed

lemma traverse_link_ok:
  fixes number :: int
  assumes u: "unfs_ok alloc opt s nodes k entry u" and n: "n \<in> set nodes" and f: "nat (n_size n) < fuel"
    and os: "os_good os" and pl: "n_payload n = Link_payload p"
  defines "v \<equiv> expected_node opt s number n"
  shows "traverse_link alloc fuel os u v name tr = Ok (True, tr @ [Unlink name, Symlink (c_str p) name])"
proof -
  have v: "nd_size v = n_size n" by (simp add: v_def expected_node_def)
  have h: "heap_ok alloc" "0 \<le> n_size n" "n_size n < 2 ^ 31"
    using u n node_placed_range(1,2) by (auto simp: unfs_ok_def unfs_serves_def)
  have r: "unfs_node_read alloc fuel u v node_read_copy (n_size n, []) = Ok (0, (n_size n, c_str p @ [0]))"
    using unfs_node_read_copy_ok [OF u n f, of number] pl by (simp add: v_def node_bytes_def)
  have "c_str (c_str p @ [0]) = c_str p"
  proof -
    have "\<forall>x \<in> set (c_str p). x \<noteq> 0" by (auto simp: c_str_def dest: set_takeWhileD)
    then show ?thesis unfolding c_str_def [of "c_str p @ [0]"] by (subst takeWhile_append2) auto
  qed
  moreover have "call os (Unlink name) tr = (os_rc os (tr @ [Unlink name]), tr @ [Unlink name])"
    by (simp add: call_def)
  ultimately show ?thesis using h os r by (simp add: traverse_link_def v)
qed

text \<open>The loop over the entries calls \<open>rec\<close> with each of them in turn.\<close>

lemma strndup_ok:
  assumes "heap_ok alloc" and "0 \<notin> set p" and "length p < 2 ^ 31"
  shows "strndup alloc (p @ rest) (int (length p)) = Ok (Some p)"
proof -
  have "c_str p = p" using assms(2) by (auto simp: c_str_def intro: takeWhile_eq_all_conv [THEN iffD2])
  then show ?thesis using assms(1,3) by (simp add: strndup_def)
qed

lemma traverse_entries_ok:
  assumes h: "heap_ok alloc" and w: "entry_widths_ok s"
    and r: "\<And>e tr. e \<in> set es \<Longrightarrow> \<exists>tr'. rec (de_number e) (de_name e) tr = Ok (tr @ tr') \<and>
      (tr' = [] \<or> \<not> is_write (last tr')) \<and> coalesce tr' = f e"
  shows "\<forall>e \<in> set es. dentry_ok e \<and> 0 \<notin> set (de_name e) \<and> map field_value (entry_fields s e) =
      [to_u32 (de_number e), to_u32 (de_length e), to_u32 (de_type e)] \<Longrightarrow>
    length (concat (map (entry_bytes s) es)) < 2 ^ 28 \<Longrightarrow>
    \<exists>tr'. traverse_entries rec alloc s (length es) (concat (map (entry_bytes s) es)) tr = Ok (tr @ tr') \<and>
      (tr' = [] \<or> \<not> is_write (last tr')) \<and> coalesce tr' = concat (map f es)"
  using r
proof (induction es arbitrary: tr)
  case (Cons e es)
  let ?rest = "concat (map (entry_bytes s) es)"
  have e: "dentry_ok e" "0 \<notin> set (de_name e)" "map field_value (entry_fields s e) =
      [to_u32 (de_number e), to_u32 (de_length e), to_u32 (de_type e)]"
    using Cons.prems(1) by simp_all
  have l: "length (entry_bytes s e @ ?rest) < 2 ^ 28" using Cons.prems(2) by simp
  note en = dir_entry_fields(2) [OF w e(3) l]
  have nl: "de_length e < 2 ^ 31" "uint (to_u32 (de_number e)) = de_number e" "uint (to_u32 (de_length e)) = de_length e"
  proof -
    have "0 \<le> de_length e" by (simp add: de_length_def)
    then show "de_length e < 2 ^ 31" "uint (to_u32 (de_number e)) = de_number e"
      "uint (to_u32 (de_length e)) = de_length e"
      using e(1) uint_to_u32_id [of "de_length e"] by (simp_all add: dentry_ok_def u32_range_def)
  qed
  have d: "drop (nat (entry_size s)) (entry_bytes s e @ ?rest) = de_name e @ ?rest"
  proof -
    note f = entry_fields_ok [OF w]
    have "entry_size s < 2 ^ 28" using f(3) by simp
    from pack_ok(2) [OF f(1,2) this f(4), of e] show ?thesis by (simp add: entry_bytes_def)
  qed
  have "length (de_name e) < 2 ^ 31" using nl(1) by (simp add: de_length_def)
  note sd = strndup_ok [OF h e(2) this, of ?rest]
  obtain tr1 where t1: "rec (de_number e) (de_name e) tr = Ok (tr @ tr1)" "tr1 = [] \<or> \<not> is_write (last tr1)"
    "coalesce tr1 = f e"
    using Cons.prems(3) [of e tr] by auto
  obtain tr2 where t2: "traverse_entries rec alloc s (length es) ?rest (tr @ tr1) = Ok ((tr @ tr1) @ tr2)"
    "tr2 = [] \<or> \<not> is_write (last tr2)" "coalesce tr2 = concat (map f es)"
    using Cons.IH [of "tr @ tr1"] Cons.prems by auto
  have un: "unat (to_u32 (de_length e)) = length (de_name e)"
    using nl(3) by (simp add: de_length_def) (metis nat_int nat_uint_eq)
  have "traverse_entries rec alloc s (length (e # es)) (concat (map (entry_bytes s) (e # es))) tr =
      Ok (tr @ tr1 @ tr2)"
    using en d sd t1(1) t2(1) nl(2,3) un by (simp add: Let_def de_length_def)
  moreover have "tr1 @ tr2 = [] \<or> \<not> is_write (last (tr1 @ tr2))" using t1(2) t2(2) by (cases "tr2 = []") auto
  moreover have "coalesce (tr1 @ tr2) = concat (map f (e # es))"
    using coalesce_append [OF t1(2)] t1(3) t2(3) by simp
  ultimately show ?case by blast
qed simp

definition traversable :: "super_block \<Rightarrow> mnode list \<Rightarrow> nat \<Rightarrow> bool" where
  "traversable s nodes fuel \<longleftrightarrow> (\<forall>n \<in> set nodes. nat (n_size n) < fuel \<and> n_block n < uint (sb_blocks s) \<and>
     (n_type n = inode_code directory \<longrightarrow> n_size n < 2 ^ 28))"

lemma shown_owner_no_write [simp]: "\<not> is_write (shown_owner opt n name)"
  by (simp add: shown_owner_def)

text \<open>A directory: made and entered, its entries one after the other, and left again.\<close>

lemma traverse_directory_ok:
  fixes number :: int
  assumes u: "unfs_ok alloc opt s nodes k entry u" and n: "n \<in> set nodes" and f: "traversable s nodes fuel"
    and os: "os_good os" and pl: "n_payload n = Directory_payload p es" and t: "n_type n = inode_code directory"
    and nm: "\<forall>e \<in> set es. 0 \<notin> set (de_name e)"
    and rec: "\<And>e tr. e \<in> set es \<Longrightarrow> \<exists>tr'. rec (de_number e) (de_name e) tr = Ok (tr @ tr') \<and>
      (tr' = [] \<or> \<not> is_write (last tr')) \<and> coalesce tr' = g e"
  defines "v \<equiv> expected_node opt s number n"
  obtains tr2 where "traverse_directory rec alloc fuel os u v name tr =
      Ok (True, tr @ [Mkdir name (file_mode v), Chdir name] @ tr2 @ [Chdir dot_dot])"
    and "tr2 = [] \<or> \<not> is_write (last tr2)" and "coalesce tr2 = concat (map g es)"
proof -
  have h: "heap_ok alloc" "entry_widths_ok s" "node_ok n" "payload_exact s (n_payload n)" "node_placed s k entry n"
    "length entry < 2 ^ 31" "u_super u = s"
    using u n inode_widths_entry by (auto simp: unfs_ok_def unfs_serves_def)
  have po: "length es < 2 ^ 31" "\<forall>e \<in> set es. dentry_ok e"
    using h(3) pl by (auto simp: node_ok_def payload_ok_def)
  have r: "0 \<le> n_size n" "n_size n < 2 ^ 28" "nat (n_size n) < fuel" "nd_size v = n_size n"
    using node_placed_range(1) [OF h(5,6)] f n t by (auto simp: traversable_def v_def expected_node_def)
  have nb: "node_bytes s n = directory_bytes s p es" by (simp add: node_bytes_def pl)
  have dl: "length (directory_bytes s p es) < 2 ^ 28" using h(5) nb r(2) by (simp add: node_placed_def)
  have rd: "unfs_node_read alloc fuel u v node_read_copy (n_size n, []) = Ok (0, (n_size n, directory_bytes s p es))"
    using unfs_node_read_copy_ok [OF u n r(3), of number] nb by (simp add: v_def)
  have px: "payload_exact s (Directory_payload p es)" using h(4) pl by simp
  note hd = dir_header_ok [OF h(2) px dl r(1,2)]
  have ln: "unat (to_u32 (int (length es))) = length es" using po(1) by (simp add: unat_of_nat)
  have dr: "drop (nat (directory_size s)) (directory_bytes s p es) = concat (map (entry_bytes s) es)"
  proof -
    note df = directory_fields_ok [OF h(2)]
    have "directory_size s < 2 ^ 28" using df(3) by simp
    from pack_ok(2) [OF df(1,2) this df(4)] show ?thesis by (simp add: directory_bytes_def)
  qed
  have el: "length (concat (map (entry_bytes s) es)) < 2 ^ 28" using dl by (simp add: directory_bytes_def)
  have es: "\<forall>e \<in> set es. dentry_ok e \<and> 0 \<notin> set (de_name e) \<and> map field_value (entry_fields s e) =
    [to_u32 (de_number e), to_u32 (de_length e), to_u32 (de_type e)]"
    using po(2) nm px by (simp add: payload_exact_def)
  let ?tr = "tr @ [Mkdir name (file_mode v), Chdir name]"
  obtain tr2 where t2: "traverse_entries rec alloc s (length es) (concat (map (entry_bytes s) es)) ?tr = Ok (?tr @ tr2)"
    "tr2 = [] \<or> \<not> is_write (last tr2)" "coalesce tr2 = concat (map g es)"
    using traverse_entries_ok [where es = es and rec = rec and tr = ?tr and f = g, OF h(1,2) rec es el] by blast
  have "traverse_directory rec alloc fuel os u v name tr =
      Ok (True, tr @ [Mkdir name (file_mode v), Chdir name] @ tr2 @ [Chdir dot_dot])"
    using os h(1,7) r rd hd ln dr t2(1) by (simp add: traverse_directory_def)
  with t2(2,3) that show ?thesis by blast
qed

lemma traverse_ok:
  assumes u: "unfs_ok alloc opt s nodes k entry u" and os: "os_good os" and f: "traversable s nodes fuel"
  shows "tree_ok nodes depth number \<Longrightarrow>
    \<exists>tr'. traverse alloc fuel os u depth number name tr = Ok (tr @ tr') \<and> \<not> is_write (last tr') \<and> tr' \<noteq> [] \<and>
      coalesce tr' = tree_calls opt nodes depth number name"
proof (induction depth arbitrary: number name tr)
  case (Suc depth)
  define n where "n = nodes ! nat number"
  define v where "v = expected_node opt s number n"
  have i: "0 \<le> number" "nat number < length nodes" using Suc.prems by auto
  then have n: "n \<in> set nodes" by (simp add: n_def)
  have h: "node_ok n" "node_placed s k entry n" "length entry < 2 ^ 31"
    using u n by (auto simp: unfs_ok_def unfs_serves_def)
  have nf: "unfs_node_fill u number = Ok v"
    using unfs_node_fill_ok [OF u i(2)] i(1) by (simp add: v_def n_def)
  have ff: "nat (n_size n) < fuel" "n_block n < uint (sb_blocks s)" using f n by (auto simp: traversable_def)
  obtain x where bf: "unfs_block_fill u (nd_block v) = Ok x"
    using unfs_block_fill_ok [OF u _ ff(2)] node_placed_range [OF h(2,3)] by (auto simp: v_def expected_node_def)
  have vt: "nd_type v = n_type n" by (simp add: v_def expected_node_def)
  have sh: "file_mode v = shown_mode opt n" "Lchown name (nd_uid v) (nd_gid v) = shown_owner opt n name"
    unfolding v_def by (rule expected_node_shown)+
  have end': ?case if "(if nd_type v = inode_code directory then
              traverse_directory (traverse alloc fuel os u depth) alloc fuel os u v name tr
            else if nd_type v = inode_code regular_file then traverse_file alloc fuel os u v name tr
            else if nd_type v = inode_code symbolic_link then traverse_link alloc fuel os u v name tr
            else Ok (False, tr)) = Ok (True, tr @ tr1)"
    "coalesce (tr1 @ [Chmod name (file_mode v), Lchown name (nd_uid v) (nd_gid v)]) =
       tree_calls opt nodes (Suc depth) number name" for tr1
  proof -
    have "traverse alloc fuel os u (Suc depth) number name tr =
        Ok (tr @ tr1 @ [Chmod name (file_mode v), Lchown name (nd_uid v) (nd_gid v)])"
      using nf bf that(1) by simp
    with that(2) show ?case by (intro exI [of _ "tr1 @ [Chmod name (file_mode v), Lchown name (nd_uid v) (nd_gid v)]"]) (simp del: tree_calls.simps traverse.simps)
  qed
  have "payload_ok n" using h(1) by (simp add: node_ok_def)
  then show ?case
  proof (cases rule: payload_ok_cases)
    case (1 d)
    obtain xs where xs: "traverse_file alloc fuel os u v name tr =
        Ok (True, tr @ [Unlink name, Open name (file_mode v)] @ map Write xs @ [Close])" "concat xs = d" "[] \<notin> set xs"
      using traverse_file_ok [OF u n ff(1) os 1(1), of number name tr] unfolding v_def by blast
    show ?thesis
      by (rule end' [of "[Unlink name, Open name (file_mode v)] @ map Write xs @ [Close]"])
        (use 1 vt sh xs coalesce_writes [of Close xs] in \<open>simp_all add: Let_def flip: n_def\<close>)
  next
    case (3 p)
    show ?thesis
      by (rule end' [of "[Unlink name, Symlink (c_str p) name]"])
        (use 3 vt sh traverse_link_ok [OF u n ff(1) os 3(1), of number name tr, folded v_def] in
          \<open>simp_all add: Let_def flip: n_def\<close>)
  next
    case (2 p es)
    let ?g = "\<lambda>e. tree_calls opt nodes depth (de_number e) (de_name e)"
    have td: "n_type n = inode_code directory" using 2(2) by simp
    have nm: "\<forall>e \<in> set es. 0 \<notin> set (de_name e)" using Suc.prems 2(1) by (simp flip: n_def)
    have rec: "\<exists>tr'. traverse alloc fuel os u depth (de_number e) (de_name e) tr = Ok (tr @ tr') \<and>
        (tr' = [] \<or> \<not> is_write (last tr')) \<and> coalesce tr' = ?g e"
      if "e \<in> set es" for e tr
      using Suc.IH [of "de_number e" "de_name e" tr] Suc.prems 2(1) that by (auto simp flip: n_def)
    obtain tr2 where td: "traverse_directory (traverse alloc fuel os u depth) alloc fuel os u v name tr =
        Ok (True, tr @ [Mkdir name (file_mode v), Chdir name] @ tr2 @ [Chdir dot_dot])"
      "tr2 = [] \<or> \<not> is_write (last tr2)" "coalesce tr2 = concat (map ?g es)"
      using traverse_directory_ok [where rec = "traverse alloc fuel os u depth" and g = ?g and number = number and
        name = name and tr = tr, OF u n f os 2(1) td nm rec] unfolding v_def by blast
    show ?thesis
      by (rule end' [of "[Mkdir name (file_mode v), Chdir name] @ tr2 @ [Chdir dot_dot]"])
        (use 2 vt sh td(1,3) coalesce_append [OF td(2)] in \<open>simp_all add: Let_def flip: n_def\<close>)
  qed
qed simp

end
