(* ===== verification/Mkfs_Properties.thy ===== *)
theory Mkfs_Properties
  imports Mkfs_Correct
begin

text \<open>
  What \<open>output_write\<close> of \<open>src/mkfs/mkfs.c\<close> guarantees as a whole, and a small node table on
  which its properties are exercised.
\<close>

section \<open>A node table with a directory, a file and a link\<close>

definition demo_node :: "int \<Rightarrow> int \<Rightarrow> int \<Rightarrow> payload \<Rightarrow> int \<Rightarrow> mnode" where
  "demo_node number typ time pl nt =
     \<lparr>n_number = number, n_type = typ, n_owner_mode = 7, n_group_mode = 5, n_other_mode = 4,
      n_uid = 1000, n_gid = 100, n_ctime = time, n_mtime = time, n_size = 0, n_block = 0, n_index = 0,
      n_payload = pl, n_ntype = nt, n_path = [0x2E]\<rparr>"

definition demo_nodes :: "mnode list" where
  "demo_nodes =
     [demo_node 0 2 1000 (Directory_payload 0
        [\<lparr>de_number = 1, de_type = 1, de_name = [0x61]\<rparr>, \<lparr>de_number = 2, de_type = 3, de_name = [0x62, 0x63]\<rparr>]) 3,
      demo_node 1 1 1005 (File_payload [1, 2, 3]) 2,
      demo_node 2 3 1001 (Link_payload [0x61, 0]) 4]"

lemmas demo_defs = demo_nodes_def demo_node_def

definition demo_options :: options where
  "demo_options =
     \<lparr>o_block_size = 4096, o_njobs = 2, o_no_group_mode = False, o_no_other_mode = False,
      o_no_uid = False, o_no_gid = False, o_no_ctime = False, o_no_mtime = True, o_no_padding = False\<rparr>"

definition demo_env :: environment where
  "demo_env = \<lparr>e_alloc = (\<lambda>_. True), e_thread = (\<lambda>_. True), e_sched = [1, 0, 1], e_open = True,
     e_write = (\<lambda>_. True), e_stack = super_of_bytes (replicate 152 7)\<rparr>"

lemma demo_system: "system_ok demo_env"
  by (simp add: system_ok_def demo_env_def heap_ok_def)

lemma demo_options: "options_ok demo_options 12"
  by (simp add: options_ok_def demo_options_def MAX_JOBS_def)

lemma demo_table: "table_ok demo_nodes"
  by (simp add: table_ok_def demo_defs node_ok_def payload_ok_def dentry_ok_def u32_range_def
      payload_bound_def de_length_def)

text \<open>The method \<open>none\<close> keeps the contract and never expands what it is given.\<close>

lemma none_shrinks: "length d < 2 ^ 28 \<Longrightarrow> shrinks none_method d"
  by (simp add: shrinks_def compressor_compress_def none_method_def none_compress_def)

lemma none_codec: "codec (compressor_compress none_method) (compressor_uncompress none_method)"
proof -
  have "compressor_compress none_method = none_compress" "compressor_uncompress none_method = none_uncompress"
    by (intro ext; simp add: compressor_compress_def compressor_uncompress_def none_method_def)+
  then show ?thesis by (simp add: none.codec_axioms)
qed

text \<open>Whether a node puts any bytes into the entry data, whatever the widths.\<close>

definition has_contents :: "mnode \<Rightarrow> bool" where
  "has_contents n \<longleftrightarrow> (case n_payload n of
       No_payload \<Rightarrow> False | File_payload d \<Rightarrow> d \<noteq> []
     | Directory_payload p es \<Rightarrow> (\<exists>e \<in> set es. de_name e \<noteq> []) | Link_payload p \<Rightarrow> True)"

lemma has_contents_bytes: "has_contents n \<Longrightarrow> node_bytes s n \<noteq> []"
  by (auto simp: has_contents_def node_bytes_def directory_bytes_def entry_bytes_def split: payload.splits)

lemma demo_contents: "\<exists>n \<in> set demo_nodes. has_contents n"
  by (simp add: demo_defs has_contents_def)

lemma demo_written:
  obtains nodes' img where "output_write demo_env demo_options none_method demo_nodes = Ok (nodes', img)"
  using output_write_total [OF demo_system demo_options demo_table none_codec none_shrinks]
    demo_contents has_contents_bytes by fast

section \<open>What the uninitialised super block and the schedule do to the result\<close>

lemma fill_entries_cong:
  assumes "same_entry_bits s t" and "sb_block_log2 s = sb_block_log2 t"
  shows "fill_entries alloc s = fill_entries alloc t"
proof -
  have f: "entry_fields s = entry_fields t" "entry_size s = entry_size t"
    "directory_fields s = directory_fields t" "directory_size s = directory_size t"
    using assms(1) by (auto simp: fun_eq_iff same_entry_bits_def entry_fields_def entry_size_def
        directory_fields_def directory_size_def)
  have "write_entry alloc s = write_entry alloc t" by (intro ext) (simp add: write_entry_def f)
  then have "write_directory alloc s = write_directory alloc t"
    by (intro ext) (simp add: write_directory_def f)
  then have "write_payload alloc s = write_payload alloc t" by (intro ext) (simp add: write_payload_def split: payload.split)
  moreover have "block_of s = block_of t" "index_of s = index_of t"
    using assms(2) by (simp_all add: fun_eq_iff block_of_def index_of_def)
  ultimately have "write_node alloc s = write_node alloc t" by (intro ext) (simp only: write_node_def)
  then show ?thesis by (intro ext) (simp add: fill_entries_def)
qed

lemma super_1_entry_bits: "same_entry_bits (super_1 opt c nodes x st) (super_1 opt c nodes x st')"
  by (simp add: same_entry_bits_def super_1_def)

text \<open>
  By the third stage every field of the super block has been set but for the place of the
  parts, which the fourth sets.
\<close>

definition unsettled :: "super_block \<Rightarrow> super_block" where
  "unsettled s = s\<lparr>sb_inodes_offset := 0, sb_inodes_size := 0, sb_inodes_csize := 0, sb_blocks_offset := 0,
     sb_blocks_size := 0, sb_entries_offset := 0, sb_entries_size := 0\<rparr>"

lemma super_4_unsettled: "super_4 ib icb bb ecb (unsettled s) = super_4 ib icb bb ecb s"
  by (simp add: super_4_def unsettled_def Let_def)

lemma unsettled_fields:
  assumes "unsettled s = unsettled t"
  shows "block_table_size s = block_table_size t" "block_table_fields s = block_table_fields t"
    "inode_table_size s = inode_table_size t" "inode_fields s = inode_fields t"
    "super_4 ib icb bb ecb s = super_4 ib icb bb ecb t"
proof -
  have f: "sb_kbits s = sb_kbits t" "sb_ibits s = sb_ibits t" "sb_min s = sb_min t" "sb_blocks s = sb_blocks t"
    "sb_inodes s = sb_inodes t"
    using arg_cong [OF assms, of sb_kbits] arg_cong [OF assms, of sb_ibits] arg_cong [OF assms, of sb_min]
      arg_cong [OF assms, of sb_blocks] arg_cong [OF assms, of sb_inodes]
    by (simp_all add: unsettled_def)
  have "block_fields s = block_fields t" using f by (intro ext) (simp add: block_fields_def)
  then show "block_table_fields s = block_table_fields t"
    using f by (intro ext) (simp only: block_table_fields_def)
  show "block_table_size s = block_table_size t"
    "inode_table_size s = inode_table_size t" "inode_fields s = inode_fields t"
    using f by (simp_all add: fun_eq_iff block_table_size_def inode_table_size_def inode_fields_def)
  show "super_4 ib icb bb ecb s = super_4 ib icb bb ecb t"
    using super_4_unsettled [of ib icb bb ecb s] super_4_unsettled [of ib icb bb ecb t] assms by simp
qed

definition same_super :: "super_block res \<Rightarrow> super_block res \<Rightarrow> bool" where
  "same_super a b \<longleftrightarrow> (a = Undef \<and> b = Undef) \<or> (\<exists>s t. a = Ok s \<and> b = Ok t \<and> unsettled s = unsettled t)"

lemma super_3_stack:
  "same_super (super_3 ks (super_2 ns eb (super_1 opt c nodes x st)))
     (super_3 ks (super_2 ns eb (super_1 opt c nodes x st')))"
proof -
  let ?s = "super_2 ns eb (super_1 opt c nodes x st)" and ?t = "super_2 ns eb (super_1 opt c nodes x st')"
  have i: "sb_ibits ?s = sb_ibits ?t"
    by (cases "sb_ibits st"; cases "sb_ibits st'") (simp add: super_1_def super_2_def)
  have "unsettled (?s\<lparr>sb_kbits := kb, sb_min := (sb_min ?s)\<lparr>min_compressed_size := mc\<rparr>\<rparr>) =
      unsettled (?t\<lparr>sb_kbits := kb, sb_min := (sb_min ?t)\<lparr>min_compressed_size := mc\<rparr>\<rparr>)" for kb mc
    using i by (cases st; cases st'; cases "sb_min st"; cases "sb_min st'")
      (simp add: super_1_def super_2_def unsettled_def)
  then show ?thesis by (cases "ks = []") (simp_all add: same_super_def super_3_def Let_def)
qed

lemma scan_maxima_stack:
  assumes "scan_maxima opt c nodes st = Ok s" and "scan_maxima (opt\<lparr>o_njobs := j\<rparr>) c nodes st' = Ok t"
  shows "\<exists>x. s = super_1 opt c nodes x st \<and> t = super_1 opt c nodes x st'"
proof -
  have "maxima_disable (opt\<lparr>o_njobs := j\<rparr>) = maxima_disable opt"
    "super_1 (opt\<lparr>o_njobs := j\<rparr>) = super_1 opt"
    by (simp_all add: fun_eq_iff maxima_disable_def super_1_def)
  with assms show ?thesis by (auto simp: scan_maxima_def)
qed

lemma write_image_cong:
  "write_image (env\<lparr>e_sched := sched, e_stack := stack\<rparr>) (opt\<lparr>o_njobs := j\<rparr>) = write_image env opt"
proof -
  let ?env = "env\<lparr>e_sched := sched, e_stack := stack\<rparr>" and ?opt = "opt\<lparr>o_njobs := j\<rparr>"
  have p: "write_part ?env = write_part env" by (intro ext) (simp add: write_part_def)
  then have "write_buffer ?env = write_buffer env" by (intro ext) (simp only: write_buffer_def)
  moreover have "write_padding ?env ?opt = write_padding env opt"
    by (intro ext) (simp add: write_padding_def p Let_def)
  ultimately show ?thesis by (intro ext) (simp add: write_image_def)
qed

lemma write_tables_cong:
  assumes "same_super (super_3 ks s) (super_3 ks t)"
  shows "write_tables (env\<lparr>e_sched := sched, e_stack := stack\<rparr>) (opt\<lparr>o_njobs := j\<rparr>) c t ns ks ecb =
    write_tables env opt c s ns ks ecb"
proof (cases "super_3 ks s")
  case (Ok a)
  then obtain b where b: "super_3 ks t = Ok b" "unsettled a = unsettled b"
    using assms by (auto simp: same_super_def)
  note u = unsettled_fields [OF b(2)]
  show ?thesis unfolding write_tables_def write_image_cong Ok b(1) by (simp add: u)
qed (use assms in \<open>auto simp: same_super_def write_tables_def\<close>)

text \<open>The blocks do not depend on the schedule and the number of threads.\<close>

lemma compress_blocks_unique:
  assumes s: "block_size_ok s k" "buffer_ok eb" "uint (sb_blocks s) = block_count k (buffer_contents eb)"
    and e: "sb_blocks t = sb_blocks s" "sb_block_size t = sb_block_size s" "e_alloc env' = e_alloc env"
    and r: "compress_blocks env opt c s eb = Ok r" "compress_blocks env' opt' c t eb = Ok r'"
  shows "r = r'"
proof -
  have nb: "new_block t = new_block s" using e by (simp add: fun_eq_iff new_block_def)
  let ?bs = "map (new_block s eb) [0..<unat (sb_blocks s)]" and ?e = "buffer_contents eb"
  have n: "new_blocks (e_alloc env) s eb = Ok ks \<Longrightarrow> ks = ?bs" for ks by (auto simp: new_blocks_def)
  have t: "new_blocks (e_alloc env') t eb = new_blocks (e_alloc env) s eb"
    using e by (simp add: new_blocks_def nb)
  obtain ks1 where k1: "run_jobs c ?e (e_sched env) (unat (o_njobs opt)) ?bs = Ok ks1"
    "store_blocks (e_alloc env) ks1 = Ok r"
    using r(1) by (auto simp: compress_blocks_def dest: n)
  obtain ks2 where k2: "run_jobs c ?e (e_sched env') (unat (o_njobs opt')) ?bs = Ok ks2"
    "store_blocks (e_alloc env) ks2 = Ok r'"
    using r(2) e(3) t by (auto simp: compress_blocks_def dest: n)
  have "ks1 = ks2"
    using run_jobs_unique [OF k1(1) k2(1)] new_blocks_fit [OF s] store_blocks_status [of "e_alloc env" ks1]
      store_blocks_status [of "e_alloc env" ks2] k1(2) k2(2) by (metis surj_pair)
  with k1(2) k2(2) show ?thesis by simp
qed

section \<open>Properties\<close>

text \<open>
  C3. Whatever \<open>output_write\<close> writes is an image of its node table: the file starts with a
  super block that describes it, the tables decode to the nodes in the order of their
  numbers, every node's contents lie where its inode says, every block uncompresses to its
  part of the entry data, and the nodes are the given ones but for their place.  This holds
  for every compression method that keeps the \<open>codec\<close> contract and every schedule.
\<close>

theorem output_write_correct:
  assumes "system_ok env" and "options_ok opt k" and "table_ok nodes"
    and "codec (compressor_compress c) decomp" and "output_write env opt c nodes = Ok (nodes', img)"
  shows "\<exists>s. image_ok decomp opt s nodes' img \<and> mset (map unplaced nodes') = mset (map unplaced nodes) \<and>
    sorted (map n_number nodes') \<and> sb_block_size s = 2 ^ k \<and> sb_compression_type s = compressor_type c"
  using output_write_image [OF assms] by blast

lemma output_write_correct_witness:
  "\<exists>nodes' img s. output_write demo_env demo_options none_method demo_nodes = Ok (nodes', img) \<and>
     image_ok (compressor_uncompress none_method) demo_options s nodes' img \<and> sb_block_size s = 2 ^ 12"
proof -
  obtain nodes' img where w: "output_write demo_env demo_options none_method demo_nodes = Ok (nodes', img)"
    by (rule demo_written)
  from output_write_correct [OF demo_system demo_options demo_table none_codec w] w show ?thesis by blast
qed

text \<open>
  C5. With a method that never makes its input longer, working files, threads and memory,
  and at least one byte of contents to store, \<open>output_write\<close> does write an image.
\<close>

theorem output_write_succeeds:
  assumes "system_ok env" and "options_ok opt k" and "table_ok nodes"
    and "codec (compressor_compress c) decomp" and "\<And>d. length d < 2 ^ 28 \<Longrightarrow> shrinks c d"
    and "\<exists>n \<in> set nodes. has_contents n"
  shows "\<exists>nodes' img. output_write env opt c nodes = Ok (nodes', img)"
  using output_write_total [OF assms(1-5)] assms(6) has_contents_bytes by fast

lemma output_write_succeeds_witness:
  "\<exists>nodes' img. output_write demo_env demo_options none_method demo_nodes = Ok (nodes', img)"
  by (rule output_write_succeeds [OF demo_system demo_options demo_table none_codec none_shrinks demo_contents])

text \<open>
  C4. The image is reproducible: neither the order in which the threads run, nor their
  number, nor what the stack held where the super block is built (which the code does not
  clear) shows in it.
\<close>

theorem output_write_reproducible:
  assumes "system_ok env" and "options_ok opt k" and "table_ok nodes" and "0 < j" and "unat j \<le> MAX_JOBS"
    and "output_write env opt c nodes = Ok r"
    and "output_write (env\<lparr>e_sched := sched, e_stack := stack\<rparr>) (opt\<lparr>o_njobs := j\<rparr>) c nodes = Ok r'"
  shows "r = r'"
proof -
  define env' opt' where "env' = env\<lparr>e_sched := sched, e_stack := stack\<rparr>" and "opt' = opt\<lparr>o_njobs := j\<rparr>"
  have e: "system_ok env'" "options_ok opt' k"
    using assms(1,2,4,5) by (simp_all add: env'_def opt'_def system_ok_def options_ok_def)
  obtain s ns eb where s: "scan_maxima opt c nodes (e_stack env) = Ok s"
    "fill_entries (e_alloc env) s (HASH_SRT nodes_sort_by_type nodes) = Ok (ns, eb)"
    "prepared opt (super_2 ns eb s) k (buffer_contents eb) ns" "buffer_ok eb"
    using output_write_stages [OF assms(1-3), of c] by blast
  obtain t ns' eb' where t: "scan_maxima opt' c nodes (e_stack env') = Ok t"
    "fill_entries (e_alloc env') t (HASH_SRT nodes_sort_by_type nodes) = Ok (ns', eb')"
    using output_write_stages [OF e assms(3), of c] by blast
  obtain x where x: "s = super_1 opt c nodes x (e_stack env)" "t = super_1 opt c nodes x stack"
    using scan_maxima_stack [OF s(1), of j stack t] t(1) by (auto simp: env'_def opt'_def)
  have "fill_entries (e_alloc env') t = fill_entries (e_alloc env) s"
    using fill_entries_cong [of t s "e_alloc env"] super_1_entry_bits
    by (simp add: x env'_def) (simp add: super_1_def)
  then have eq: "ns' = ns" "eb' = eb" using s(2) t(2) by simp_all
  have t2: "sb_blocks (super_2 ns eb t) = sb_blocks (super_2 ns eb s)"
    "sb_block_size (super_2 ns eb t) = sb_block_size (super_2 ns eb s)" "e_alloc env' = e_alloc env"
    by (simp_all add: x super_2_def super_1_def env'_def)
  obtain ks ecb where k: "compress_blocks env opt c (super_2 ns eb s) eb = Ok (ks, ecb)"
    "write_tables env opt c (super_2 ns eb s) ns ks ecb = Ok r"
    using assms(6) s(1,2) by (auto simp: output_write_def Let_def)
  obtain ks' ecb' where k': "compress_blocks env' opt' c (super_2 ns eb t) eb = Ok (ks', ecb')"
    "write_tables env' opt' c (super_2 ns eb t) ns ks' ecb' = Ok r'"
    using assms(7) t eq by (auto simp: output_write_def Let_def env'_def opt'_def)
  have "block_size_ok (super_2 ns eb s) k" "uint (sb_blocks (super_2 ns eb s)) = block_count k (buffer_contents eb)"
    using s(3) by (simp_all add: prepared_def)
  from compress_blocks_unique [OF this(1) s(4) this(2) t2 k(1) k'(1)]
  have "ks' = ks" "ecb' = ecb" by simp_all
  moreover have "same_super (super_3 ks (super_2 ns eb s)) (super_3 ks (super_2 ns eb t))"
    unfolding x by (rule super_3_stack)
  ultimately show ?thesis
    using k(2) k'(2) write_tables_cong [of ks "super_2 ns eb s" "super_2 ns eb t"]
    by (simp add: env'_def opt'_def)
qed

lemma output_write_reproducible_witness:
  "\<exists>r. output_write demo_env demo_options none_method demo_nodes = Ok r \<and>
     output_write (demo_env\<lparr>e_sched := [], e_stack := super_of_bytes (replicate 152 9)\<rparr>)
       (demo_options\<lparr>o_njobs := 5\<rparr>) none_method demo_nodes = Ok r"
proof -
  let ?env = "demo_env\<lparr>e_sched := [], e_stack := super_of_bytes (replicate 152 9)\<rparr>"
    and ?opt = "demo_options\<lparr>o_njobs := 5\<rparr>"
  obtain nodes' img where w: "output_write demo_env demo_options none_method demo_nodes = Ok (nodes', img)"
    by (rule demo_written)
  have "system_ok ?env" "options_ok ?opt 12"
    using demo_system demo_options by (simp_all add: system_ok_def options_ok_def MAX_JOBS_def)
  from output_write_total [OF this demo_table none_codec none_shrinks] demo_contents has_contents_bytes
  obtain r' where w': "output_write ?env ?opt none_method demo_nodes = Ok r'" by fast
  have "0 < (5 :: u32)" "unat (5 :: u32) \<le> MAX_JOBS" by (simp_all add: MAX_JOBS_def)
  from output_write_reproducible [OF demo_system demo_options demo_table this w w'] w w' show ?thesis by simp
qed

text \<open>
  A table without any contents, such as that of one empty file, is not written: with
  no block in the entry data, the code reads the size of the last block from in front of
  the array of blocks.
\<close>

lemma output_write_without_blocks:
  assumes "system_ok env" and "options_ok opt k" and "table_ok nodes"
    and "\<forall>n \<in> set nodes. n_payload n = File_payload []"
  shows "output_write env opt c nodes = Undef"
proof -
  obtain s ns eb where p: "output_write env opt c nodes =
      rbind (compress_blocks env opt c s eb) (\<lambda>(ks, ecb). write_tables env opt c s ns ks ecb)"
    "prepared opt s k (buffer_contents eb) ns" "buffer_ok eb"
    "buffer_contents eb = entry_data s (HASH_SRT nodes_sort_by_type nodes)"
    using output_write_prepared [OF assms(1-3), of c] by blast
  have "set (HASH_SRT nodes_sort_by_type nodes) = set nodes" by (metis mset_HASH_SRT mset_eq_setD)
  then have e: "buffer_contents eb = []"
    using p(4) assms(4) by (simp add: entry_data_def node_bytes_def)
  have s: "block_size_ok s k" "uint (sb_blocks s) = block_count k (buffer_contents eb)"
    using p(2) by (simp_all add: prepared_def)
  have "(2 :: int) ^ k - 1 < 2 ^ k" by simp
  then have b: "sb_blocks s = 0" using s(2) e by (simp add: block_count_def zdiv_eq_0_iff flip: uint_0_iff)
  have h: "heap_ok (e_alloc env)" "\<forall>b. e_thread env b" "0 < o_njobs opt" "unat (o_njobs opt) \<le> MAX_JOBS"
    using assms(1,2) by (simp_all add: system_ok_def options_ok_def)
  have fits: "\<forall>x \<in> set ([] :: block list). bl_status x = 0" "\<forall>x \<in> set []. block_fits (buffer_contents eb) x"
    "all_compress c (buffer_contents eb) []"
    by (simp_all add: all_compress_def)
  have "0 < unat (o_njobs opt)" using h(3) by (simp add: unat_gt_0)
  from run_jobs_total [OF fits this, of "e_sched env"]
  obtain ks where ks: "run_jobs c (buffer_contents eb) (e_sched env) (unat (o_njobs opt)) [] = Ok ks" by blast
  from run_jobs_inv [OF ks fits(1,2)] have "ks = []" by (auto simp: job_inv_def)
  with ks have "compress_blocks env opt c s eb = Ok ([], buffer_init)"
    using new_blocks_ok [OF h(1) s(1) p(3) s(2)] start_jobs_ok [OF h(2,4)] b
    by (simp add: compress_blocks_def store_blocks_def)
  then show ?thesis using p(1) by (simp add: write_tables_def super_3_def)
qed

lemma output_write_without_blocks_witness:
  "output_write demo_env demo_options none_method [demo_node 0 1 7 (File_payload []) 2] = Undef"
  by (rule output_write_without_blocks [OF demo_system demo_options])
    (simp_all add: table_ok_def demo_node_def node_ok_def payload_ok_def u32_range_def payload_bound_def)

text \<open>
  Unless padding is disabled the file is a whole number of 4096 byte pages long, and
  it never ends inside the entry blocks.
\<close>

lemma output_write_padding:
  assumes "system_ok env" and "options_ok opt k" and "table_ok nodes"
    and "codec (compressor_compress c) decomp" and "output_write env opt c nodes = Ok (nodes', img)"
    and "\<not> o_no_padding opt"
  shows "length img mod 4096 = 0 \<and> 4096 \<le> length img"
proof -
  obtain s where s: "image_ok decomp opt s nodes' img" "length img mod 4096 = 0"
    using output_write_image [OF assms(1-5)] assms(6) by metis
  from s(1) obtain rest where "img = super_bytes s @ rest" unfolding image_ok_def layout_ok_def by blast
  then have "152 \<le> length img" by simp
  moreover obtain q where "length img = 4096 * q" using s(2) by (auto dest: mod_0_imp_dvd elim: dvdE)
  ultimately have "length img = 4096 * q" "0 < q" by simp_all
  then show ?thesis by simp
qed

lemma output_write_padding_witness:
  "\<exists>nodes' img. output_write demo_env demo_options none_method demo_nodes = Ok (nodes', img) \<and>
     length img mod 4096 = 0 \<and> 4096 \<le> length img"
proof -
  obtain nodes' img where w: "output_write demo_env demo_options none_method demo_nodes = Ok (nodes', img)"
    by (rule demo_written)
  have "\<not> o_no_padding demo_options" by (simp add: demo_options_def)
  from output_write_padding [OF demo_system demo_options demo_table none_codec w this] w show ?thesis by auto
qed

end
