(* ===== verification/Unfs_Properties.thy ===== *)
theory Unfs_Properties
  imports Unfs_Traverse Mkfs_Properties
begin

text \<open>
  What \<open>unfs.smashfs\<close> makes of an image that \<open>mkfs.smashfs\<close> has written: the round trip
  through both programs, and what the extractor gets of one node.
\<close>

section \<open>The nodes of the image are the nodes of the table\<close>

lemma unplaced_fields:
  assumes "unplaced m = unplaced n"
  shows "n_number m = n_number n" "n_payload m = n_payload n" "n_type m = n_type n"
    "n_owner_mode m = n_owner_mode n" "n_group_mode m = n_group_mode n" "n_other_mode m = n_other_mode n"
    "n_uid m = n_uid n" "n_gid m = n_gid n" "n_ctime m = n_ctime n" "n_mtime m = n_mtime n"
  using assms by (cases m; cases n; simp add: unplaced_def)+

text \<open>A table that is numbered in order stays in that order.\<close>

definition numbered :: "mnode list \<Rightarrow> bool" where
  "numbered nodes \<longleftrightarrow> map n_number nodes = map int [0..<length nodes]"

lemma numbered_same:
  assumes "numbered nodes" and "mset (map unplaced nodes') = mset (map unplaced nodes)"
    and "sorted (map n_number nodes')"
  shows "map unplaced nodes' = map unplaced nodes"
proof -
  have num: "map n_number (map unplaced xs) = map n_number xs" for xs by (simp add: unplaced_def)
  have n: "sorted (map n_number nodes)" "distinct (map n_number nodes)"
    using assms(1) by (simp_all add: numbered_def distinct_map sorted_iff_nth_mono)
  have "mset (map n_number (map unplaced nodes')) = mset (map n_number (map unplaced nodes))"
    using assms(2) by (metis mset_map)
  then have m: "mset (map n_number nodes') = mset (map n_number nodes)" by (simp only: num)
  have d: "distinct (map n_number nodes')" using n(2) m by (metis mset_eq_imp_distinct_iff)
  have s: "set (map unplaced nodes') = set (map unplaced nodes)" using assms(2) by (rule mset_eq_setD)
  have i: "inj_on n_number (set (map unplaced nodes') \<union> set (map unplaced nodes))"
    unfolding s Un_absorb using n(2) by (metis distinct_map num)
  from map_sorted_distinct_set_unique [OF i] show ?thesis
    unfolding num using assms(3) d n s by blast
qed

lemma nth_unplaced:
  assumes "map unplaced nodes' = map unplaced nodes" and "i < length nodes"
  shows "unplaced (nodes' ! i) = unplaced (nodes ! i)"
proof -
  have "length nodes' = length nodes" using assms(1) by (metis length_map)
  then show ?thesis using assms by (metis nth_map)
qed

lemma member_unplaced:
  assumes "map unplaced nodes' = map unplaced nodes" and "m \<in> set nodes'"
  obtains n where "n \<in> set nodes" "unplaced m = unplaced n"
proof -
  have "unplaced m \<in> set (map unplaced nodes)" using assms by (metis image_eqI list.set_map)
  with that show thesis by auto
qed

lemma tree_unplaced:
  assumes "map unplaced nodes' = map unplaced nodes"
  shows "tree_ok nodes depth number \<Longrightarrow>
    tree_ok nodes' depth number \<and> tree_calls opt nodes' depth number name = tree_calls opt nodes depth number name"
proof (induction depth arbitrary: number name)
  case (Suc depth)
  let ?m = "nodes' ! nat number" and ?n = "nodes ! nat number"
  have l: "length nodes' = length nodes" using assms by (metis length_map)
  have "nat number < length nodes" using Suc.prems by auto
  note u = unplaced_fields [OF nth_unplaced [OF assms this]]
  have sh: "shown_mode opt ?m = shown_mode opt ?n" "shown_owner opt ?m name = shown_owner opt ?n name"
    by (simp_all add: shown_mode_def shown_owner_def u)
  show ?case
  proof (cases "n_payload ?n")
    case (Directory_payload p es)
    then have "\<forall>e \<in> set es. tree_ok nodes' depth (de_number e) \<and>
        tree_calls opt nodes' depth (de_number e) (de_name e) = tree_calls opt nodes depth (de_number e) (de_name e)"
      using Suc.IH Suc.prems by auto
    moreover from this have "map (\<lambda>e. tree_calls opt nodes' depth (de_number e) (de_name e)) es =
        map (\<lambda>e. tree_calls opt nodes depth (de_number e) (de_name e)) es"
      by simp
    ultimately show ?thesis using Suc.prems Directory_payload l u(2) sh by (simp add: Let_def del: map_eq_conv)
  qed (use Suc.prems l u(2) sh in \<open>simp_all add: Let_def\<close>)
qed simp

section \<open>An image of mkfs is loaded\<close>

lemma written_traversable:
  assumes i: "image_ok decomp opt s nodes' img" and b: "\<forall>n \<in> set nodes'. n_block n < uint (sb_blocks s)"
    and same: "map unplaced nodes' = map unplaced nodes"
    and f: "\<forall>n \<in> set nodes. payload_bound (n_payload n) < fuel"
    and d: "\<forall>n \<in> set nodes. n_type n = inode_code directory \<longrightarrow> payload_bound (n_payload n) < 2 ^ 28"
  shows "traversable s nodes' fuel"
  unfolding traversable_def
proof (intro ballI conjI impI)
  fix m assume m: "m \<in> set nodes'"
  obtain icb k entry where w: "inode_table_ok decomp s nodes' icb" "node_ok m" "node_placed s k entry m"
    using i m unfolding image_ok_def by blast
  have e: "entry_widths_ok s" using w(1) inode_widths_entry by (simp add: inode_table_ok_def)
  have "payload_ok m" using w(2) by (simp add: node_ok_def)
  from node_bytes_bound [OF this e] w(3) have sz: "nat (n_size m) \<le> payload_bound (n_payload m)"
    by (simp add: node_placed_def)
  obtain n where n: "n \<in> set nodes" "unplaced m = unplaced n" using same m by (rule member_unplaced)
  note u = unplaced_fields(2,3) [OF n(2)]
  show "nat (n_size m) < fuel" using sz f n(1) u by fastforce
  show "n_block m < uint (sb_blocks s)" using b m by blast
  assume "n_type m = inode_code directory"
  then have "payload_bound (n_payload m) < 2 ^ 28" using d n(1) u by fastforce
  then have "nat (n_size m) < 268435456" using sz by simp
  then show "n_size m < 2 ^ 28" by simp
qed

text \<open>What \<open>output_write\<close> and then \<open>unfs\<close>'s \<open>main\<close> do, up to the traversal.\<close>

lemma written_loaded:
  assumes "system_ok env" and "options_ok opt k" and "table_ok nodes" and "numbered nodes"
    and "codec (compressor_compress c) (compressor_uncompress c)"
    and "compressor_create_type cs (compressor_type c) = Some c"
    and "output_write env opt c nodes = Ok (nodes', img)" and "reader_ok renv img"
  shows "\<exists>s u k' entry. image_ok (compressor_uncompress c) opt s nodes' img \<and> unfs_load renv cs img = Ok u \<and>
    unfs_ok (r_alloc renv) opt s nodes' k' entry u \<and> map unplaced nodes' = map unplaced nodes \<and>
    (ends_inside nodes \<longrightarrow> (\<forall>n \<in> set nodes'. n_block n < uint (sb_blocks s))) \<and>
    uint (min_ctime (sb_min s)) = n_ctime (hd nodes) \<and> uint (min_mtime (sb_min s)) = n_mtime (hd nodes)"
proof -
  obtain s where s: "image_ok (compressor_uncompress c) opt s nodes' img" "sb_compression_type s = compressor_type c"
    "mset (map unplaced nodes') = mset (map unplaced nodes)" "sorted (map n_number nodes')"
    "length img < 2 ^ 32" "ends_inside nodes \<longrightarrow> (\<forall>n \<in> set nodes'. n_block n < uint (sb_blocks s))"
    "uint (min_ctime (sb_min s)) = n_ctime (hd nodes)" "uint (min_mtime (sb_min s)) = n_mtime (hd nodes)"
    using output_write_image [OF assms(1-3,5,7)] by metis
  have "compressor_create_type cs (sb_compression_type s) = Some c" using assms(6) s(2) by simp
  from unfs_load_ok [OF assms(8) s(1,5) this] numbered_same [OF assms(4) s(3,4)] s(1,6-8)
  show ?thesis by blast
qed

section \<open>Properties\<close>

lemma written_extracted:
  assumes "system_ok env" and "options_ok opt k" and "table_ok nodes" and "numbered nodes"
    and "codec (compressor_compress c) (compressor_uncompress c)"
    and "compressor_create_type cs (compressor_type c) = Some c"
    and "output_write env opt c nodes = Ok (nodes', img)" and "reader_ok renv img" and "os_good os" and "tree_ok nodes depth 0" and "ends_inside nodes"
    and "\<forall>n \<in> set nodes. payload_bound (n_payload n) < fuel"
    and "\<forall>n \<in> set nodes. n_type n = inode_code directory \<longrightarrow> payload_bound (n_payload n) < 2 ^ 28"
  shows "\<exists>tr. unfs_run renv cs os fuel depth img out cwd = Ok ([Mkdir out 511, Chdir out] @ tr @ [Chdir cwd]) \<and>
    coalesce tr = tree_calls opt nodes depth 0 dot_slash"
proof -
  obtain s u k' entry where u: "image_ok (compressor_uncompress c) opt s nodes' img" "unfs_load renv cs img = Ok u"
    "unfs_ok (r_alloc renv) opt s nodes' k' entry u" "map unplaced nodes' = map unplaced nodes"
    "\<forall>n \<in> set nodes'. n_block n < uint (sb_blocks s)"
    using written_loaded [OF assms(1-8)] assms(11) by blast
  have t: "traversable s nodes' fuel" by (rule written_traversable [OF u(1,5,4) assms(12,13)])
  note tree = tree_unplaced [OF u(4) assms(10)]
  obtain tr where tr: "traverse (r_alloc renv) fuel os u depth 0 dot_slash [Mkdir out 511, Chdir out] =
      Ok ([Mkdir out 511, Chdir out] @ tr)" "coalesce tr = tree_calls opt nodes' depth 0 dot_slash"
    using traverse_ok [OF u(3) assms(9) t] tree by blast
  have "sb_root (u_super u) = 0" "heap_ok (r_alloc renv)" using u(3) assms(8) by (auto simp: unfs_ok_def reader_ok_def)
  then have "unfs_run renv cs os fuel depth img out cwd = Ok ([Mkdir out 511, Chdir out] @ tr @ [Chdir cwd])"
    using u(2) tr(1) assms(9) by (simp add: unfs_run_def)
  with tr(2) tree show ?thesis by auto
qed

text \<open>A reader of the file \<open>img\<close> that gets at most 700 bytes at a time, and a system that obeys.\<close>

definition demo_reader :: "memory \<Rightarrow> reader_env" where
  "demo_reader img = \<lparr>r_alloc = (\<lambda>_. True), r_open = True, r_seek = (\<lambda>_. True),
     r_read = (\<lambda>at n. min (min n 700) (int (length img) - at))\<rparr>"

definition demo_os :: os where
  "demo_os = \<lparr>os_rc = (\<lambda>tr. case last tr of Write x \<Rightarrow> int (length x) | _ \<Rightarrow> 0), os_eexist = (\<lambda>_. False)\<rparr>"

lemma demo_reader: "reader_ok (demo_reader img) img"
  by (auto simp: reader_ok_def demo_reader_def heap_ok_def sizeof_super_def min_le_iff_disj)

lemma demo_os: "os_good demo_os"
  by (simp add: os_good_def demo_os_def split: syscall.split)

lemma demo_tree:
  "numbered demo_nodes" "tree_ok demo_nodes 2 0" "ends_inside demo_nodes"
  "\<forall>n \<in> set demo_nodes. payload_bound (n_payload n) < 100"
proof -
  show "tree_ok demo_nodes 2 0" by code_simp
qed (simp_all add: numbered_def demo_defs ends_inside_def ntype_ok_def payload_bound_def)

lemma demo_create: "compressor_create_type [none_method] (compressor_type none_method) = Some none_method"
  by (simp add: compressor_type_def)

text \<open>What the theorems about written images ask of the environment, the table and the method.\<close>

lemmas demo_run = demo_system demo_options demo_table demo_tree(1) none_codec demo_create

lemma demo_calls: "tree_calls demo_options demo_nodes 2 0 dot_slash =
       [Mkdir dot_slash 489, Chdir dot_slash,
        Unlink [0x61], Open [0x61] 489, Write [1, 2, 3], Close, Chmod [0x61] 489, Lchown [0x61] 1000 100,
        Unlink [0x62, 0x63], Symlink [0x61] [0x62, 0x63], Chmod [0x62, 0x63] 489, Lchown [0x62, 0x63] 1000 100,
        Chdir dot_dot, Chmod dot_slash 489, Lchown dot_slash 1000 100]"
  by code_simp

text \<open>
  C6. What \<open>mkfs.smashfs\<close> writes \<open>unfs.smashfs\<close> extracts: for a node table that is a tree with
  proper names and a method that keeps the \<open>codec\<close> contract, the extractor run on the image
  makes exactly the system calls that recreate the tree, every file with its contents, every
  link with its target, every mode and owner; only how the contents of a file are cut into
  \<open>write\<close> calls is left open.
\<close>

theorem unfs_inverts_mkfs:
  assumes "system_ok env" and "options_ok opt k" and "table_ok nodes" and "numbered nodes"
    and "codec (compressor_compress c) (compressor_uncompress c)"
    and "compressor_create_type cs (compressor_type c) = Some c"
    and "output_write env opt c nodes = Ok (nodes', img)" and "reader_ok renv img" and "os_good os" and "tree_ok nodes depth 0" and "ends_inside nodes"
    and "\<forall>n \<in> set nodes. payload_bound (n_payload n) < fuel"
    and "\<forall>n \<in> set nodes. n_type n = inode_code directory \<longrightarrow> payload_bound (n_payload n) < 2 ^ 28"
  shows "\<exists>tr. unfs_run renv cs os fuel depth img out cwd = Ok ([Mkdir out 511, Chdir out] @ tr @ [Chdir cwd]) \<and>
    coalesce tr = tree_calls opt nodes depth 0 dot_slash"
  by (rule written_extracted [OF assms])

lemma unfs_inverts_mkfs_witness:
  "\<exists>nodes' img tr. output_write demo_env demo_options none_method demo_nodes = Ok (nodes', img) \<and>
     unfs_run (demo_reader img) [none_method] demo_os 100 2 img [0x6F] [0x2F] =
       Ok ([Mkdir [0x6F] 511, Chdir [0x6F]] @ tr @ [Chdir [0x2F]]) \<and>
     coalesce tr =
       [Mkdir dot_slash 489, Chdir dot_slash,
        Unlink [0x61], Open [0x61] 489, Write [1, 2, 3], Close, Chmod [0x61] 489, Lchown [0x61] 1000 100,
        Unlink [0x62, 0x63], Symlink [0x61] [0x62, 0x63], Chmod [0x62, 0x63] 489, Lchown [0x62, 0x63] 1000 100,
        Chdir dot_dot, Chmod dot_slash 489, Lchown dot_slash 1000 100]"
proof -
  obtain nodes' img where w: "output_write demo_env demo_options none_method demo_nodes = Ok (nodes', img)"
    by (rule demo_written)
  have "\<forall>n \<in> set demo_nodes. n_type n = inode_code directory \<longrightarrow> payload_bound (n_payload n) < 2 ^ 28"
    using demo_tree(4) by auto
  from unfs_inverts_mkfs [where out = "[0x6F]" and cwd = "[0x2F]", OF demo_system demo_options demo_table
      demo_tree(1) none_codec demo_create w demo_reader demo_os demo_tree(2-4) this] w
  obtain tr where "unfs_run (demo_reader img) [none_method] demo_os 100 2 img [0x6F] [0x2F] =
       Ok ([Mkdir [0x6F] 511, Chdir [0x6F]] @ tr @ [Chdir [0x2F]])"
    "coalesce tr = tree_calls demo_options demo_nodes 2 0 dot_slash"
    by blast
  with w show ?thesis unfolding demo_calls by blast
qed



text \<open>The path of the current directory, innermost name first, after the calls of a trace.\<close>

fun enter :: "memory list \<Rightarrow> syscall \<Rightarrow> memory list" where
  "enter p (Chdir d) = (if d = dot_slash then p else if d = dot_dot then tl p else d # p)"
| "enter p c = p"

definition cwd_after :: "memory list \<Rightarrow> trace \<Rightarrow> memory list" where
  "cwd_after = foldl enter"

lemma cwd_after_simps [simp]:
  "cwd_after p [] = p"
  "cwd_after p (c # cs) = cwd_after (enter p c) cs"
  "cwd_after p (cs @ ds) = cwd_after (cwd_after p cs) ds"
  by (simp_all add: cwd_after_def)

definition plain_names :: "mnode list \<Rightarrow> bool" where
  "plain_names nodes \<longleftrightarrow> (\<forall>n \<in> set nodes. \<forall>e \<in> set (case n_payload n of Directory_payload p es \<Rightarrow> es | _ \<Rightarrow> []).
     0x2F \<notin> set (de_name e) \<and> de_name e \<noteq> [0x2E] \<and> de_name e \<noteq> dot_dot)"

lemma plain_namesD:
  assumes "plain_names nodes" and "n \<in> set nodes" and "n_payload n = Directory_payload p es" and "e \<in> set es"
  shows "de_name e \<noteq> dot_slash" "de_name e \<noteq> dot_dot"
proof -
  have "0x2F \<notin> set (de_name e) \<and> de_name e \<noteq> dot_dot"
    using assms(1) [unfolded plain_names_def, rule_format, OF assms(2), of e] assms(3,4) by simp
  then show "de_name e \<noteq> dot_slash" "de_name e \<noteq> dot_dot" by (auto simp: dot_slash_def)
qed

lemma cwd_after_stays:
  assumes "\<And>x p. x \<in> set xs \<Longrightarrow> cwd_after p x = p"
  shows "cwd_after p (concat xs) = p"
  using assms by (induction xs) auto

lemma cwd_after_tree:
  assumes "plain_names nodes"
  shows "tree_ok nodes depth number \<Longrightarrow> name \<noteq> dot_slash \<Longrightarrow> name \<noteq> dot_dot \<Longrightarrow>
    cwd_after p (tree_calls opt nodes depth number name) = p"
proof (induction depth arbitrary: number name p)
  case (Suc depth)
  have m: "nodes ! nat number \<in> set nodes" using Suc.prems by auto
  show ?case
  proof (cases "n_payload (nodes ! nat number)")
    case (Directory_payload q es)
    have "cwd_after p x = p"
      if x: "x \<in> set (map (\<lambda>e. tree_calls opt nodes depth (de_number e) (de_name e)) es)" for x p
    proof -
      obtain e where e: "e \<in> set es" "x = tree_calls opt nodes depth (de_number e) (de_name e)"
        using x by auto
      have "de_name e \<noteq> dot_slash \<and> de_name e \<noteq> dot_dot"
        using plain_namesD [OF assms m Directory_payload e(1)] by blast
      moreover have "tree_ok nodes depth (de_number e)" using Suc.prems(1) e(1) Directory_payload by simp
      ultimately show ?thesis using Suc.IH e(2) by blast
    qed
    then have "cwd_after p (concat (map (\<lambda>e. tree_calls opt nodes depth (de_number e) (de_name e)) es)) = p" for p
      by (rule cwd_after_stays)
    then show ?thesis
      using Directory_payload Suc.prems(2,3) by (simp add: Let_def shown_owner_def dot_slash_def dot_dot_def)
  qed (use Suc.prems in \<open>simp_all add: Let_def shown_owner_def\<close>)
qed simp





end
