(* ===== verification/Kernel_Properties.thy ===== *)
theory Kernel_Properties
  imports Kernel_Lookup Kernel_Mount Unfs_Properties
begin

text \<open>
  What the kernel module makes of an image that \<open>mkfs.smashfs\<close> has written: mounting it,
  walking its directories and reading its files; and where the module does not do what it
  means to.
\<close>

section \<open>An image of mkfs is mounted\<close>

text \<open>
  The table fits the module: offsets are \<open>int\<close>s, and the inode table is read into a buffer of
  one block.
\<close>

definition fits_module :: "nat \<Rightarrow> mnode list \<Rightarrow> bool" where
  "fits_module k nodes \<longleftrightarrow> 44 * int (length nodes) \<le> 2 ^ k \<and> image_bound nodes < 2 ^ 31 - 2 ^ 17"

lemma written_mounted:
  assumes "system_ok env" and "options_ok opt k" and "table_ok nodes" and "numbered nodes" and "fits_module k nodes"
    and "codec (compressor_compress c) decomp" and "output_write env opt c nodes = Ok (nodes', img)"
    and "mount_ok kenv img" and "kernel_finds kenv kern0 (compressor_type c) decomp"
  shows "\<exists>s kern mnt kk entry. smashfs_fill_super kenv kern0 = Ok (kern, Some mnt) \<and>
    kernel_ok kenv opt s nodes' kk entry (kern, m_info mnt) \<and> map unplaced nodes' = map unplaced nodes \<and>
    m_root mnt = mounted_inode opt (m_info mnt) (the (ke_new_inode kenv)) 0 (nodes' ! 0) \<and>
    m_icache mnt = (\<lambda>_. None)(the (ke_new_inode kenv) := Some (m_root mnt)) \<and> k_cache kern = Cache (2 ^ k) \<and>
    uint (min_ctime (sb_min s)) = n_ctime (hd nodes) \<and> uint (min_mtime (sb_min s)) = n_mtime (hd nodes)"
proof -
  obtain s where s: "image_ok decomp opt s nodes' img" "mset (map unplaced nodes') = mset (map unplaced nodes)"
    "sorted (map n_number nodes')" "uint (min_ctime (sb_min s)) = n_ctime (hd nodes)"
    "uint (min_mtime (sb_min s)) = n_mtime (hd nodes)" "uint (sb_inodes_csize s) \<le> 44 * int (length nodes)"
    "int (length img) \<le> image_bound nodes" "sb_block_size s = 2 ^ k" "sb_compression_type s = compressor_type c"
    using output_write_image [OF assms(1-3,6,7)] by metis
  note same = numbered_same [OF assms(4) s(2,3)]
  have "nodes \<noteq> []" using assms(3) by (simp add: table_ok_def)
  then have ne: "nodes' \<noteq> []" using same by auto
  have "block_size_ok (s\<lparr>sb_block_log2 := of_nat k\<rparr>) k"
    using assms(2) s(8) by (simp add: block_size_ok_def options_ok_def)
  from block_size_okD(2) [OF this] have b: "uint (sb_block_size s) = 2 ^ k" by simp
  then have m: "int (length img) < 2 ^ 31 - 2 ^ 17" "uint (sb_inodes_csize s) \<le> uint (sb_block_size s)"
    using assms(5) s(6,7) by (simp_all add: fits_module_def)
  have "kernel_finds kenv kern0 (sb_compression_type s) decomp" using assms(9) s(9) by simp
  from smashfs_fill_super_ok [OF s(1) assms(8) this m ne, unfolded b] same s(4,5) show ?thesis by blast
qed

section \<open>Walking\<close>

text \<open>The directories of a table that the module can read and search.\<close>

definition directories_ok :: "nat \<Rightarrow> mnode list \<Rightarrow> bool" where
  "directories_ok fuel nodes \<longleftrightarrow> (\<forall>n \<in> set nodes. case n_payload n of
     Directory_payload p es \<Rightarrow> payload_bound (n_payload n) < 2 ^ 28 \<and> payload_bound (n_payload n) < fuel \<and>
       sorted (map (\<lambda>e. hd (de_name e)) es) \<and> (\<forall>e \<in> set es. de_name e \<noteq> [] \<and> de_number e < int (length nodes))
   | _ \<Rightarrow> True)"

lemma directory_mounted:
  assumes w: "kernel_ok kenv opt s nodes' kk entry st" and same: "map unplaced nodes' = map unplaced nodes"
    and d: "directories_ok fuel nodes" and i: "i < length nodes" and pl: "n_payload (nodes ! i) = Directory_payload p es"
  shows "i < length nodes'" "n_payload (nodes' ! i) = Directory_payload p es" "readable fuel (nodes' ! i)"
    "entries_good s es" "sorted (map (\<lambda>e. hd (de_name e)) es)"
    "\<forall>e \<in> set es. 0 \<le> de_number e \<and> de_number e < int (length nodes)" "u32_range p"
proof -
  show l: "i < length nodes'" using same i by (metis length_map)
  note u = unplaced_fields [OF nth_unplaced [OF same i]]
  show pl': "n_payload (nodes' ! i) = Directory_payload p es" using u(2) pl by simp
  have m: "nodes' ! i \<in> set nodes'" "nodes ! i \<in> set nodes" using l i by simp_all
  have g: "node_ok (nodes' ! i)" "node_placed s kk entry (nodes' ! i)" "payload_exact s (n_payload (nodes' ! i))"
    "entry_widths_ok s"
    using w m(1) inode_widths_entry by (auto simp: kernel_ok_def Let_def)
  have po: "payload_ok (nodes' ! i)" using g(1) by (simp add: node_ok_def)
  have b: "payload_bound (n_payload (nodes ! i)) < 2 ^ 28" "payload_bound (n_payload (nodes ! i)) < fuel"
    "sorted (map (\<lambda>e. hd (de_name e)) es)" "\<forall>e \<in> set es. de_name e \<noteq> [] \<and> de_number e < int (length nodes)"
    using d m(2) pl by (auto simp: directories_ok_def)
  have "nat (n_size (nodes' ! i)) \<le> payload_bound (n_payload (nodes ! i))"
    using node_bytes_bound [OF po g(4)] g(2) by (simp add: node_placed_def u(2))
  then have "nat (n_size (nodes' ! i)) < 2 ^ 28" "nat (n_size (nodes' ! i)) < fuel" using b(1,2) by linarith+
  then show "readable fuel (nodes' ! i)" by (simp add: readable_def)
  show "entries_good s es" using po pl' g(3) b(4) by (auto simp: entries_good_def payload_ok_def payload_exact_def)
  show "sorted (map (\<lambda>e. hd (de_name e)) es)" by (rule b(3))
  show "\<forall>e \<in> set es. 0 \<le> de_number e \<and> de_number e < int (length nodes)" "u32_range p"
    using po pl' b(4) by (auto simp: payload_ok_def dentry_ok_def u32_range_def)
qed

text \<open>Opening a path from the root, one \<open>lookup\<close> for each name, and the node it means.\<close>

fun walk :: "kernel_env \<Rightarrow> nat \<Rightarrow> kernel \<times> super_info \<Rightarrow> icache \<Rightarrow> inode \<Rightarrow> memory list \<Rightarrow> (inode \<times> icache) res" where
  "walk env fuel st ic inode [] = Ok (inode, ic)"
| "walk env fuel st ic inode (name # names) =
     rbind (smashfs_lookup env fuel st ic inode name) (\<lambda>(inode, ic). walk env fuel st ic inode names)"

fun tree_path :: "mnode list \<Rightarrow> nat \<Rightarrow> memory list \<Rightarrow> nat option" where
  "tree_path nodes i [] = Some i"
| "tree_path nodes i (name # names) =
     (case n_payload (nodes ! i) of
        Directory_payload p es \<Rightarrow>
          (case find (\<lambda>e. de_name e = name) es of
             Some e \<Rightarrow> tree_path nodes (nat (de_number e)) names
           | None \<Rightarrow> None)
      | _ \<Rightarrow> None)"

text \<open>The root may be hashed under a number that belongs to no node but itself.\<close>

definition root_number_ok :: "kernel_env \<Rightarrow> mnode list \<Rightarrow> bool" where
  "root_number_ok env nodes \<longleftrightarrow> (case ke_new_inode env of
     None \<Rightarrow> False | Some ino \<Rightarrow> ino \<le> 0 \<or> int (length nodes) \<le> ino)"

lemma mounted_inode_node:
  "i_node (mounted_inode opt si ino number n) = mounted_node opt (si_super si) number n"
  "i_size (mounted_inode opt si ino number n) = n_size n"
  "i_ino (mounted_inode opt si ino number n) = ino"
  by (simp_all add: mounted_inode_def Let_def)

lemma walk_ok:
  assumes w: "kernel_ok kenv opt s nodes' kk entry (kern, si)" and same: "map unplaced nodes' = map unplaced nodes"
    and d: "directories_ok fuel nodes" and e: "ke_iget kenv"
  shows "i < length nodes \<Longrightarrow> icache_ok opt si nodes' ic \<Longrightarrow> tree_path nodes i names = Some j \<Longrightarrow> [] \<notin> set names \<Longrightarrow>
    \<exists>ino' ic'. walk kenv fuel (kern, si) ic (mounted_inode opt si ino (int i) (nodes' ! i)) names =
        Ok (mounted_inode opt si ino' (int j) (nodes' ! j), ic') \<and> icache_ok opt si nodes' ic' \<and> j < length nodes"
proof (induction names arbitrary: i ino ic)
  case (Cons name names)
  have "\<exists>p es x. n_payload (nodes ! i) = Directory_payload p es \<and> find (\<lambda>e. de_name e = name) es = Some x"
    using Cons.prems(3) by (auto split: payload.splits option.splits)
  then obtain p es x where pl: "n_payload (nodes ! i) = Directory_payload p es" "find (\<lambda>e. de_name e = name) es = Some x"
    by blast
  note dm = directory_mounted [OF w same d Cons.prems(1) pl(1)]
  have "x \<in> set es" using pl(2) by (auto simp: find_Some_iff)
  then have x: "0 \<le> de_number x" "nat (de_number x) < length nodes" using dm(6) by auto
  then have x': "int (nat (de_number x)) = de_number x" "nat (de_number x) < length nodes'"
    using same by (simp, metis length_map)
  let ?dir = "mounted_inode opt si ino (int i) (nodes' ! i)"
  have n: "name \<noteq> []" using Cons.prems(4) by auto
  have "smashfs_lookup kenv fuel (kern, si) ic ?dir name = smashfs_get_inode kenv si ic (de_number x)"
    using smashfs_lookup_ok [OF w dm(1-5) n, of ?dir ic] pl(2) by (simp add: mounted_inode_node)
  moreover obtain ic1 where "smashfs_get_inode kenv si ic (de_number x) =
      Ok (mounted_inode opt si (de_number x) (de_number x) (nodes' ! nat (de_number x)), ic1)" "icache_ok opt si nodes' ic1"
    using smashfs_get_inode_ok [OF w e Cons.prems(2) x'(2)] x'(1) by auto
  moreover have "tree_path nodes (nat (de_number x)) names = Some j" "[] \<notin> set names"
    using Cons.prems(3,4) pl by simp_all
  ultimately show ?case
    using Cons.IH [of "nat (de_number x)" ic1 "de_number x"] x(2) x'(1) by auto
qed auto

lemma root_icache_ok:
  assumes "root_number_ok kenv nodes" and "length nodes' = length nodes" and "nodes \<noteq> []"
  shows "icache_ok opt si nodes'
    ((\<lambda>_. None)(the (ke_new_inode kenv) := Some (mounted_inode opt si (the (ke_new_inode kenv)) 0 (nodes' ! 0))))"
  using assms by (auto simp: icache_ok_def root_number_ok_def split: option.splits if_splits)

section \<open>Listing in calls\<close>

text \<open>A caller that reads a directory in calls of \<open>ms\<close> items each, from position \<open>pos\<close> on.\<close>

fun readdir_calls ::
  "kernel_env \<Rightarrow> nat \<Rightarrow> kernel \<times> super_info \<Rightarrow> inode \<Rightarrow> nat list \<Rightarrow> int \<Rightarrow> kdirent list res" where
  "readdir_calls env fuel st dir [] pos = Ok []"
| "readdir_calls env fuel st dir (m # ms) pos =
     rbind (smashfs_readdir env fuel st dir (budget m) pos) (\<lambda>(rc, pos, out).
     rbind (readdir_calls env fuel st dir ms pos) (\<lambda>out'. Ok (out @ out')))"

lemma readdir_calls_ok:
  assumes w: "kernel_ok env opt s nodes k entry st" and i: "i < length nodes"
    and pl: "n_payload (nodes ! i) = Directory_payload p es" and r: "readable fuel (nodes ! i)"
    and g: "entries_good s es"
    and v: "nd_index (i_node dir) = n_index (nodes ! i)" "nd_block (i_node dir) = n_block (nodes ! i)"
      "nd_size (i_node dir) = n_size (nodes ! i)"
  shows "j \<le> length es + 2 \<Longrightarrow>
    readdir_calls env fuel st dir ms (list_pos s es j) = Ok (take (sum_list ms) (drop j (listing (i_ino dir) p es)))"
proof (induction ms arbitrary: j)
  case (Cons m ms)
  let ?L = "listing (i_ino dir) p es" and ?j = "min (j + m) (length es + 2)"
  have "readdir_calls env fuel st dir ms (list_pos s es ?j) = Ok (take (sum_list ms) (drop ?j ?L))"
    by (intro Cons.IH) simp
  moreover have "take m (drop j ?L) @ take (sum_list ms) (drop ?j ?L) = take (m + sum_list ms) (drop j ?L)"
  proof -
    have "drop ?j ?L = drop (j + m) ?L" by (simp add: min_def)
    then show ?thesis by (simp add: take_drop_append)
  qed
  ultimately show ?case using smashfs_readdir_ok [OF w i pl r g v Cons.prems, of m] by simp
qed simp

section \<open>A small image in the module\<close>

definition demo_kernel :: kernel where
  "demo_kernel = \<lparr>k_cache = No_cache,
     k_compressors = kernel_compressors \<lparr>enable_gzip = True, enable_lzma = True, enable_lzo = False, enable_xz = False\<rparr>
       \<lparr>zlib_inflate = (\<lambda>src d. Some src), klzo1x_decompress_safe = (\<lambda>src d. None), xz_dec_run = (\<lambda>src d. None)\<rparr>,
     k_live = [], k_next = 0\<rparr>"

definition demo_kenv :: "memory \<Rightarrow> kernel_env" where
  "demo_kenv dev = \<lparr>ke_alloc = (\<lambda>_. True), ke_cache_create = (\<lambda>_. True), ke_cache_alloc = (\<lambda>_. True),
     ke_context = (\<lambda>_. True), ke_min_blocksize = 1024, ke_getblk = (\<lambda>_. True), ke_uptodate = (\<lambda>_. True),
     ke_data = (\<lambda>b. take 1024 (drop (nat b * 1024) dev)), ke_new_inode = Some 0, ke_iget = True, ke_d_alloc_root = True\<rparr>"

lemma demo_device: "length dev mod 1024 = 0 \<Longrightarrow> mount_ok (demo_kenv dev) dev"
  by (auto simp: mount_ok_def device_ok_def demo_kenv_def heap_ok_def intro!: exI [of _ 10] exI [of _ "[]"])

lemma demo_none: "codec (compressor_compress none_method) kernel_none_uncompress"
proof -
  have "kernel_none_uncompress = none_uncompress"
    by (intro ext) (simp add: kernel_none_uncompress_def none_uncompress_def)
  moreover have "compressor_compress none_method = none_compress"
    by (intro ext) (simp add: compressor_compress_def none_method_def)
  ultimately show ?thesis by (simp add: none.codec_axioms)
qed

lemma demo_finds: "kernel_finds env demo_kernel 0 kernel_none_uncompress"
  by (auto simp: kernel_finds_def kernel_create_type_def demo_kernel_def kernel_compressors_def Let_def
      upt_rec numeral_3_eq_3)

section \<open>A stored tree in the module\<close>

text \<open>The image has been written from the table, and the module can mount and read it.\<close>

definition stored ::
  "environment \<Rightarrow> options \<Rightarrow> nat \<Rightarrow> compressor \<Rightarrow> codec_fn \<Rightarrow> mnode list \<Rightarrow> memory \<Rightarrow> bool" where
  "stored env opt k c decomp nodes img \<longleftrightarrow> system_ok env \<and> options_ok opt k \<and> table_ok nodes \<and> numbered nodes \<and>
     codec (compressor_compress c) decomp \<and> (\<exists>nodes'. output_write env opt c nodes = Ok (nodes', img))"

definition mountable ::
  "kernel_env \<Rightarrow> kernel \<Rightarrow> nat \<Rightarrow> compressor \<Rightarrow> codec_fn \<Rightarrow> mnode list \<Rightarrow> nat \<Rightarrow> memory \<Rightarrow> bool" where
  "mountable kenv kern k c decomp nodes fuel img \<longleftrightarrow> fits_module k nodes \<and> directories_ok fuel nodes \<and>
     root_number_ok kenv nodes \<and> mount_ok kenv img \<and> kernel_finds kenv kern (compressor_type c) decomp"

text \<open>Mounting an image and walking a path from the root.\<close>

definition open_path ::
  "kernel_env \<Rightarrow> kernel \<Rightarrow> nat \<Rightarrow> memory list \<Rightarrow> ((kernel \<times> super_info) \<times> inode \<times> icache) res" where
  "open_path env k fuel names =
     rbind (smashfs_fill_super env k) (\<lambda>(kern, mnt).
     case mnt of None \<Rightarrow> Err EINVAL | Some m \<Rightarrow>
       rbind (walk env fuel (kern, m_info m) (m_icache m) (m_root m) names) (\<lambda>(inode, ic).
       Ok ((kern, m_info m), inode, ic)))"

lemma open_path_ok:
  assumes st: "stored env opt k c decomp nodes img" and m: "mountable kenv kern0 k c decomp nodes fuel img"
    and t: "tree_path nodes 0 names = Some j" and ne: "[] \<notin> set names"
  obtains kern si ino ic s nodes' kk entry
  where "open_path kenv kern0 fuel names = Ok ((kern, si), mounted_inode opt si ino (int j) (nodes' ! j), ic)"
    and "kernel_ok kenv opt s nodes' kk entry (kern, si)" and "icache_ok opt si nodes' ic"
    and "map unplaced nodes' = map unplaced nodes" and "j < length nodes"
    and "uint (min_ctime (sb_min s)) = n_ctime (hd nodes)" and "uint (min_mtime (sb_min s)) = n_mtime (hd nodes)"
proof -
  obtain nodes' where w: "system_ok env" "options_ok opt k" "table_ok nodes" "numbered nodes"
    "codec (compressor_compress c) decomp" "output_write env opt c nodes = Ok (nodes', img)"
    using st by (auto simp: stored_def)
  have f: "fits_module k nodes" "directories_ok fuel nodes" "root_number_ok kenv nodes" "mount_ok kenv img"
    "kernel_finds kenv kern0 (compressor_type c) decomp"
    using m by (simp_all add: mountable_def)
  obtain s kern mnt kk entry where g: "smashfs_fill_super kenv kern0 = Ok (kern, Some mnt)"
    "kernel_ok kenv opt s nodes' kk entry (kern, m_info mnt)" "map unplaced nodes' = map unplaced nodes"
    "m_root mnt = mounted_inode opt (m_info mnt) (the (ke_new_inode kenv)) 0 (nodes' ! 0)"
    "m_icache mnt = (\<lambda>_. None)(the (ke_new_inode kenv) := Some (m_root mnt))"
    "uint (min_ctime (sb_min s)) = n_ctime (hd nodes)" "uint (min_mtime (sb_min s)) = n_mtime (hd nodes)"
    using written_mounted [OF w(1-4) f(1) w(5,6) f(4,5)] by blast
  have n: "nodes \<noteq> []" "length nodes' = length nodes" "ke_iget kenv"
    using w(3) g(3) f(4) by (auto simp: table_ok_def mount_ok_def dest: map_eq_imp_length_eq)
  have "icache_ok opt (m_info mnt) nodes' (m_icache mnt)"
    using root_icache_ok [OF f(3) n(2,1)] by (simp add: g(4,5))
  with walk_ok [OF g(2,3) f(2) n(3), of 0 "m_icache mnt" names j "the (ke_new_inode kenv)"] t ne n(1)
  obtain ino ic where "walk kenv fuel (kern, m_info mnt) (m_icache mnt) (m_root mnt) names =
      Ok (mounted_inode opt (m_info mnt) ino (int j) (nodes' ! j), ic)" "icache_ok opt (m_info mnt) nodes' ic"
      "j < length nodes"
    by (auto simp: g(4))
  then show ?thesis
    using that [of kern "m_info mnt" ino nodes' ic s kk entry] g by (simp add: open_path_def)
qed

section \<open>Reading\<close>

definition contents :: "mnode \<Rightarrow> memory" where
  "contents n = (case n_payload n of File_payload d \<Rightarrow> d | Link_payload p \<Rightarrow> c_str p @ [0] | _ \<Rightarrow> [])"

lemma node_bytes_contents:
  assumes "\<And>p es. n_payload n \<noteq> Directory_payload p es"
  shows "node_bytes s n = contents n"
  using assms by (auto simp: node_bytes_def contents_def split: payload.split)

lemma stored_path_read:
  assumes "stored env opt k c decomp nodes img" and "mountable kenv kern k c decomp nodes fuel img"
    and "tree_path nodes 0 names = Some j" and "[] \<notin> set names"
    and "\<And>p es. n_payload (nodes ! j) \<noteq> Directory_payload p es" and "4096 < fuel"
  shows "\<exists>st inode ic. open_path kenv kern fuel names = Ok (st, inode, ic) \<and>
    i_size inode = int (length (contents (nodes ! j))) \<and>
    (\<forall>page index. smashfs_readpage kenv fuel st inode page index = Ok (True, page_of (contents (nodes ! j)) index))"
proof -
  obtain kern' si ino ic s nodes' kk entry where
    o: "open_path kenv kern fuel names = Ok ((kern', si), mounted_inode opt si ino (int j) (nodes' ! j), ic)"
    and w: "kernel_ok kenv opt s nodes' kk entry (kern', si)" and same: "map unplaced nodes' = map unplaced nodes"
    and j: "j < length nodes"
    by (rule open_path_ok [OF assms(1-4)]) blast
  have l: "j < length nodes'" using same j by (metis length_map)
  then have m: "nodes' ! j \<in> set nodes'" by simp
  have pl: "n_payload (nodes' ! j) = n_payload (nodes ! j)"
    using unplaced_fields [OF nth_unplaced [OF same j]] by simp
  then have nd: "n_payload (nodes' ! j) \<noteq> Directory_payload p es" for p es using assms(5) by simp
  have nb: "node_bytes s (nodes' ! j) = contents (nodes ! j)"
    using node_bytes_contents [OF nd, of s] pl by (simp add: contents_def)
  let ?x = "mounted_inode opt si ino (int j) (nodes' ! j)"
  have "smashfs_readpage kenv fuel (kern', si) ?x page index = Ok (True, page_of (contents (nodes ! j)) index)"
    for page index
    using smashfs_readpage_ok [OF w l nd assms(6), of ?x page index] nb by (simp add: mounted_inode_node)
  moreover have "node_placed s kk entry (nodes' ! j)" using w m by (auto simp: kernel_ok_def Let_def)
  then have "i_size ?x = int (length (contents (nodes ! j)))"
    by (simp add: mounted_inode_node node_placed_def nb)
  ultimately show ?thesis using o by blast
qed

text \<open>
  C7. What \<open>mkfs.smashfs\<close> writes the kernel module mounts and reads: opening a path looks each
  of its names up and comes to the node that the path means in the table, and every page of it
  is the page of its contents, filled up with zeros.
\<close>

theorem kernel_reads_path:
  assumes "stored env opt k c decomp nodes img" and "mountable kenv kern k c decomp nodes fuel img"
    and "tree_path nodes 0 names = Some j" and "[] \<notin> set names"
    and "\<And>p es. n_payload (nodes ! j) \<noteq> Directory_payload p es" and "4096 < fuel"
  shows "\<exists>st inode ic. open_path kenv kern fuel names = Ok (st, inode, ic) \<and>
    i_size inode = int (length (contents (nodes ! j))) \<and>
    (\<forall>page index. smashfs_readpage kenv fuel st inode page index = Ok (True, page_of (contents (nodes ! j)) index))"
  by (rule stored_path_read [OF assms])

lemma demo_stored:
  obtains img where "stored demo_env demo_options 12 none_method kernel_none_uncompress demo_nodes img"
    and "mountable (demo_kenv img) demo_kernel 12 none_method kernel_none_uncompress demo_nodes 5000 img"
proof -
  obtain nodes' img where w: "output_write demo_env demo_options none_method demo_nodes = Ok (nodes', img)"
    by (rule demo_written)
  have "\<not> o_no_padding demo_options" by (simp add: demo_options_def)
  with output_write_image [OF demo_system demo_options demo_table demo_none w] have "length img mod 4096 = 0" by auto
  then have "length img mod 1024 = 0" using mod_mod_cancel [of 1024 4096 "length img"] by simp
  moreover have "fits_module 12 demo_nodes"
    by (simp add: fits_module_def image_bound_def demo_defs payload_bound_def)
  moreover have "directories_ok 5000 demo_nodes"
    by (simp add: directories_ok_def demo_defs payload_bound_def)
  moreover have "root_number_ok (demo_kenv img) demo_nodes" by (simp add: root_number_ok_def demo_kenv_def)
  moreover have "kernel_finds (demo_kenv img) demo_kernel (compressor_type none_method) kernel_none_uncompress"
    using demo_finds by (simp add: compressor_type_def none_method_def)
  ultimately show ?thesis
    using that [of img] w demo_system demo_options demo_table demo_tree(1) demo_none demo_device
    by (auto simp: stored_def mountable_def)
qed

lemma demo_paths:
  "tree_path demo_nodes 0 [[0x61]] = Some 1" "tree_path demo_nodes 0 [[0x62, 0x63]] = Some 2"
  "tree_path demo_nodes 0 [] = Some 0"
  "n_payload (demo_nodes ! 0) = Directory_payload 0 (dir_entries (n_payload (demo_nodes ! 0)))"
  by (simp_all add: demo_defs)

lemma kernel_reads_path_witness:
  "\<exists>img st inode ic. open_path (demo_kenv img) demo_kernel 5000 [[0x61]] = Ok (st, inode, ic) \<and> i_size inode = 3 \<and>
     smashfs_readpage (demo_kenv img) 5000 st inode [] 0 = Ok (True, [1, 2, 3] @ replicate 4093 0)"
proof -
  obtain img where g: "stored demo_env demo_options 12 none_method kernel_none_uncompress demo_nodes img"
    "mountable (demo_kenv img) demo_kernel 12 none_method kernel_none_uncompress demo_nodes 5000 img"
    by (rule demo_stored)
  have c: "contents (demo_nodes ! 1) = [1, 2, 3]" "n_payload (demo_nodes ! 1) \<noteq> Directory_payload p es" for p es
    by (simp_all add: contents_def demo_defs)
  have "page_of [1, 2, 3] 0 = [1, 2, 3] @ replicate 4093 0" by (simp add: page_of_def)
  then show ?thesis
    using kernel_reads_path [OF g demo_paths(1) _ c(2)] unfolding c(1) by fastforce
qed

text \<open>
  C12. Opening a directory and reading it in calls with room for any numbers of items gives its
  listing: the two dots and every entry of the table, in order, each once and none after the
  end, whatever the sizes of the calls.
\<close>

theorem kernel_lists_directory:
  assumes "stored env opt k c decomp nodes img" and "mountable kenv kern k c decomp nodes fuel img"
    and "tree_path nodes 0 names = Some j" and "[] \<notin> set names"
    and "n_payload (nodes ! j) = Directory_payload p es"
  shows "\<exists>st inode ic. open_path kenv kern fuel names = Ok (st, inode, ic) \<and> i_ops inode = Directory_ops \<and>
    (\<forall>ms. readdir_calls kenv fuel st inode ms 0 = Ok (take (sum_list ms) (listing (i_ino inode) p es)))"
proof -
  obtain kern' si ino ic s nodes' kk entry where
    o: "open_path kenv kern fuel names = Ok ((kern', si), mounted_inode opt si ino (int j) (nodes' ! j), ic)"
    and w: "kernel_ok kenv opt s nodes' kk entry (kern', si)" and same: "map unplaced nodes' = map unplaced nodes"
    and j: "j < length nodes"
    by (rule open_path_ok [OF assms(1-4)]) blast
  have d: "directories_ok fuel nodes" using assms(2) by (simp add: mountable_def)
  note dm = directory_mounted [OF w same d j assms(5)]
  let ?x = "mounted_inode opt si ino (int j) (nodes' ! j)"
  have "readdir_calls kenv fuel (kern', si) ?x ms 0 = Ok (take (sum_list ms) (listing (i_ino ?x) p es))" for ms
    using readdir_calls_ok [OF w dm(1-4), of ?x 0 ms] by (simp add: mounted_inode_node list_pos_def)
  moreover have "i_ops ?x = Directory_ops" by (simp add: mounted_inode_def Let_def ops_of_def dm(2))
  ultimately show ?thesis using o by blast
qed

lemma kernel_lists_directory_witness:
  "\<exists>img st inode ic. open_path (demo_kenv img) demo_kernel 5000 [] = Ok (st, inode, ic) \<and>
     (\<exists>out. readdir_calls (demo_kenv img) 5000 st inode [1, 2, 5] 0 = Ok out \<and>
        map kd_name out = [[0x2E], [0x2E, 0x2E], [0x61], [0x62, 0x63]])"
proof -
  obtain img where g: "stored demo_env demo_options 12 none_method kernel_none_uncompress demo_nodes img"
    "mountable (demo_kenv img) demo_kernel 12 none_method kernel_none_uncompress demo_nodes 5000 img"
    by (rule demo_stored)
  obtain st inode ic where o: "open_path (demo_kenv img) demo_kernel 5000 [] = Ok (st, inode, ic)"
    "readdir_calls (demo_kenv img) 5000 st inode [1, 2, 5] 0 =
       Ok (take (sum_list [1, 2, 5]) (listing (i_ino inode) 0 (dir_entries (n_payload (demo_nodes ! 0)))))"
    using kernel_lists_directory [OF g demo_paths(3) _ demo_paths(4)] by (metis empty_iff list.set(1))
  have "map kd_name (take (sum_list [1, 2, 5]) (listing ino 0 (dir_entries (n_payload (demo_nodes ! 0))))) =
      [[0x2E], [0x2E, 0x2E], [0x61], [0x62, 0x63]]" for ino
    by (simp add: listing_def dirent_of_def demo_defs)
  with o show ?thesis by blast
qed

text \<open>
  C13. Looking up a name in a directory gives the inode of the entry with that name, and
  \<open>ENOENT\<close> for a name that no entry has; the search, which stops early at a greater first
  byte, misses nothing in a directory that is sorted by first bytes.
\<close>

theorem kernel_lookup_exact:
  assumes "stored env opt k c decomp nodes img" and "mountable kenv kern k c decomp nodes fuel img"
    and "tree_path nodes 0 names = Some j" and "[] \<notin> set names"
    and "n_payload (nodes ! j) = Directory_payload p es" and "name \<noteq> []"
  shows "\<exists>st inode ic. open_path kenv kern fuel names = Ok (st, inode, ic) \<and>
    (case find (\<lambda>e. de_name e = name) es of
       None \<Rightarrow> smashfs_lookup kenv fuel st ic inode name = Err ENOENT
     | Some e \<Rightarrow> \<exists>x ic'. smashfs_lookup kenv fuel st ic inode name = Ok (x, ic') \<and> i_ino x = de_number e \<and>
         i_ops x = ops_of (nodes ! nat (de_number e)))"
proof -
  obtain kern' si ino ic s nodes' kk entry where
    o: "open_path kenv kern fuel names = Ok ((kern', si), mounted_inode opt si ino (int j) (nodes' ! j), ic)"
    and w: "kernel_ok kenv opt s nodes' kk entry (kern', si)" and ic: "icache_ok opt si nodes' ic"
    and same: "map unplaced nodes' = map unplaced nodes" and j: "j < length nodes"
    by (rule open_path_ok [OF assms(1-4)]) blast
  have d: "directories_ok fuel nodes" "ke_iget kenv" using assms(2) by (simp_all add: mountable_def mount_ok_def)
  note dm = directory_mounted [OF w same d(1) j assms(5)]
  let ?x = "mounted_inode opt si ino (int j) (nodes' ! j)"
  have l: "smashfs_lookup kenv fuel (kern', si) ic ?x name = (case find (\<lambda>e. de_name e = name) es of
       None \<Rightarrow> Err ENOENT | Some e \<Rightarrow> smashfs_get_inode kenv si ic (de_number e))"
    using smashfs_lookup_ok [OF w dm(1-5) assms(6), of ?x ic] by (simp add: mounted_inode_node split: option.split)
  show ?thesis
  proof (cases "find (\<lambda>e. de_name e = name) es")
    case None
    then show ?thesis using o l by auto
  next
    case (Some e)
    then have "e \<in> set es" by (auto simp: find_Some_iff)
    then have e: "0 \<le> de_number e" "nat (de_number e) < length nodes" using dm(6) by auto
    then have e': "nat (de_number e) < length nodes'" using same by (metis length_map)
    have "ops_of (nodes' ! nat (de_number e)) = ops_of (nodes ! nat (de_number e))"
      using unplaced_fields [OF nth_unplaced [OF same e(2)]] by (simp add: ops_of_def)
    then show ?thesis
      using smashfs_get_inode_ok [OF w d(2) ic e'] o l Some e(1) by (auto simp: mounted_inode_def Let_def)
  qed
qed

lemma kernel_lookup_exact_witness:
  "\<exists>img st inode ic. open_path (demo_kenv img) demo_kernel 5000 [] = Ok (st, inode, ic) \<and>
     smashfs_lookup (demo_kenv img) 5000 st ic inode [0x7A] = Err ENOENT"
proof -
  obtain img where g: "stored demo_env demo_options 12 none_method kernel_none_uncompress demo_nodes img"
    "mountable (demo_kenv img) demo_kernel 12 none_method kernel_none_uncompress demo_nodes 5000 img"
    by (rule demo_stored)
  have "find (\<lambda>e. de_name e = [0x7A]) (dir_entries (n_payload (demo_nodes ! 0))) = None"
    by (simp add: demo_defs)
  then show ?thesis
    using kernel_lookup_exact [OF g demo_paths(3) _ demo_paths(4), of "[0x7A]"] by fastforce
qed

lemma file_mode_shown:
  "file_mode (mounted_node opt s i n) = shown_mode opt n"
  by (simp add: shown_mode_def file_mode_def mounted_node_def expected_node_def Let_def)

lemma mounted_inode_stat:
  "i_ops (mounted_inode opt si ino i n) = ops_of n"
  "i_mode (mounted_inode opt si ino i n) = type_bits (ops_of n) OR shown_mode opt n"
  "i_uid (mounted_inode opt si ino i n) = (if o_no_uid opt then 0 else n_uid n)"
  "i_gid (mounted_inode opt si ino i n) = (if o_no_gid opt then 0 else n_gid n)"
  "i_ctime (mounted_inode opt si ino i n) = expected_ctime opt (si_super si) n + uint (min_ctime (sb_min (si_super si)))"
  by (simp_all add: mounted_inode_def Let_def file_mode_shown) (simp_all add: mounted_node_def expected_node_def)

text \<open>
  C14. What \<open>stat\<close> shows of a file of the image: its type and permissions, and its owner and
  group unless they were left out.  The time of its last change is the file's own if the first
  node of the table is not younger.  If it is, the file gets a time that is not before the
  first node's, so later than its own: \<open>mkfs\<close> takes the first node's time for the least.
\<close>

theorem kernel_stat:
  assumes "stored env opt k c decomp nodes img" and "mountable kenv kern k c decomp nodes fuel img"
    and "tree_path nodes 0 names = Some j" and "[] \<notin> set names"
  shows "\<exists>st inode ic. open_path kenv kern fuel names = Ok (st, inode, ic) \<and> i_ops inode = ops_of (nodes ! j) \<and>
    i_mode inode = type_bits (ops_of (nodes ! j)) OR shown_mode opt (nodes ! j) \<and>
    (\<not> o_no_uid opt \<longrightarrow> i_uid inode = n_uid (nodes ! j)) \<and> (\<not> o_no_gid opt \<longrightarrow> i_gid inode = n_gid (nodes ! j)) \<and>
    (\<not> o_no_ctime opt \<longrightarrow>
       (if n_ctime (hd nodes) \<le> n_ctime (nodes ! j) then i_ctime inode = n_ctime (nodes ! j)
        else n_ctime (nodes ! j) < n_ctime (hd nodes) \<and> n_ctime (hd nodes) \<le> i_ctime inode))"
proof -
  obtain kern' si ino ic s nodes' kk entry where
    o: "open_path kenv kern fuel names = Ok ((kern', si), mounted_inode opt si ino (int j) (nodes' ! j), ic)"
    and w: "kernel_ok kenv opt s nodes' kk entry (kern', si)"
    and same: "map unplaced nodes' = map unplaced nodes" and j: "j < length nodes"
    and t: "uint (min_ctime (sb_min s)) = n_ctime (hd nodes)"
    by (rule open_path_ok [OF assms(1-4)])
  have l: "nodes' ! j \<in> set nodes'" using same j by (metis length_map nth_mem)
  note u = unplaced_fields [OF nth_unplaced [OF same j]]
  have s: "si_super si = s" "node_ok (nodes' ! j)" using w l by (auto simp: kernel_ok_def Let_def)
  have sh: "shown_mode opt (nodes' ! j) = shown_mode opt (nodes ! j)" "ops_of (nodes' ! j) = ops_of (nodes ! j)"
    by (simp_all add: shown_mode_def ops_of_def u)
  let ?x = "mounted_inode opt si ino (int j) (nodes' ! j)"
  have c: "i_ctime ?x = n_ctime (nodes ! j)" if "\<not> o_no_ctime opt" "n_ctime (hd nodes) \<le> n_ctime (nodes ! j)"
  proof -
    have "n_ctime (nodes ! j) < 2 ^ 32" "0 \<le> n_ctime (hd nodes)"
      using s(2) t [symmetric] by (auto simp: node_ok_def u32_range_def u)
    then have "uint (to_u32 (n_ctime (nodes ! j) - n_ctime (hd nodes))) = n_ctime (nodes ! j) - n_ctime (hd nodes)"
      using that(2) by (intro uint_to_u32_id) simp_all
    then show ?thesis
      unfolding mounted_inode_stat s(1) expected_ctime_def time_view_def t u using that by simp
  qed
  have d: "n_ctime (hd nodes) \<le> i_ctime ?x" by (simp add: mounted_inode_stat s(1) t expected_ctime_def)
  show ?thesis
    by (rule exI [of _ "(kern', si)"], rule exI [of _ ?x], rule exI [of _ ic])
      (use o c d in \<open>simp add: mounted_inode_stat(1-4) sh u\<close>)
qed

lemma kernel_stat_witness:
  "\<exists>img st inode ic. open_path (demo_kenv img) demo_kernel 5000 [[0x62, 0x63]] = Ok (st, inode, ic) \<and>
     i_ops inode = Link_ops \<and> i_uid inode = 1000 \<and> i_ctime inode = 1001"
proof -
  obtain img where g: "stored demo_env demo_options 12 none_method kernel_none_uncompress demo_nodes img"
    "mountable (demo_kenv img) demo_kernel 12 none_method kernel_none_uncompress demo_nodes 5000 img"
    by (rule demo_stored)
  have "ops_of (demo_nodes ! 2) = Link_ops" "n_uid (demo_nodes ! 2) = 1000" "n_ctime (demo_nodes ! 2) = 1001"
    "n_ctime (hd demo_nodes) = 1000" "\<not> o_no_uid demo_options" "\<not> o_no_ctime demo_options"
    by (simp_all add: ops_of_def demo_defs demo_options_def)
  then show ?thesis
    using kernel_stat [OF g demo_paths(2)] by fastforce
qed

section \<open>Refusing a device, and unmounting\<close>

text \<open>A device that can be read and does not start with a super block.\<close>

definition foreign :: "kernel_env \<Rightarrow> memory \<Rightarrow> bool" where
  "foreign env dev \<longleftrightarrow> (\<exists>log. device_ok env dev log \<and> ke_min_blocksize env = 2 ^ log) \<and> 152 \<le> length dev \<and>
     sb_magic (super_of_bytes (take 152 dev)) \<noteq> SMASHFS_MAGIC"

lemma smashfs_fill_super_foreign:
  assumes "foreign env dev"
  shows "smashfs_fill_super env k = fill_bail None k"
proof -
  obtain log where d: "device_ok env dev log" "ke_min_blocksize env = 2 ^ log" "152 \<le> length dev"
    "sb_magic (super_of_bytes (take 152 dev)) \<noteq> SMASHFS_MAGIC"
    using assms by (auto simp: foreign_def)
  then have h: "heap_ok (ke_alloc env)" "log < 32" by (simp_all add: device_ok_def)
  obtain b0 where b0: "smashfs_read env (2 ^ log) (int log) (replicate 152 0) 0 152 = Ok (152, b0)"
    "take (length (take 152 dev)) b0 = take 152 dev" "length b0 = 152"
    by (rule smashfs_read_at [OF d(1), of "[]" "take 152 dev" "drop 152 dev" 0 152 "replicate 152 0"])
      (use d(3) in simp_all)
  then have "b0 = take 152 dev" using d(3) by simp
  with b0(1) d(2,4) h(1) show ?thesis
    by (simp add: mount_defs Let_def
        ffz_not_power [OF h(2)])
qed

lemma destroy_usable:
  assumes "usable k i"
  shows "\<exists>k'. kernel_compressor_destroy (Some i) k = Ok k' \<and> k_cache k' = k_cache k"
  using assms by (auto simp: usable_def kernel_compressor_destroy_def context_destroy_def split: kcontext.splits)

text \<open>
  C34. The block cache is one global for all mounted file systems, and destroying it leaves the
  pointer: while an image is mounted, an attempt to mount a device of another kind is refused
  but takes the cache away, so that reading a file of the image then works in a destroyed
  cache; and once the image has been unmounted, such an attempt destroys the cache twice.
\<close>

theorem kernel_shared_cache:
  assumes "stored env opt k c decomp nodes img" and "mountable kenv kern0 k c decomp nodes fuel img"
    and "tree_path nodes 0 names = Some j" and "[] \<notin> set names"
    and "n_payload (nodes ! j) = File_payload d" and "4096 * int index < int (length d)"
    and "foreign other dev"
  shows "\<exists>m kern inode ic unmounted refused. smashfs_fill_super kenv kern0 = Ok (kern, Some m) \<and>
    open_path kenv kern0 fuel names = Ok ((kern, m_info m), inode, ic) \<and>
    smashfs_fill_super other kern = Ok (refused, None) \<and>
    smashfs_readpage kenv fuel (refused, m_info m) inode page index = Undef \<and>
    smashfs_put_super kern (Some m) = Ok unmounted \<and> smashfs_fill_super other unmounted = Undef"
proof -
  obtain kern si ino ic s nodes' kk entry where
    o: "open_path kenv kern0 fuel names = Ok ((kern, si), mounted_inode opt si ino (int j) (nodes' ! j), ic)"
    and w: "kernel_ok kenv opt s nodes' kk entry (kern, si)"
    and same: "map unplaced nodes' = map unplaced nodes" and j: "j < length nodes"
    by (rule open_path_ok [OF assms(1-4)])
  obtain m where m: "smashfs_fill_super kenv kern0 = Ok (kern, Some m)" "m_info m = si"
    using o by (auto simp: open_path_def split: option.splits)
  have c: "usable kern (si_compressor si)" "\<exists>sz. k_cache kern = Cache sz"
    using w by (auto simp: kernel_ok_def kernel_serves_def Let_def)
  then obtain sz where sz: "k_cache kern = Cache sz" by blast
  obtain k1 where k1: "kernel_compressor_destroy (Some (si_compressor si)) kern = Ok k1" "k_cache k1 = Cache sz"
    using destroy_usable [OF c(1)] sz by auto
  let ?x = "mounted_inode opt si ino (int j) (nodes' ! j)"
  have l: "nodes' ! j \<in> set nodes'" using same j by (metis length_map nth_mem)
  note u = unplaced_fields [OF nth_unplaced [OF same j]]
  have n: "node_ok (nodes' ! j)" "node_placed s kk entry (nodes' ! j)" "length entry < 2 ^ 31"
    using w l by (auto simp: kernel_ok_def kernel_serves_def Let_def)
  then have sz31: "n_size (nodes' ! j) = int (length d)" "int (length d) < 2147483648"
    using node_placed_range(2) [OF n(2,3)] by (auto simp: node_placed_def node_bytes_def u assms(5))
  moreover have "n_type (nodes' ! j) = inode_code regular_file"
    using n(1) by (auto simp: node_ok_def payload_ok_def u assms(5))
  moreover have "to_s32 (drop_bit PAGE_CACHE_SHIFT (int (length d) + PAGE_CACHE_SIZE - 1)) = (int (length d) + 4095) div 4096"
    "(int (length d) + 4095) div 4096 < 2 ^ 64"
    using sz31(2) by (simp_all add: shiftr_div PAGE_CACHE_SHIFT_def PAGE_CACHE_SIZE_def)
  moreover have "int index < (int (length d) + 4095) div 4096"
    using less_ceil_div [of 4096 "int index" "int (length d)"] assms(6) by (simp add: mult.commute)
  ultimately have "smashfs_readpage kenv fuel (kern\<lparr>k_cache := Dead_cache\<rparr>, si) ?x page index = Undef"
    using assms(6) by (simp add: smashfs_readpage_def mounted_inode_node Let_def node_read_def block_alloc_def)
  moreover have "smashfs_fill_super other kern = Ok (kern\<lparr>k_cache := Dead_cache\<rparr>, None)"
    by (simp add: smashfs_fill_super_foreign [OF assms(7)] fill_bail_def kernel_compressor_destroy_def
        destroy_blockcache_def sz)
  moreover have "smashfs_put_super kern (Some m) = Ok (k1\<lparr>k_cache := Dead_cache\<rparr>)"
    by (simp add: smashfs_put_super_def m(2) k1 destroy_blockcache_def)
  moreover have "smashfs_fill_super other (k1\<lparr>k_cache := Dead_cache\<rparr>) = Undef"
    by (simp add: smashfs_fill_super_foreign [OF assms(7)] fill_bail_def kernel_compressor_destroy_def
        destroy_blockcache_def)
  ultimately show ?thesis using o m by blast
qed

lemma demo_foreign: "foreign (demo_kenv (replicate 1024 0)) (replicate 1024 0)"
proof -
  have "device_ok (demo_kenv (replicate 1024 0)) (replicate 1024 0 @ []) 10"
    by (auto simp: device_ok_def demo_kenv_def heap_ok_def)
  moreover have "sb_magic (super_of_bytes (take 152 (replicate 1024 0))) \<noteq> SMASHFS_MAGIC"
  proof -
    have "take 152 (replicate 1024 0) = (replicate 152 0 :: memory)" by simp
    moreover have "sb_magic (super_of_bytes (replicate 152 0)) \<noteq> SMASHFS_MAGIC" by code_simp
    ultimately show ?thesis by metis
  qed
  ultimately show ?thesis by (auto simp: foreign_def demo_kenv_def intro!: exI [of _ 10])
qed

lemma kernel_shared_cache_witness:
  "\<exists>img kern inode ic si refused. open_path (demo_kenv img) demo_kernel 5000 [[0x61]] = Ok ((kern, si), inode, ic) \<and>
     smashfs_fill_super (demo_kenv (replicate 1024 0)) kern = Ok (refused, None) \<and>
     smashfs_readpage (demo_kenv img) 5000 (refused, si) inode [] 0 = Undef"
proof -
  obtain img where g: "stored demo_env demo_options 12 none_method kernel_none_uncompress demo_nodes img"
    "mountable (demo_kenv img) demo_kernel 12 none_method kernel_none_uncompress demo_nodes 5000 img"
    by (rule demo_stored)
  have "n_payload (demo_nodes ! 1) = File_payload [1, 2, 3]" by (simp add: demo_defs)
  from kernel_shared_cache [OF g demo_paths(1) _ this _ demo_foreign, of 0 "[]"] show ?thesis by fastforce
qed

text \<open>
  C36. \<open>new_inode\<close> chooses the number under which the root is hashed, which need not be the
  root's own.  When it is the number of another node, looking that node up gives the root: the
  entry of a file opens as the directory.
\<close>

theorem kernel_root_shadows:
  assumes "stored env opt k c decomp nodes img" and "fits_module k nodes" and "directories_ok fuel nodes"
    and "mount_ok kenv img" and "kernel_finds kenv kern0 (compressor_type c) decomp"
    and "n_payload (nodes ! 0) = Directory_payload p es" and "find (\<lambda>e. de_name e = name) es = Some e"
    and "ke_new_inode kenv = Some (de_number e)"
  shows "\<exists>kern m. smashfs_fill_super kenv kern0 = Ok (kern, Some m) \<and> i_ops (m_root m) = Directory_ops \<and>
    smashfs_lookup kenv fuel (kern, m_info m) (m_icache m) (m_root m) name = Ok (m_root m, m_icache m)"
proof -
  obtain nodes' where w: "system_ok env" "options_ok opt k" "table_ok nodes" "numbered nodes"
    "codec (compressor_compress c) decomp" "output_write env opt c nodes = Ok (nodes', img)"
    using assms(1) by (auto simp: stored_def)
  obtain s kern mnt kk entry where g: "smashfs_fill_super kenv kern0 = Ok (kern, Some mnt)"
    "kernel_ok kenv opt s nodes' kk entry (kern, m_info mnt)" "map unplaced nodes' = map unplaced nodes"
    "m_root mnt = mounted_inode opt (m_info mnt) (the (ke_new_inode kenv)) 0 (nodes' ! 0)"
    "m_icache mnt = (\<lambda>_. None)(the (ke_new_inode kenv) := Some (m_root mnt))"
    using written_mounted [OF w(1-4) assms(2) w(5,6) assms(4,5)] by blast
  have "0 < length nodes" using w(3) by (simp add: table_ok_def)
  note dm = directory_mounted [OF g(2,3) assms(3) this assms(6)]
  have "e \<in> set es" "de_name e = name" using assms(7) by (auto simp: find_Some_iff)
  then have n: "name \<noteq> []" using dm(4) by (auto simp: entries_good_def)
  have v: "nd_index (i_node (m_root mnt)) = n_index (nodes' ! 0)" "nd_block (i_node (m_root mnt)) = n_block (nodes' ! 0)"
    "nd_size (i_node (m_root mnt)) = n_size (nodes' ! 0)"
    by (simp_all add: g(4) mounted_inode_node)
  have "smashfs_lookup kenv fuel (kern, m_info mnt) (m_icache mnt) (m_root mnt) name = Ok (m_root mnt, m_icache mnt)"
    using smashfs_lookup_ok [OF g(2) dm(1-5) n v, of "m_icache mnt"] assms(4,7,8)
    by (simp add: smashfs_get_inode_def mount_ok_def g(5))
  moreover have "i_ops (m_root mnt) = Directory_ops" by (simp add: g(4) mounted_inode_stat ops_of_def dm(2))
  ultimately show ?thesis using g(1) by blast
qed

lemma kernel_root_shadows_witness:
  "\<exists>img kern m. smashfs_fill_super ((demo_kenv img)\<lparr>ke_new_inode := Some 1\<rparr>) demo_kernel = Ok (kern, Some m) \<and>
     smashfs_lookup ((demo_kenv img)\<lparr>ke_new_inode := Some 1\<rparr>) 5000 (kern, m_info m) (m_icache m) (m_root m) [0x61] =
       Ok (m_root m, m_icache m)"
proof -
  obtain img where g: "stored demo_env demo_options 12 none_method kernel_none_uncompress demo_nodes img"
    "mountable (demo_kenv img) demo_kernel 12 none_method kernel_none_uncompress demo_nodes 5000 img"
    by (rule demo_stored)
  let ?env = "(demo_kenv img)\<lparr>ke_new_inode := Some 1\<rparr>"
  have m: "fits_module 12 demo_nodes" "directories_ok 5000 demo_nodes" "mount_ok ?env img"
    "kernel_finds ?env demo_kernel (compressor_type none_method) kernel_none_uncompress"
    using g(2) demo_finds by (auto simp: mountable_def mount_ok_def device_ok_def compressor_type_def none_method_def)
  have f: "find (\<lambda>e. de_name e = [0x61]) (dir_entries (n_payload (demo_nodes ! 0))) =
      Some \<lparr>de_number = 1, de_type = 1, de_name = [0x61]\<rparr>"
    by (simp add: demo_defs)
  from kernel_root_shadows [OF g(1) m demo_paths(4) f] show ?thesis by fastforce
qed

section \<open>A method that is not there\<close>

lemma kernel_lzma_created:
  assumes "k_compressors k = kernel_compressors bld lib"
    and "kernel_create_type env k (compression_code compression_type_lzma) = (Some i, k')"
  shows "kc_uncompress (k_compressors k' ! i) = kernel_lzma_uncompress"
proof -
  have c: "i < length (k_compressors k)" "compression_code (kc_type (k_compressors k ! i)) = compression_code compression_type_lzma"
    "kc_uncompress (k_compressors k' ! i) = kc_uncompress (k_compressors k ! i)"
    using create_scan_ok [OF assms(2) [unfolded kernel_create_type_def]] by auto
  then have "k_compressors k ! i \<in> set (kernel_compressors bld lib)" using assms(1) by (metis nth_mem)
  then show ?thesis using c(2,3) by (auto simp: kernel_compressors_def Let_def split: if_splits)
qed

lemma image_super:
  assumes "image_ok decomp opt s nodes img"
  shows "super_of_bytes (take 152 img) = s"
proof -
  obtain rest where "img = super_bytes s @ rest" using assms unfolding image_ok_def layout_ok_def by blast
  moreover have "super_of_bytes (super_bytes s) = s" by simp
  ultimately show ?thesis by simp
qed

lemma kc_result: "kc_uncompress (k_compressors k ! c) src n = (rc, out) \<Longrightarrow>
    \<exists>src. fst (kc_uncompress (k_compressors k ! c) src n) = rc"
  by (metis fst_conv)

lemma mounted_uncompressed:
  assumes "image_ok decomp opt s nodes img" and "mount_ok env img" and "int (length img) < 2 ^ 31 - 2 ^ 17"
    and "smashfs_fill_super env k = Ok (k', Some m)"
  shows "\<exists>k2 c src. kernel_create_type env (k\<lparr>k_cache := Cache (uint (sb_block_size s))\<rparr>) (sb_compression_type s) =
      (Some c, k2) \<and>
    to_u32 (fst (kc_uncompress (k_compressors k2 ! c) src (uint (sb_inodes_size s)))) = sb_inodes_size s"
proof -
  obtain rest' where "img = super_bytes s @ rest'" "sb_magic s = SMASHFS_MAGIC"
    using assms(1) unfolding image_ok_def layout_ok_def by blast
  obtain log rest where dev: "device_ok env (img @ rest) log" "ke_min_blocksize env = 2 ^ log"
    using assms(2) by (auto simp: mount_ok_def)
  then have h: "heap_ok (ke_alloc env)" "log < 32" by (simp_all add: device_ok_def)
  obtain b0 where b0: "smashfs_read env (2 ^ log) (int log) (replicate 152 0) 0 152 = Ok (152, b0)"
    "take (length (super_bytes s)) b0 = super_bytes s" "length b0 = 152"
    by (rule smashfs_read_at [OF dev(1), of "[]" "super_bytes s" "rest' @ rest" 0 152 "replicate 152 0"])
      (use \<open>img = super_bytes s @ rest'\<close> assms(3) in simp_all)
  then have sb: "super_of_bytes b0 = s" using image_super [OF assms(1)] \<open>img = super_bytes s @ rest'\<close> by simp
  show ?thesis
    using assms(4) h(1) b0(1) sb \<open>sb_magic s = SMASHFS_MAGIC\<close>
    by (simp add: mount_defs Let_def dev(2)
        ffz_not_power [OF h(2)])
      (auto simp: read_inodes_def init_blockcache_def enomem_def kernel_uncompress_def Let_def fill_bail_def
        split: if_splits option.splits prod.splits dest!: kc_result)
qed


text \<open>A method of that type, for which any contract may stand.\<close>

definition demo_lzma :: compressor where
  "demo_lzma = none_method\<lparr>c_type := compression_type_lzma\<rparr>"


section \<open>Reading the device\<close>

text \<open>
  C38. Whatever the size of the blocks of the device, \<open>smashfs_read\<close> delivers any range of it:
  the bytes from the offset on, in front of what the buffer held beyond them.
\<close>

theorem kernel_read_slice:
  assumes "device_ok env dev log" and "0 \<le> offset" and "0 \<le> len" and "offset + len \<le> int (length dev)"
    and "len \<le> int (length buf)" and "offset + len < 2 ^ 31 - 2 ^ 17"
  shows "smashfs_read env (2 ^ log) (int log) buf offset len =
    Ok (len, take (nat len) (drop (nat offset) dev) @ drop (nat len) buf)"
proof -
  have "length (take (nat len) (drop (nat offset) dev)) = nat len" using assms(2-4) by simp
  then show ?thesis using smashfs_read_ok [OF assms] by (simp add: patch_def)
qed

lemma kernel_read_slice_witness:
  "smashfs_read (demo_kenv (replicate 2048 7)) 1024 10 [0, 0, 0] 1023 2 = Ok (2, [7, 7, 0])"
proof -
  have "device_ok (demo_kenv (replicate 2048 7)) (replicate 2048 7) 10"
    by (auto simp: device_ok_def demo_kenv_def heap_ok_def)
  from kernel_read_slice [OF this, of 1023 2 "[0, 0, 0]"] show ?thesis by (simp add: numeral_2_eq_2)
qed

end
