(* ===== verification/Mkfs_Tree.thy ===== *)
theory Mkfs_Tree
  imports Mkfs_Scan Kernel_Properties
begin

text \<open>
  What \<open>sources_scan\<close> makes of a directory tree: the table holds a node for every directory and
  file, the entries of a directory are its children, in order.  A source tree lists the children
  of a directory in the order in which \<open>fts_read\<close> delivers them, by \<open>fts_compare\<close>.
\<close>

section \<open>Source trees\<close>

datatype source =
  Dir (src_name: memory) (src_stat: stat) (src_children: "source list")
| File (src_name: memory) (src_stat: stat) (src_content: memory)
| Link (src_name: memory) (src_stat: stat) (src_target: memory)
| Special (src_name: memory) (src_stat: stat)

definition src_entry :: "nat \<Rightarrow> nat \<Rightarrow> fts_info \<Rightarrow> source \<Rightarrow> ftsent" where
  "src_entry parent a info t =
     \<lparr>fts_address = a, fts_parent = parent, fts_info = info, fts_name = src_name t, fts_accpath = src_name t,
      fts_statp = src_stat t, fts_opens = True,
      fts_reads = (case t of File name st d \<Rightarrow> Some d | _ \<Rightarrow> None),
      fts_readlinks = (case t of Link name st p \<Rightarrow> Some p | _ \<Rightarrow> None)\<rparr>"

text \<open>
  The entries of a forest below \<open>parent\<close> in preorder, with addresses from \<open>a\<close> on, and the next
  address.  A directory is delivered before and after its children.
\<close>

fun src_count :: "source \<Rightarrow> nat" where
  "src_count (Dir name st cs) = 1 + sum_list (map src_count cs)"
| "src_count t = 1"

fun fts_walk :: "nat \<Rightarrow> nat \<Rightarrow> source \<Rightarrow> ftsent list"
  and fts_walks :: "nat \<Rightarrow> nat \<Rightarrow> source list \<Rightarrow> ftsent list" where
  "fts_walk parent a (Dir name st cs) =
     [src_entry parent a FTS_D (Dir name st cs)] @ fts_walks a (a + 1) cs @
     [src_entry parent a FTS_DP (Dir name st cs)]"
| "fts_walk parent a (File name st d) = [src_entry parent a FTS_F (File name st d)]"
| "fts_walk parent a (Link name st p) = [src_entry parent a FTS_SL (Link name st p)]"
| "fts_walk parent a (Special name st) = [src_entry parent a FTS_DEFAULT (Special name st)]"
| "fts_walks parent a [] = []"
| "fts_walks parent a (t # ts) = fts_walk parent a t @ fts_walks parent (a + src_count t) ts"

text \<open>The trees that get a node.\<close>

definition src_stored :: "source \<Rightarrow> bool" where
  "src_stored t \<longleftrightarrow> (case t of Special name st \<Rightarrow> False | _ \<Rightarrow> True)"

definition src_type :: "source \<Rightarrow> inode_type" where
  "src_type t = (case t of Dir name st cs \<Rightarrow> directory | File name st d \<Rightarrow> regular_file
     | Link name st p \<Rightarrow> symbolic_link | Special name st \<Rightarrow> fifo)"

text \<open>A tree as a file system has it: statuses agree with what they are of, siblings differ.\<close>

definition name_ok :: "memory \<Rightarrow> bool" where
  "name_ok name \<longleftrightarrow> name \<noteq> [] \<and> 0 \<notin> set name \<and> 0x2F \<notin> set name \<and> name \<noteq> [0x2E] \<and> name \<noteq> [0x2E, 0x2E] \<and>
     length name < 256"

definition stat_ok :: "stat \<Rightarrow> bool" where
  "stat_ok st \<longleftrightarrow> u32_range (st_uid st) \<and> u32_range (st_gid st) \<and> u32_range (st_ctime st) \<and> u32_range (st_mtime st)"

definition in_order :: "source list \<Rightarrow> bool" where
  "in_order cs \<longleftrightarrow>
     sorted_wrt (\<lambda>a b. fts_compare (src_entry 0 0 FTS_DEFAULT a) (src_entry 0 0 FTS_DEFAULT b) < 0) cs"

lemma in_order_names: "in_order cs \<longleftrightarrow> sorted_wrt (\<lambda>a b. strcmp (src_name a) (src_name b) < 0) cs"
  by (simp add: in_order_def fts_compare_def src_entry_def)

fun source_ok :: "source \<Rightarrow> bool" where
  "source_ok (Dir name st cs) \<longleftrightarrow> name_ok name \<and> stat_ok st \<and> type_of_mode (st_mode st) = Some directory \<and>
     in_order cs \<and> (\<forall>c \<in> set cs. source_ok c)"
| "source_ok (File name st d) \<longleftrightarrow> name_ok name \<and> stat_ok st \<and> type_of_mode (st_mode st) = Some regular_file \<and>
     st_size st = int (length d) \<and> length d < 2 ^ 31"
| "source_ok (Link name st p) \<longleftrightarrow> name_ok name \<and> stat_ok st \<and> type_of_mode (st_mode st) = Some symbolic_link \<and>
     int (length p) \<le> st_size st \<and> st_size st < 2 ^ 31 - 1 \<and> 0 \<notin> set p"
| "source_ok (Special name st) \<longleftrightarrow> name_ok name \<and>
     type_of_mode (st_mode st) \<in> {Some character_device, Some block_device, Some fifo, Some socket}"

text \<open>How much the nodes of a tree hold, its directories alone and all.\<close>

fun src_dirs :: "source \<Rightarrow> nat" where
  "src_dirs (Dir name st cs) = 8 + sum_list (map (\<lambda>c. 12 + length (src_name c) + src_dirs c) cs)"
| "src_dirs t = 0"

fun src_bytes :: "source \<Rightarrow> nat" where
  "src_bytes (Dir name st cs) = 8 + sum_list (map (\<lambda>c. 12 + length (src_name c) + src_bytes c) cs)"
| "src_bytes (File name st d) = length d"
| "src_bytes (Link name st p) = length p + 1"
| "src_bytes (Special name st) = 0"

fun src_depth :: "source \<Rightarrow> nat" where
  "src_depth (Dir name st cs) = 1 + Max (insert 0 (src_depth ` set cs))"
| "src_depth t = 1"

section \<open>The table of a tree\<close>

text \<open>
  Node \<open>i\<close> stands for a tree, and its directories are not among the first \<open>lo\<close> nodes.  The
  attributes of a file are its own if duplicates are kept.
\<close>

definition node_attrs :: "bool \<Rightarrow> mnode \<Rightarrow> source \<Rightarrow> bool" where
  "node_attrs nd n t \<longleftrightarrow> n_type n = inode_code (src_type t) \<and>
     (nd \<or> src_type t = directory \<longrightarrow>
        (let m = st_mode (src_stat t) in
         n_owner_mode n = class_mode m 0x100 0x80 0x40 \<and> n_group_mode n = class_mode m 0x20 0x10 0x8 \<and>
         n_other_mode n = class_mode m 0x4 0x2 0x1 \<and> n_uid n = st_uid (src_stat t) \<and> n_gid n = st_gid (src_stat t) \<and>
         n_ctime n = st_ctime (src_stat t) \<and> n_mtime n = st_mtime (src_stat t)))"

fun stands_for :: "bool \<Rightarrow> mnode list \<Rightarrow> int \<Rightarrow> int \<Rightarrow> source \<Rightarrow> bool" where
  "stands_for nd nodes lo i (Dir name st cs) \<longleftrightarrow> lo \<le> i \<and> i < int (length nodes) \<and>
     node_attrs nd (nodes ! nat i) (Dir name st cs) \<and>
     (\<exists>p es. n_payload (nodes ! nat i) = Directory_payload p es \<and>
        list_all2 (\<lambda>e c. de_name e = src_name c \<and> de_type e = inode_code (src_type c) \<and>
          stands_for nd nodes lo (de_number e) c) es (filter src_stored cs))"
| "stands_for nd nodes lo i (File name st d) \<longleftrightarrow> 0 \<le> i \<and> i < int (length nodes) \<and>
     node_attrs nd (nodes ! nat i) (File name st d) \<and> n_payload (nodes ! nat i) = File_payload d"
| "stands_for nd nodes lo i (Link name st p) \<longleftrightarrow> 0 \<le> i \<and> i < int (length nodes) \<and>
     node_attrs nd (nodes ! nat i) (Link name st p) \<and> n_payload (nodes ! nat i) = Link_payload (p @ [0])"
| "stands_for nd nodes lo i (Special name st) \<longleftrightarrow> False"

section \<open>The invariant of the table\<close>

definition before :: "memory \<Rightarrow> memory \<Rightarrow> bool" where
  "before a b \<longleftrightarrow> strcmp a b < 0"

definition entry_good :: "nat \<Rightarrow> dentry \<Rightarrow> bool" where
  "entry_good k e \<longleftrightarrow> 0 \<le> de_number e \<and> de_number e < int k \<and> 1 \<le> de_type e \<and> de_type e \<le> 3 \<and> name_ok (de_name e)"

text \<open>A node of a table of \<open>k\<close> nodes.\<close>

definition node_good :: "nat \<Rightarrow> mnode \<Rightarrow> bool" where
  "node_good k n \<longleftrightarrow>
     0 \<le> n_owner_mode n \<and> n_owner_mode n < 8 \<and> 0 \<le> n_group_mode n \<and> n_group_mode n < 8 \<and>
     0 \<le> n_other_mode n \<and> n_other_mode n < 8 \<and> u32_range (n_uid n) \<and> u32_range (n_gid n) \<and>
     u32_range (n_ctime n) \<and> u32_range (n_mtime n) \<and> ntype_ok n \<and>
     (case n_payload n of
        No_payload \<Rightarrow> False
      | File_payload d \<Rightarrow> n_type n = inode_code regular_file \<and> length d < 2 ^ 31
      | Directory_payload p es \<Rightarrow> n_type n = inode_code directory \<and> 0 \<le> p \<and> p < int k \<and>
          (\<forall>e \<in> set es. entry_good k e) \<and> sorted_wrt before (map de_name es)
      | Link_payload p \<Rightarrow> n_type n = inode_code symbolic_link \<and> length p < 2 ^ 31 \<and>
          (\<exists>q. p = q @ [0] \<and> 0 \<notin> set q))"

definition table_good :: "mnode list \<Rightarrow> bool" where
  "table_good t \<longleftrightarrow> numbered t \<and> (\<forall>n \<in> set t. node_good (length t) n)"

definition dir_bound :: "payload \<Rightarrow> nat" where
  "dir_bound p = (case p of Directory_payload q es \<Rightarrow> payload_bound p | _ \<Rightarrow> 0)"

abbreviation all_dirs :: "mnode list \<Rightarrow> nat" where
  "all_dirs t \<equiv> sum_list (map (\<lambda>n. dir_bound (n_payload n)) t)"

abbreviation all_bytes :: "mnode list \<Rightarrow> nat" where
  "all_bytes t \<equiv> sum_list (map (\<lambda>n. payload_bound (n_payload n)) t)"

lemma numbered_nth: "numbered t \<Longrightarrow> i < length t \<Longrightarrow> n_number (t ! i) = int i"
  unfolding numbered_def by (metis nth_map nth_upt add_0 diff_zero length_map length_upt)

lemma numberedI: "(\<And>i. i < length t \<Longrightarrow> n_number (t ! i) = int i) \<Longrightarrow> numbered t"
  unfolding numbered_def by (intro nth_equalityI) simp_all

lemma numbered_update:
  "numbered t \<Longrightarrow> p < length t \<Longrightarrow> map (\<lambda>m. if n_number m = int p then f m else m) t = t[p := f (t ! p)]"
  by (intro nth_equalityI) (auto simp: numbered_nth nth_list_update)

lemma numbered_find:
  assumes "numbered t" and "p < length t"
  shows "find (\<lambda>m. n_number m = int p) t = Some (t ! p)"
  using assms numbered_nth [OF assms(1)] by (auto simp: find_Some_iff intro!: exI [of _ p])

lemma node_good_mono: "node_good k n \<Longrightarrow> k \<le> k' \<Longrightarrow> node_good k' n"
  by (auto simp: node_good_def entry_good_def split: payload.splits)

text \<open>The permissions of a class are its three bits.\<close>

lemma class_mode_cases:
  "class_mode m r w x = (if m AND r \<noteq> 0 then 1 else 0) + (if m AND w \<noteq> 0 then 2 else 0) + (if m AND x \<noteq> 0 then 4 else 0)"
  by (simp add: class_mode_def Let_def)

lemma class_mode_range: "0 \<le> class_mode m r w x" "class_mode m r w x < 8"
  by (simp_all add: class_mode_cases)

lemma strcmp_eq: "strcmp a b = 0 \<longleftrightarrow> a = b"
  by (induction a b rule: strcmp.induct) auto

lemma c_str_stop: "0 \<notin> set q \<Longrightarrow> c_str (q @ [0]) = q"
  unfolding c_str_def by (induction q) auto

text \<open>What a search for a duplicate finds.\<close>

lemma same_file_found:
  assumes "table_good t" and "find (same_file d) t = Some n"
  shows "\<exists>j < length t. n = t ! j \<and> n_number n = int j \<and> n_payload n = File_payload d \<and> n_type n = inode_code regular_file"
proof -
  obtain j where j: "j < length t" "n = t ! j" "same_file d n" using assms(2) by (auto simp: find_Some_iff)
  moreover have "n_number n = int j" using assms(1) j numbered_nth by (simp add: table_good_def)
  ultimately show ?thesis by (auto simp: same_file_def split: payload.splits)
qed

lemma same_link_found:
  assumes "table_good t" and "find (same_link (p @ [0])) t = Some n" and "0 \<notin> set p"
  shows "\<exists>j < length t. n = t ! j \<and> n_number n = int j \<and> n_payload n = Link_payload (p @ [0]) \<and> n_type n = inode_code symbolic_link"
proof -
  obtain j where j: "j < length t" "n = t ! j" "same_link (p @ [0]) n" using assms(2) by (auto simp: find_Some_iff)
  then have n: "n_number n = int j" "node_good (length t) n"
    using assms(1) numbered_nth by (auto simp: table_good_def)
  obtain p' where p': "n_payload n = Link_payload p'" "strcmp (c_str p') (c_str (p @ [0])) = 0"
    "n_type n = inode_code symbolic_link"
    using j(3) by (auto simp: same_link_def split: payload.splits)
  obtain q where "p' = q @ [0]" "0 \<notin> set q" using n(2) p'(1) by (auto simp: node_good_def)
  then have "p' = p @ [0]" using p'(2) assms(3) by (simp add: strcmp_eq c_str_stop)
  with j(1,2) n(1) p'(1,3) show ?thesis by auto
qed

section \<open>One node\<close>

lemma directory_memory_bound: "directory_memory es \<le> 16 + 2 * int (payload_bound (Directory_payload p es))"
proof -
  have "sum_list (map (\<lambda>e. 24 + de_length e) es) \<le> int (2 * sum_list (map (\<lambda>e. 12 + length (de_name e)) es))"
    by (induction es) (simp_all add: de_length_def)
  then show ?thesis
    by (simp add: directory_memory_def payload_bound_def sizeof_directory_def sizeof_directory_entry_def)
qed

lemma all_dirs_nth:
  assumes "p < length t"
  shows "dir_bound (n_payload (t ! p)) \<le> all_dirs t"
  by (rule member_le_sum_list) (use assms in auto)

text \<open>The node of a directory that is being filled: its address, its number, its parent and its entries.\<close>

definition open_directory :: "scan \<Rightarrow> nat \<Rightarrow> nat \<Rightarrow> int \<Rightarrow> dentry list \<Rightarrow> bool" where
  "open_directory s parent p q es \<longleftrightarrow> table_good (sc_table s) \<and> sc_id s = int (length (sc_table s)) \<and>
     sc_pointer s parent = Node (int p) \<and> p < length (sc_table s) \<and>
     n_payload (sc_table s ! p) = Directory_payload q es"

lemma enter_node_ok:
  assumes h: "heap_ok alloc" and o: "open_directory s parent p q es"
    and b: "all_dirs (sc_table s) + length name < 2 ^ 60"
  shows "enter_node alloc (sc_table s) (Node (int p)) name n = Ok (Some ((sc_table s)[p :=
    add_entry \<lparr>de_number = n_number n, de_type = n_type n, de_name = name\<rparr> (sc_table s ! p)]))"
proof -
  let ?t = "sc_table s"
  have t: "numbered ?t" "p < length ?t" "n_payload (?t ! p) = Directory_payload q es" "node_good (length ?t) (?t ! p)"
    using o by (auto simp: open_directory_def table_good_def)
  have "payload_bound (Directory_payload q es) \<le> all_dirs ?t"
    using all_dirs_nth [OF t(2)] t(3) by (simp add: dir_bound_def)
  then have "directory_memory es + 24 + int (length name) < 2 ^ 62"
    using directory_memory_bound [of es q] b by simp
  moreover have "0 \<le> sum_list (map (\<lambda>e. 24 + de_length e) es)" by (intro sum_list_nonneg) (auto simp: de_length_def)
  then have "0 \<le> directory_memory es"
    by (simp add: directory_memory_def sizeof_directory_def sizeof_directory_entry_def)
  ultimately have "malloc_ok alloc (directory_memory es + 24 + int (length name))" using h by simp
  moreover have "n_type (?t ! p) = inode_code directory" using t(3,4) by (simp add: node_good_def)
  ultimately show ?thesis
    using t by (simp add: enter_node_def numbered_find numbered_update sizeof_directory_entry_def)
qed

text \<open>A node that is new or found, in a directory that is open.\<close>

lemma node_new_ok:
  assumes h: "heap_ok alloc" and o: "open_directory s parent p q es"
    and b: "all_dirs (sc_table s) + length (src_name t) < 2 ^ 60"
    and ty: "type_of_mode (st_mode (src_stat t)) = Some typ"
    and c: "node_contents alloc nd (sc_table s) (Node (int p)) typ (src_entry parent a info t)
      (node_attributes (sc_id s) typ (src_entry parent a info t)) = Ok (Some (dup, n))"
  obtains s' where "node_new alloc nd (src_entry parent a info t) s = Ok (s', Some n)"
    and "sc_table s' = (sc_table s)[p := add_entry \<lparr>de_number = n_number n, de_type = n_type n, de_name = src_name t\<rparr>
      (sc_table s ! p)] @ (if dup then [] else [n])"
    and "sc_id s' = sc_id s + (if dup then 0 else 1)"
    and "sc_pointer s' = (sc_pointer s)(a := (if dup then Freed else Node (sc_id s)))"
proof -
  have f: "fts_name (src_entry parent a info t) = src_name t" "fts_parent (src_entry parent a info t) = parent"
    "fts_address (src_entry parent a info t) = a" "fts_statp (src_entry parent a info t) = src_stat t"
    by (simp_all add: src_entry_def)
  have "sc_pointer s parent = Node (int p)" using o by (simp add: open_directory_def)
  then show ?thesis
    using h c ty enter_node_ok [OF h o b, of n] that
    by (simp add: node_new_def f Let_def sizeof_node_def set_pointer_def count_node_def HASH_ADD_def)
qed

lemma add_entry_fields:
  assumes "n_payload m = Directory_payload q es"
  shows "n_payload (add_entry e m) = Directory_payload q (es @ [e])" "n_number (add_entry e m) = n_number m"
    "node_good k (add_entry e m) \<longleftrightarrow> node_good k m \<and> entry_good k e \<and> (\<forall>x \<in> set es. before (de_name x) (de_name e))"
    "add_entry e m = m\<lparr>n_payload := Directory_payload q (es @ [e])\<rparr>"
  using assms by (auto simp: add_entry_def node_good_def ntype_ok_def sorted_wrt_append)

text \<open>The table with one entry more, and perhaps one node more.\<close>

lemma table_extended:
  assumes o: "open_directory s parent p q es" and n: "node_good (length (sc_table s @ xs)) ` set xs \<subseteq> {True}"
    and x: "xs = [] \<or> (\<exists>n. xs = [n] \<and> n_number n = int (length (sc_table s)))"
    and e: "entry_good (length (sc_table s @ xs)) e" "\<forall>x \<in> set es. before (de_name x) (de_name e)"
  defines "t' \<equiv> (sc_table s)[p := add_entry e (sc_table s ! p)] @ xs"
  shows "table_good t'"
    and "all_dirs t' = all_dirs (sc_table s) + 12 + length (de_name e) + all_dirs xs"
    and "all_bytes t' = all_bytes (sc_table s) + 12 + length (de_name e) + all_bytes xs"
    and "p < length t'" and "n_payload (t' ! p) = Directory_payload q (es @ [e])"
proof -
  let ?t = "sc_table s"
  have t: "numbered ?t" "p < length ?t" "n_payload (?t ! p) = Directory_payload q es" "\<forall>n \<in> set ?t. node_good (length ?t) n"
    using o by (auto simp: open_directory_def table_good_def)
  note f = add_entry_fields [OF t(3)]
  have l: "length t' = length (?t @ xs)" by (simp add: t'_def)
  have "numbered t'"
    using x numbered_nth [OF t(1)] t(2) f(2) [of e] by (intro numberedI) (auto simp: t'_def nth_append nth_list_update)
  moreover have "node_good (length t') n" if "n \<in> set t'" for n
  proof -
    have "\<forall>n \<in> set ?t. node_good (length t') n" using t(4) node_good_mono [of "length ?t"] l by auto
    moreover have "node_good (length t') (add_entry e (?t ! p))"
      using calculation t(2) e f(3) l by simp
    moreover have "\<forall>n \<in> set xs. node_good (length t') n" using n l by auto
    moreover have "n \<in> set ?t \<or> n = add_entry e (?t ! p) \<or> n \<in> set xs"
      using that set_update_subset_insert [of ?t p "add_entry e (?t ! p)"] by (auto simp: t'_def)
    ultimately show ?thesis by blast
  qed
  ultimately show "table_good t'" by (simp add: table_good_def)
  have d: "dir_bound (n_payload (?t ! p)) \<le> all_dirs ?t" by (rule all_dirs_nth [OF t(2)])
  have y: "payload_bound (n_payload (?t ! p)) \<le> all_bytes ?t" by (rule member_le_sum_list) (use t(2) in auto)
  show "all_dirs t' = all_dirs ?t + 12 + length (de_name e) + all_dirs xs"
    using d t(2) f(1) by (simp add: t'_def map_update sum_list_update dir_bound_def payload_bound_def t(3))
  show "all_bytes t' = all_bytes ?t + 12 + length (de_name e) + all_bytes xs"
    using y t(2) f(1) by (simp add: t'_def map_update sum_list_update payload_bound_def t(3))
  show "p < length t'" "n_payload (t' ! p) = Directory_payload q (es @ [e])"
    using t(2) f(1) by (simp_all add: t'_def nth_append)
qed

text \<open>What the branches of \<open>node_new\<close> make of a file, a link and a directory.\<close>

definition leaf_payload :: "source \<Rightarrow> payload" where
  "leaf_payload t = (case t of File name st d \<Rightarrow> File_payload d | Link name st p \<Rightarrow> Link_payload (p @ [0]) | _ \<Rightarrow> No_payload)"

lemma attributes_fields:
  fixes number :: int and kind :: inode_type and parent a :: nat and info :: fts_info
  assumes "stat_ok (src_stat t)"
  defines "n \<equiv> node_attributes number kind (src_entry parent a info t)"
  shows "n_number n = number" "n_type n = inode_code kind"
    "src_type t = kind \<Longrightarrow> node_attrs True (n\<lparr>n_ntype := y, n_payload := pl\<rparr>) t"
    "0 \<le> n_owner_mode n" "n_owner_mode n < 8" "0 \<le> n_group_mode n" "n_group_mode n < 8"
    "0 \<le> n_other_mode n" "n_other_mode n < 8"
    "u32_range (n_uid n)" "u32_range (n_gid n)" "u32_range (n_ctime n)" "u32_range (n_mtime n)"
  using assms(1)
  by (simp_all add: n_def node_attributes_def src_entry_def Let_def node_attrs_def class_mode_range stat_ok_def)

lemma leaf_contents:
  assumes h: "heap_ok alloc" and t: "table_good tab" and s: "source_ok src"
    and ty: "src_type src = typ" "typ = regular_file \<or> typ = symbolic_link"
  obtains dup n where "node_contents alloc nd tab parent typ (src_entry a b info src)
      (node_attributes number typ (src_entry a b info src)) = Ok (Some (dup, n))"
    and "n_payload n = leaf_payload src" and "n_type n = inode_code typ"
    and "dup \<Longrightarrow> \<not> nd \<and> (\<exists>j < length tab. n = tab ! j \<and> n_number n = int j)"
    and "\<not> dup \<Longrightarrow> n_number n = number \<and> node_attrs True n src \<and> (\<forall>k. node_good k n)"
proof (cases src)
  case (File name st d)
  let ?e = "src_entry a b info src" and ?n = "node_attributes number typ (src_entry a b info src)"
  have st: "stat_ok (src_stat src)" "st_size st = int (length d)" "length d < 2 ^ 31" "typ = regular_file"
    using s ty by (auto simp: File src_type_def)
  define y where "y = ntype_code (if 4 \<le> length d \<and> take 4 d = [0x7F, 0x45, 0x4C, 0x46] then node_type_elf_file
    else node_type_regular_file)"
  define n where "n = ?n\<lparr>n_ntype := y, n_payload := File_payload d\<rparr>"
  note af = attributes_fields [OF st(1), where number = number and kind = "typ" and parent = a and a = b and info = info]
  have "malloc_ok alloc (8 + int (length d))" using h st(3) by simp
  then have r: "node_contents alloc nd tab parent typ ?e ?n = Ok (Some (or_duplicate nd (same_file d) tab n))"
    using st(2,4) by (simp add: node_contents_def file_contents_def Let_def src_entry_def File n_def y_def)
  have g: "n_number n = number" "node_attrs True n src" "n_payload n = File_payload d" "n_type n = inode_code typ"
    "node_good k n" for k
    using af st(3,4) ty(1) by (simp_all add: n_def node_good_def ntype_ok_def y_def)
  show ?thesis
  proof (cases "if nd then None else find (same_file d) tab")
    case None
    then show ?thesis using that [OF r [unfolded or_duplicate_def None option.case]] g by (simp add: leaf_payload_def File)
  next
    case (Some m)
    have nd: "\<not> nd" "find (same_file d) tab = Some m" using Some by (simp_all split: if_splits)
    from same_file_found [OF t nd(2)] show ?thesis
      using that [OF r [unfolded or_duplicate_def Some option.case]] nd(1) st(4) by (auto simp: leaf_payload_def File)
  qed
next
  case (Link name st p)
  let ?e = "src_entry a b info src" and ?n = "node_attributes number typ (src_entry a b info src)"
  have st: "stat_ok (src_stat src)" "int (length p) \<le> st_size st" "st_size st < 2 ^ 31 - 1" "0 \<notin> set p" "typ = symbolic_link"
    using s ty by (auto simp: Link src_type_def)
  define n where "n = ?n\<lparr>n_ntype := ntype_code node_type_symbolic_link, n_payload := Link_payload (p @ [0])\<rparr>"
  note af = attributes_fields [OF st(1), where number = number and kind = "typ" and parent = a and a = b and info = info]
  have "malloc_ok alloc (st_size st + 1)" using h st(2,3) by simp
  then have r: "node_contents alloc nd tab parent typ ?e ?n = Ok (Some (or_duplicate nd (same_link (p @ [0])) tab n))"
    using st(2,5) by (simp add: node_contents_def link_contents_def Let_def src_entry_def Link n_def)
  have g: "n_number n = number" "node_attrs True n src" "n_payload n = Link_payload (p @ [0])" "n_type n = inode_code typ"
    "node_good k n" for k
    using af st(2-5) ty(1) by (simp_all add: n_def node_good_def ntype_ok_def)
  show ?thesis
  proof (cases "if nd then None else find (same_link (p @ [0])) tab")
    case None
    then show ?thesis using that [OF r [unfolded or_duplicate_def None option.case]] g by (simp add: leaf_payload_def Link)
  next
    case (Some m)
    have nd: "\<not> nd" "find (same_link (p @ [0])) tab = Some m" using Some by (simp_all split: if_splits)
    from same_link_found [OF t nd(2) st(4)] show ?thesis
      using that [OF r [unfolded or_duplicate_def Some option.case]] nd(1) st(5) by (auto simp: leaf_payload_def Link)
  qed
qed (use ty in \<open>auto simp: src_type_def\<close>)

section \<open>The whole scan\<close>

lemma stands_for_grows:
  assumes "length nodes \<le> length nodes'" and "\<forall>i < length nodes. i \<noteq> p \<longrightarrow> nodes' ! i = nodes ! i" and "int p < lo"
    and "p < length nodes" and "n_payload (nodes ! p) = Directory_payload q es" and "lo' \<le> lo"
  shows "stands_for nd nodes lo i t \<Longrightarrow> stands_for nd nodes' lo' i t"
proof (induction t arbitrary: i)
  case (Dir name st cs)
  then have i: "lo \<le> i" "i < int (length nodes)" by simp_all
  then have "nat i \<noteq> p" "nat i < length nodes" using assms(3) by auto
  then have e: "nodes' ! nat i = nodes ! nat i" using assms(2) by simp
  obtain p0 es0 where es: "n_payload (nodes ! nat i) = Directory_payload p0 es0"
    "list_all2 (\<lambda>e c. de_name e = src_name c \<and> de_type e = inode_code (src_type c) \<and>
       stands_for nd nodes lo (de_number e) c) es0 (filter src_stored cs)"
    using Dir.prems by auto
  have "list_all2 (\<lambda>e c. de_name e = src_name c \<and> de_type e = inode_code (src_type c) \<and>
       stands_for nd nodes' lo' (de_number e) c) es0 (filter src_stored cs)"
    using es(2) by (rule list.rel_mono_strong) (use Dir.IH in auto)
  with Dir.prems es(1) i assms(1,6) show ?case by (simp add: e)
next
  case (File name st d)
  then have i: "0 \<le> i" "nat i < length nodes" "n_payload (nodes ! nat i) = File_payload d" by auto
  then have "nat i \<noteq> p" using assms(5) by auto
  then have "nodes' ! nat i = nodes ! nat i" using assms(2) i by simp
  with File assms(1) show ?case by simp
next
  case (Link name st x)
  then have i: "0 \<le> i" "nat i < length nodes" "n_payload (nodes ! nat i) = Link_payload (x @ [0])" by auto
  then have "nat i \<noteq> p" using assms(5) by auto
  then have "nodes' ! nat i = nodes ! nat i" using assms(2) i by simp
  with Link assms(1) show ?case by simp
qed simp

text \<open>How the table has grown by the children of node \<open>p\<close>.\<close>

abbreviation lists_child :: "bool \<Rightarrow> mnode list \<Rightarrow> int \<Rightarrow> dentry \<Rightarrow> source \<Rightarrow> bool" where
  "lists_child nd nodes lo e c \<equiv> de_name e = src_name c \<and> de_type e = inode_code (src_type c) \<and>
     stands_for nd nodes lo (de_number e) c"

definition grown :: "bool \<Rightarrow> nat \<Rightarrow> nat \<Rightarrow> nat \<Rightarrow> int \<Rightarrow> dentry list \<Rightarrow> source list \<Rightarrow> scan \<Rightarrow> scan \<Rightarrow> dentry list \<Rightarrow> bool" where
  "grown nd parent a p q es ts s s' es' \<longleftrightarrow>
     (let t = sc_table s; t' = sc_table s' in
      open_directory s' parent p q (es @ es') \<and> (\<forall>b < a. sc_pointer s' b = sc_pointer s b) \<and>
      length t \<le> length t' \<and> length t' \<le> length t + sum_list (map src_count ts) \<and>
      (\<forall>i < length t. i \<noteq> p \<longrightarrow> t' ! i = t ! i) \<and>
      t' ! p = (t ! p)\<lparr>n_payload := Directory_payload q (es @ es')\<rparr> \<and>
      list_all2 (lists_child nd t' (int p + 1)) es' (filter src_stored ts) \<and>
      all_dirs t' \<le> all_dirs t + sum_list (map (\<lambda>c. 12 + length (src_name c) + src_dirs c) ts) \<and>
      all_bytes t' \<le> all_bytes t + sum_list (map (\<lambda>c. 12 + length (src_name c) + src_bytes c) ts))"

text \<open>Before: the children to come are proper, behind the entries that are there, and fit.\<close>

definition ready :: "scan \<Rightarrow> nat \<Rightarrow> nat \<Rightarrow> nat \<Rightarrow> int \<Rightarrow> dentry list \<Rightarrow> source list \<Rightarrow> bool" where
  "ready s parent a p q es ts \<longleftrightarrow> open_directory s parent p q es \<and> parent < a \<and> (\<forall>t \<in> set ts. source_ok t) \<and>
     sorted_wrt before (map de_name es @ map src_name ts) \<and>
     all_dirs (sc_table s) + sum_list (map (\<lambda>c. 12 + length (src_name c) + src_dirs c) ts) < 2 ^ 60"

lemma grown_append:
  assumes g1: "grown nd parent a p q es [t] s s1 es1" and g2: "grown nd parent (a + src_count t) p q (es @ es1) ts s1 s2 es2"
    and o: "open_directory s parent p q es"
  shows "grown nd parent a p q es (t # ts) s s2 (es1 @ es2)"
proof -
  let ?t = "sc_table s" and ?t1 = "sc_table s1" and ?t2 = "sc_table s2"
  note g1 = g1 [unfolded grown_def Let_def] and g2 = g2 [unfolded grown_def Let_def]
  have p: "p < length ?t" "p < length ?t1" "n_payload (?t1 ! p) = Directory_payload q (es @ es1)"
    using o g1 by (auto simp: open_directory_def)
  have "list_all2 (lists_child nd ?t2 (int p + 1)) es1 (filter src_stored [t])"
  proof (rule list.rel_mono_strong)
    show "list_all2 (lists_child nd ?t1 (int p + 1)) es1 (filter src_stored [t])" using g1 by blast
    show "lists_child nd ?t2 (int p + 1) e c" if "lists_child nd ?t1 (int p + 1) e c" for e c
      using that stands_for_grows [of ?t1 ?t2 p "int p + 1" q "es @ es1" "int p + 1" nd "de_number e" c] g2 p by simp
  qed
  moreover have "list_all2 (lists_child nd ?t2 (int p + 1)) es2 (filter src_stored ts)" using g2 by blast
  ultimately have "list_all2 (lists_child nd ?t2 (int p + 1)) (es1 @ es2) (filter src_stored [t] @ filter src_stored ts)"
    by (rule list_all2_appendI)
  then have l: "list_all2 (lists_child nd ?t2 (int p + 1)) (es1 @ es2) (filter src_stored (t # ts))"
    by (cases "src_stored t") simp_all
  have c: "a \<le> a + src_count t" by simp
  have "\<forall>i < length ?t. i \<noteq> p \<longrightarrow> ?t2 ! i = ?t ! i" using g1 g2 by auto
  moreover have "?t2 ! p = (?t ! p)\<lparr>n_payload := Directory_payload q (es @ es1 @ es2)\<rparr>" using g1 g2 by simp
  moreover have "open_directory s2 parent p q (es @ es1 @ es2)" using g2 by simp
  moreover have "\<forall>b < a. sc_pointer s2 b = sc_pointer s b" using g1 g2 by simp
  ultimately show ?thesis unfolding grown_def Let_def using g1 g2 l by simp
qed

lemma ready_step:
  assumes "ready s parent a p q es (t # ts)" and "grown nd parent a p q es [t] s s1 es1"
  shows "ready s1 parent (a + src_count t) p q (es @ es1) ts"
proof -
  note r = assms(1) [unfolded ready_def] and g = assms(2) [unfolded grown_def Let_def]
  have "set (map de_name es1) \<subseteq> {src_name t} \<and> length es1 \<le> 1"
  proof -
    have "list_all2 (lists_child nd (sc_table s1) (int p + 1)) es1 (if src_stored t then [t] else [])"
      using g by (cases "src_stored t") simp_all
    then show ?thesis by (auto simp: list_all2_Cons2 split: if_splits)
  qed
  then have "map de_name es1 = [] \<or> map de_name es1 = [src_name t]" by (cases es1) auto
  then have "sorted_wrt before (map de_name (es @ es1) @ map src_name ts)"
    using r by (auto simp: sorted_wrt_append)
  then show ?thesis using r g by (auto simp: ready_def)
qed

lemma stands_for_leaf:
  assumes "src_type t = regular_file \<or> src_type t = symbolic_link" and "source_ok t"
    and "0 \<le> i" "i < int (length nodes)" and "n_payload (nodes ! nat i) = leaf_payload t"
    and "n_type (nodes ! nat i) = inode_code (src_type t)" and "nd \<Longrightarrow> node_attrs True (nodes ! nat i) t"
  shows "stands_for nd nodes lo i t"
proof -
  have "node_attrs nd (nodes ! nat i) t" using assms(1,6,7) by (cases nd) (auto simp: node_attrs_def)
  with assms show ?thesis by (cases t) (auto simp: src_type_def leaf_payload_def)
qed

text \<open>A file or a link: the node is new, or one of the table is entered again.\<close>

lemma leaf_grown:
  assumes h: "heap_ok alloc" and r: "ready s parent a p q es [t]"
    and ty: "src_type t = regular_file \<or> src_type t = symbolic_link"
  shows "\<exists>s' es' n. node_new alloc nd (src_entry parent a info t) s = Ok (s', n) \<and> grown nd parent a p q es [t] s s' es'"
proof -
  let ?t = "sc_table s"
  note r = r [unfolded ready_def]
  have o: "open_directory s parent p q es" and ok: "source_ok t" and pa: "parent < a" using r by auto
  have tg: "table_good ?t" "sc_id s = int (length ?t)" "p < length ?t" "n_payload (?t ! p) = Directory_payload q es"
    using o by (auto simp: open_directory_def)
  have m: "type_of_mode (st_mode (src_stat t)) = Some (src_type t)" "name_ok (src_name t)"
    using ok ty by (cases t; auto simp: src_type_def)+
  obtain dup n where c: "node_contents alloc nd ?t (Node (int p)) (src_type t) (src_entry parent a info t)
      (node_attributes (sc_id s) (src_type t) (src_entry parent a info t)) = Ok (Some (dup, n))"
    "n_payload n = leaf_payload t" "n_type n = inode_code (src_type t)"
    "dup \<Longrightarrow> \<not> nd \<and> (\<exists>j < length ?t. n = ?t ! j \<and> n_number n = int j)"
    "\<not> dup \<Longrightarrow> n_number n = sc_id s \<and> node_attrs True n t \<and> (\<forall>k. node_good k n)"
    by (rule leaf_contents [OF h tg(1) ok HOL.refl ty, where nd = nd and parent = "Node (int p)" and a = parent and b = a and
      info = info and number = "sc_id s"]) blast
  define e where "e = \<lparr>de_number = n_number n, de_type = n_type n, de_name = src_name t\<rparr>"
  define xs where "xs = (if dup then [] else [n])"
  have b: "all_dirs ?t + length (src_name t) < 2 ^ 60" using r by simp
  obtain s' where s': "node_new alloc nd (src_entry parent a info t) s = Ok (s', Some n)"
    "sc_table s' = ?t[p := add_entry e (?t ! p)] @ xs" "sc_id s' = sc_id s + (if dup then 0 else 1)"
    "sc_pointer s' = (sc_pointer s)(a := (if dup then Freed else Node (sc_id s)))"
    using node_new_ok [OF h o b m(1) c(1)] by (auto simp: e_def xs_def)
  have num: "0 \<le> n_number n" "n_number n < int (length (?t @ xs))" "sc_table s' ! nat (n_number n) = n \<or> n_number n = int p \<and> dup"
    using c(4,5) tg(2) by (cases dup; auto simp: xs_def s'(2) nth_append nth_list_update)+
  have np: "\<not> (n_number n = int p \<and> dup)"
  proof
    assume d: "n_number n = int p \<and> dup"
    then have "n = ?t ! p" using c(4) by auto
    with tg(4) c(2) show False by (cases t) (auto simp: leaf_payload_def)
  qed
  have eg: "entry_good (length (?t @ xs)) e" "\<forall>x \<in> set es. before (de_name x) (de_name e)"
    using num(1,2) c(3) ty m(2) r by (auto simp: entry_good_def e_def sorted_wrt_append)
  have xg: "node_good (length (?t @ xs)) ` set xs \<subseteq> {True}" using c(5) by (auto simp: xs_def)
  have xn: "xs = [] \<or> (\<exists>n. xs = [n] \<and> n_number n = int (length ?t))" using c(5) tg(2) by (auto simp: xs_def)
  note te = table_extended [OF o xg xn eg, folded s'(2)]
  have "open_directory s' parent p q (es @ [e])"
    using te(1,4,5) s'(3,4) tg(2) o pa by (auto simp: open_directory_def s'(2) xs_def)
  moreover have "list_all2 (lists_child nd (sc_table s') (int p + 1)) [e] (filter src_stored [t])"
  proof -
    have "stands_for nd (sc_table s') (int p + 1) (n_number n) t"
    proof (rule stands_for_leaf [OF ty ok num(1)])
      show "n_number n < int (length (sc_table s'))" using num(2) s'(2) by simp
      show "n_payload (sc_table s' ! nat (n_number n)) = leaf_payload t"
        "n_type (sc_table s' ! nat (n_number n)) = inode_code (src_type t)"
        using num(3) np c(2,3) by auto
      show "node_attrs True (sc_table s' ! nat (n_number n)) t" if nd using num(3) np c(4,5) that by auto
    qed
    moreover have "src_stored t" using ty by (cases t) (auto simp: src_stored_def src_type_def)
    ultimately show ?thesis using c(3) by (simp add: e_def)
  qed
  moreover have "all_dirs xs \<le> src_dirs t" "all_bytes xs \<le> src_bytes t"
    using c(2) ty by (cases t; auto simp: xs_def leaf_payload_def dir_bound_def payload_bound_def src_type_def)+
  moreover have "length xs \<le> 1" "1 \<le> src_count t" by (simp_all add: xs_def) (cases t; simp)
  moreover have "length (sc_table s') = length ?t + length xs" by (simp add: s'(2))
  moreover have "sc_table s' ! p = (?t ! p)\<lparr>n_payload := Directory_payload q (es @ [e])\<rparr>"
    "\<forall>i < length ?t. i \<noteq> p \<longrightarrow> sc_table s' ! i = ?t ! i"
    using tg(3) add_entry_fields(4) [OF tg(4), of e] by (simp_all add: s'(2) nth_append)
  moreover have "\<forall>b < a. sc_pointer s' b = sc_pointer s b" by (simp add: s'(4))
  ultimately have "grown nd parent a p q es [t] s s' [e]"
    unfolding grown_def Let_def using te(2,3) by (simp add: e_def)
  with s'(1) show ?thesis by blast
qed

text \<open>A device, pipe or socket gets no node.\<close>

lemma special_grown:
  assumes h: "heap_ok alloc" and r: "ready s parent a p q es [Special name st]"
  shows "\<exists>s'. node_new alloc nd (src_entry parent a info (Special name st)) s = Ok (s', None) \<and>
    grown nd parent a p q es [Special name st] s s' []"
proof -
  note r = r [unfolded ready_def]
  have o: "open_directory s parent p q es" and pa: "parent < a" using r by auto
  have "type_of_mode (st_mode st) \<in> {Some character_device, Some block_device, Some fifo, Some socket}" using r by simp
  then have "node_new alloc nd (src_entry parent a info (Special name st)) s = Ok (set_pointer a Freed s, None)"
    using h by (auto simp: node_new_def node_contents_def Let_def sizeof_node_def src_entry_def)
  moreover have "grown nd parent a p q es [Special name st] s (set_pointer a Freed s) []"
    using o pa by (auto simp: grown_def Let_def set_pointer_def open_directory_def src_stored_def)
  ultimately show ?thesis by blast
qed

text \<open>A directory: its node, then its children in it.\<close>

lemma directory_ready:
  assumes h: "heap_ok alloc" and r: "ready s parent a p q es [Dir name st cs]"
  obtains s' n where "node_new alloc nd (src_entry parent a info (Dir name st cs)) s = Ok (s', Some n)"
    and "n_number n = int (length (sc_table s))" and "n_payload n = Directory_payload (int p) []"
    and "node_attrs True n (Dir name st cs)" and "\<forall>k. p < k \<longrightarrow> node_good k n"
    and "sc_table s' = (sc_table s)[p := add_entry \<lparr>de_number = int (length (sc_table s)), de_type = inode_code directory,
      de_name = name\<rparr> (sc_table s ! p)] @ [n]"
    and "sc_id s' = sc_id s + 1" and "sc_pointer s' = (sc_pointer s)(a := Node (sc_id s))"
proof -
  let ?d = "Dir name st cs" and ?t = "sc_table s"
  note r = r [unfolded ready_def]
  have o: "open_directory s parent p q es" and ok: "source_ok ?d" using r by auto
  have id: "sc_id s = int (length ?t)" using o by (simp add: open_directory_def)
  have b: "all_dirs ?t + length (src_name ?d) < 2 ^ 60" using r by simp
  let ?n = "node_attributes (sc_id s) directory (src_entry parent a info ?d)"
  define n where "n = ?n\<lparr>n_ntype := ntype_code node_type_directory, n_payload := Directory_payload (int p) []\<rparr>"
  have st: "stat_ok (src_stat ?d)" "type_of_mode (st_mode (src_stat ?d)) = Some directory" using ok by simp_all
  note af = attributes_fields [OF st(1), where number = "sc_id s" and kind = directory and parent = parent and a = a and info = info]
  have c: "node_contents alloc nd ?t (Node (int p)) directory (src_entry parent a info ?d) ?n = Ok (Some (False, n))"
    using h by (simp add: node_contents_def directory_contents_def Let_def sizeof_directory_def n_def)
  have g: "n_number n = sc_id s" "n_type n = inode_code directory" "n_payload n = Directory_payload (int p) []"
    "node_attrs True n ?d" "\<forall>k. p < k \<longrightarrow> node_good k n"
    using af by (auto simp: n_def src_type_def node_good_def ntype_ok_def)
  show ?thesis
    by (rule node_new_ok [OF h o b st(2) c]) (use that g id in simp)
qed

text \<open>The node \<open>k\<close> of a directory after the scan of its children \<open>cs\<close> stands for the directory.\<close>

lemma directory_stands:
  assumes g: "grown nd a (a + 1) k (int p) [] cs s1 s2 es'" and k: "k < length (sc_table s1)" "p < k"
    and n: "sc_table s1 ! k = n" "n_payload n = Directory_payload (int p) []" "node_attrs True n (Dir name st cs)"
  shows "stands_for nd (sc_table s2) (int p + 1) (int k) (Dir name st cs)"
proof -
  let ?t = "sc_table s2"
  note gr = g [unfolded grown_def Let_def]
  have "list_all2 (lists_child nd ?t (int p + 1)) es' (filter src_stored cs)"
  proof (rule list.rel_mono_strong)
    show "list_all2 (lists_child nd ?t (int k + 1)) es' (filter src_stored cs)" using gr by blast
    show "lists_child nd ?t (int p + 1) x c" if "lists_child nd ?t (int k + 1) x c" for x c
      using that stands_for_grows [of ?t ?t k "int k + 1" "int p" es' "int p + 1" nd "de_number x" c] gr k
      by (simp add: open_directory_def)
  qed
  moreover have "?t ! k = n\<lparr>n_payload := Directory_payload (int p) es'\<rparr>" using gr n(1) by simp
  moreover have "node_attrs nd (n\<lparr>n_payload := Directory_payload (int p) es'\<rparr>) (Dir name st cs)"
    using n(3) by (simp add: node_attrs_def src_type_def Let_def)
  moreover have "k < length ?t" using gr k(1) by simp
  ultimately show ?thesis using k(2) by simp
qed

lemma directory_grown:
  assumes h: "heap_ok alloc" and r: "ready s parent a p q es [Dir name st cs]"
    and IH: "\<And>s p q es. ready s a (a + 1) p q es cs \<Longrightarrow>
      \<exists>s' es'. scan_entries alloc nd (fts_walks a (a + 1) cs) s = Ok s' \<and> grown nd a (a + 1) p q es cs s s' es'"
  shows "\<exists>s' es'. scan_entries alloc nd (fts_walk parent a (Dir name st cs)) s = Ok s' \<and>
    grown nd parent a p q es [Dir name st cs] s s' es'"
proof -
  let ?d = "Dir name st cs" and ?t = "sc_table s"
  let ?k = "length ?t"
  note rr = r [unfolded ready_def]
  have o: "open_directory s parent p q es" and ok: "source_ok ?d" and pa: "parent < a" using rr by auto
  have tg: "table_good ?t" "sc_id s = int ?k" "p < ?k" "n_payload (?t ! p) = Directory_payload q es"
    "sc_pointer s parent = Node (int p)"
    using o by (auto simp: open_directory_def)
  obtain s1 n where s1: "node_new alloc nd (src_entry parent a FTS_D ?d) s = Ok (s1, Some n)"
    "n_number n = int ?k" "n_payload n = Directory_payload (int p) []" "node_attrs True n ?d"
    "\<forall>k. p < k \<longrightarrow> node_good k n"
    "sc_table s1 = ?t[p := add_entry \<lparr>de_number = int ?k, de_type = inode_code directory, de_name = name\<rparr> (?t ! p)] @ [n]"
    "sc_id s1 = sc_id s + 1" "sc_pointer s1 = (sc_pointer s)(a := Node (sc_id s))"
    by (rule directory_ready [OF h r, where nd = nd and info = FTS_D])
  define e where "e = \<lparr>de_number = int ?k, de_type = inode_code directory, de_name = name\<rparr>"
  have en: "de_name e = name" "de_number e = int ?k" "de_type e = inode_code directory" by (simp_all add: e_def)
  have eg: "entry_good (length (?t @ [n])) e" "\<forall>x \<in> set es. before (de_name x) (de_name e)"
    using ok rr by (auto simp: entry_good_def en sorted_wrt_append)
  have xg: "node_good (length (?t @ [n])) ` set [n] \<subseteq> {True}" using s1(5) tg(3) by simp
  have xn: "[n] = [] \<or> (\<exists>m. [n] = [m] \<and> n_number m = int ?k)" using s1(2) by simp
  note te = table_extended [OF o xg xn eg, folded e_def, folded s1(6) [folded e_def]]
  have t1: "length (sc_table s1) = Suc ?k" "sc_table s1 ! ?k = n"
    "sc_table s1 ! p = (?t ! p)\<lparr>n_payload := Directory_payload q (es @ [e])\<rparr>" "\<forall>i < ?k. i \<noteq> p \<longrightarrow> sc_table s1 ! i = ?t ! i"
    using tg(3) add_entry_fields(4) [OF tg(4), of e] s1(6) by (simp_all add: nth_append e_def)
  have dn: "all_dirs [n] = 8" "all_bytes [n] = 8" by (simp_all add: s1(3) dir_bound_def payload_bound_def)
  have "open_directory s1 a ?k (int p) []"
    using te(1) t1(1,2) s1(3,7,8) tg(2) by (simp add: open_directory_def)
  moreover have "sorted_wrt before (map src_name cs)" using ok by (simp add: in_order_names before_def sorted_wrt_map)
  moreover have "all_dirs (sc_table s1) + sum_list (map (\<lambda>c. 12 + length (src_name c) + src_dirs c) cs) < 2 ^ 60"
    using rr te(2) dn(1) by (simp add: en)
  ultimately have "ready s1 a (a + 1) ?k (int p) [] cs" using ok by (simp add: ready_def)
  from IH [OF this] obtain s2 es' where s2: "scan_entries alloc nd (fts_walks a (a + 1) cs) s1 = Ok s2"
    "grown nd a (a + 1) ?k (int p) [] cs s1 s2 es'"
    by blast
  let ?t2 = "sc_table s2"
  note g = s2(2) [unfolded grown_def Let_def]
  have sc: "scan_entries alloc nd (fts_walk parent a ?d) s = Ok s2"
  proof -
    have "fts_info (src_entry parent a FTS_D ?d) = FTS_D" "fts_info (src_entry parent a FTS_DP ?d) = FTS_DP"
      by (simp_all add: src_entry_def)
    then show ?thesis using s2(1) by (simp add: s1(1) scan_entries_append skipped_def)
  qed
  have o2: "table_good ?t2" "sc_id s2 = int (length ?t2)" using g by (simp_all add: open_directory_def)
  have p2: "?t2 ! p = (?t ! p)\<lparr>n_payload := Directory_payload q (es @ [e])\<rparr>" "\<forall>i < ?k. i \<noteq> p \<longrightarrow> ?t2 ! i = ?t ! i"
    using g t1 tg(3) by auto
  have ptr: "\<forall>b < a. sc_pointer s2 b = sc_pointer s b" using g s1(8) by simp
  have "open_directory s2 parent p q (es @ [e])"
    using o2 ptr pa tg(3,5) p2(1) g t1(1) by (auto simp: open_directory_def)
  moreover have "stands_for nd ?t2 (int p + 1) (int ?k) ?d"
    by (rule directory_stands [OF s2(2) _ tg(3) t1(2) s1(3,4)]) (simp add: t1(1))
  then have "list_all2 (lists_child nd ?t2 (int p + 1)) [e] (filter src_stored [?d])"
    by (simp add: en src_stored_def src_type_def)
  moreover have "length ?t2 \<le> ?k + src_count ?d" "?k \<le> length ?t2" using g t1(1) by simp_all
  moreover have "all_dirs ?t2 \<le> all_dirs ?t + (12 + length name + src_dirs ?d)"
    "all_bytes ?t2 \<le> all_bytes ?t + (12 + length name + src_bytes ?d)"
    using g te(2,3) dn by (simp_all add: en)
  ultimately have "grown nd parent a p q es [?d] s s2 [e]"
    unfolding grown_def Let_def using p2 ptr by simp
  with sc show ?thesis by blast
qed

lemma walks_grown:
  assumes h: "heap_ok alloc"
  shows "ready s parent a p q es [t] \<Longrightarrow>
      \<exists>s' es'. scan_entries alloc nd (fts_walk parent a t) s = Ok s' \<and> grown nd parent a p q es [t] s s' es'"
    and "ready s parent a p q es ts \<Longrightarrow>
      \<exists>s' es'. scan_entries alloc nd (fts_walks parent a ts) s = Ok s' \<and> grown nd parent a p q es ts s s' es'"
proof (induction parent a t and parent a ts arbitrary: s p q es and s p q es rule: fts_walk_fts_walks.induct)
  case (1 parent a name st cs)
  from directory_grown [OF h 1(2)] 1(1) show ?case by blast
next
  case (2 parent a name st d)
  have "src_type (File name st d) = regular_file" by (simp add: src_type_def)
  with leaf_grown [OF h 2, of nd FTS_F] show ?case by (auto simp: src_entry_def skipped_def)
next
  case (3 parent a name st d)
  have "src_type (Link name st d) = symbolic_link" by (simp add: src_type_def)
  with leaf_grown [OF h 3, of nd FTS_SL] show ?case by (auto simp: src_entry_def skipped_def)
next
  case (4 parent a name st)
  from special_grown [OF h 4, of nd FTS_DEFAULT] show ?case by (auto simp: src_entry_def skipped_def)
next
  case (5 parent a)
  then have "grown nd parent a p q es [] s s []" by (auto simp: grown_def Let_def ready_def open_directory_def)
  then show ?case by auto
next
  case (6 parent a t ts)
  have o: "open_directory s parent p q es" and "ready s parent a p q es [t]"
    using 6(3) by (auto simp: ready_def sorted_wrt_append)
  with 6(1) obtain s1 es1 where s1: "scan_entries alloc nd (fts_walk parent a t) s = Ok s1"
    "grown nd parent a p q es [t] s s1 es1"
    by blast
  from 6(2) [OF ready_step [OF 6(3) s1(2)]] obtain s2 es2 where
    s2: "scan_entries alloc nd (fts_walks parent (a + src_count t) ts) s1 = Ok s2"
    "grown nd parent (a + src_count t) p q (es @ es1) ts s1 s2 es2"
    by blast
  from grown_append [OF s1(2) s2(2) o] s1(1) s2(1) show ?case by (auto simp: scan_entries_append)
qed

section \<open>One directory as the source\<close>

text \<open>The source is a directory; its name is a path, of which nothing is asked.\<close>

definition root_ok :: "source \<Rightarrow> bool" where
  "root_ok t \<longleftrightarrow> (case t of
     Dir name st cs \<Rightarrow> stat_ok st \<and> type_of_mode (st_mode st) = Some directory \<and> in_order cs \<and> (\<forall>c \<in> set cs. source_ok c)
   | _ \<Rightarrow> False)"

text \<open>It fits an image, and its directories fit \<open>fuel\<close> turns of a reading loop.\<close>

definition root_fits :: "nat \<Rightarrow> source \<Rightarrow> bool" where
  "root_fits fuel t \<longleftrightarrow> src_count t < 2 ^ 22 \<and> src_bytes t < 2 ^ 31 \<and> src_dirs t < 2 ^ 28 \<and> src_dirs t < fuel"

lemma sources_scan_ok:
  assumes h: "heap_ok alloc" and t: "root_ok t" "src_dirs t < 2 ^ 28" and f: "fts [path] = Some (fts_walk 0 1 t)"
  shows "\<exists>s. sources_scan alloc nd fts [path] scan_init = Ok s \<and> table_good (sc_table s) \<and>
    stands_for nd (sc_table s) 0 0 t \<and> length (sc_table s) \<le> src_count t \<and>
    all_dirs (sc_table s) \<le> src_dirs t \<and> all_bytes (sc_table s) \<le> src_bytes t"
proof (cases t)
  case (Dir name st cs)
  let ?d = "Dir name st cs"
  have st: "stat_ok (src_stat ?d)" "type_of_mode (st_mode st) = Some directory" "in_order cs" "\<forall>c \<in> set cs. source_ok c"
    using t(1) by (simp_all add: root_ok_def Dir)
  define n where "n = (node_attributes 0 directory (src_entry 0 1 FTS_D ?d))
    \<lparr>n_ntype := ntype_code node_type_directory, n_payload := Directory_payload 0 []\<rparr>"
  note af = attributes_fields [OF st(1), where number = 0 and kind = directory and parent = 0 and a = 1 and info = FTS_D]
  have g: "n_number n = 0" "n_payload n = Directory_payload 0 []" "node_attrs True n ?d" "node_good 1 n"
    using af by (auto simp: n_def src_type_def node_good_def ntype_ok_def)
  define s1 where "s1 = \<lparr>sc_table = [n], sc_id = 1, sc_pointer = (\<lambda>_. Null)(1 := Node 0), sc_duplicates = 0,
    sc_regular_files = 0, sc_directories = 1, sc_symbolic_links = 0\<rparr>"
  have s1: "node_new alloc nd (src_entry 0 1 FTS_D ?d) scan_init = Ok (s1, Some n)"
  proof -
    have "fts_statp (src_entry 0 1 FTS_D ?d) = st" "fts_parent (src_entry 0 1 FTS_D ?d) = 0"
      "fts_address (src_entry 0 1 FTS_D ?d) = 1" "n_type (node_attributes 0 directory (src_entry 0 1 FTS_D ?d)) = inode_code directory"
      by (simp_all add: src_entry_def node_attributes_def Let_def)
    then show ?thesis
      using h st(2) by (simp add: node_new_def node_contents_def directory_contents_def enter_node_def Let_def
          sizeof_node_def sizeof_directory_def scan_init_def set_pointer_def count_node_def HASH_ADD_def s1_def n_def)
  qed
  have "open_directory s1 1 0 0 []"
    using g by (simp add: s1_def open_directory_def table_good_def numbered_def)
  moreover have "sorted_wrt before (map src_name cs)" using st(3) by (simp add: in_order_names before_def sorted_wrt_map)
  moreover have "all_dirs (sc_table s1) = 8" by (simp add: s1_def g(2) dir_bound_def payload_bound_def)
  ultimately have "ready s1 1 2 0 0 [] cs" using st(4) t(2) by (simp add: ready_def Dir)
  from walks_grown(2) [OF h this] obtain s2 es where s2: "scan_entries alloc nd (fts_walks 1 2 cs) s1 = Ok s2"
    "grown nd 1 2 0 0 [] cs s1 s2 es"
    by blast
  note gr = s2(2) [unfolded grown_def Let_def]
  have n0: "sc_table s2 ! 0 = n\<lparr>n_payload := Directory_payload 0 es\<rparr>" using gr by (simp add: s1_def)
  have i: "fts_info (src_entry 0 1 FTS_D ?d) = FTS_D" "fts_info (src_entry 0 1 FTS_DP ?d) = FTS_DP"
    by (simp_all add: src_entry_def)
  have "sources_scan alloc nd fts [path] scan_init = Ok s2"
    using h f s2(1) by (simp add: sources_scan_def Dir i skipped_def s1 scan_entries_append del: One_nat_def)
  moreover have "stands_for nd (sc_table s2) 0 0 t"
  proof -
    have "list_all2 (lists_child nd (sc_table s2) 0) es (filter src_stored cs)"
    proof (rule list.rel_mono_strong)
      show "list_all2 (lists_child nd (sc_table s2) 1) es (filter src_stored cs)" using gr by simp
      show "lists_child nd (sc_table s2) 0 x c" if "lists_child nd (sc_table s2) 1 x c" for x c
        using that stands_for_grows [of "sc_table s2" "sc_table s2" 0 1 0 es 0 nd "de_number x" c] gr
        by (simp add: open_directory_def)
    qed
    moreover have "node_attrs nd (n\<lparr>n_payload := Directory_payload 0 es\<rparr>) ?d"
      using g(3) by (simp add: node_attrs_def src_type_def Let_def)
    moreover have "0 < length (sc_table s2)" using gr by (simp add: open_directory_def)
    ultimately show ?thesis using n0 by (simp add: Dir)
  qed
  moreover have "all_bytes (sc_table s1) = 8" "all_dirs (sc_table s1) = 8" "length (sc_table s1) = 1"
    by (simp_all add: s1_def g(2) dir_bound_def payload_bound_def)
  ultimately show ?thesis using gr by (simp add: Dir open_directory_def)
qed (use t in \<open>simp_all add: root_ok_def\<close>)

section \<open>What the table is good for\<close>

lemma before_hd: "before a b \<Longrightarrow> a \<noteq> [] \<Longrightarrow> b \<noteq> [] \<Longrightarrow> hd a \<le> hd b"
  by (cases a; cases b) (auto simp: before_def split: if_splits)

text \<open>What a node and the entries of a directory are good for, when the table is small enough.\<close>

lemma bounded_directory:
  assumes "n \<in> set nodes" and "n_payload n = Directory_payload p es"
  shows "payload_bound (n_payload n) \<le> all_dirs nodes"
proof -
  have "dir_bound (n_payload n) \<le> all_dirs nodes" by (rule member_le_sum_list) (use assms(1) in auto)
  then show ?thesis by (simp add: dir_bound_def assms(2))
qed

lemma node_good_ok:
  assumes g: "node_good k n" and k: "k < 2 ^ 22" and b: "payload_bound (n_payload n) < 2 ^ 31"
  shows "node_ok n"
proof -
  have "payload_ok n"
  proof (cases "n_payload n")
    case (Directory_payload p es)
    have "length es \<le> sum_list (map (\<lambda>e. 12 + length (de_name e)) es)" by (induction es) auto
    then have "length es < 2 ^ 31" using b by (simp add: Directory_payload payload_bound_def)
    then show ?thesis
      using g k by (auto simp: node_good_def Directory_payload payload_ok_def dentry_ok_def u32_range_def
          entry_good_def name_ok_def de_length_def)
  qed (use g in \<open>auto simp: node_good_def payload_ok_def\<close>)
  with g show ?thesis by (auto simp: node_ok_def node_good_def u32_range_def)
qed

lemma node_good_entries:
  assumes "node_good k n" and "n_payload n = Directory_payload p es"
  shows "\<forall>e \<in> set es. name_ok (de_name e) \<and> de_number e < int k" and "sorted (map (\<lambda>e. hd (de_name e)) es)"
proof -
  have g: "\<forall>e \<in> set es. entry_good k e" "sorted_wrt before (map de_name es)"
    using assms by (auto simp: node_good_def)
  then show "\<forall>e \<in> set es. name_ok (de_name e) \<and> de_number e < int k" by (simp add: entry_good_def)
  have "sorted_wrt (\<lambda>x y. hd (de_name x) \<le> hd (de_name y)) es"
    using g(2) unfolding sorted_wrt_map
    by (rule sorted_wrt_mono_rel [rotated]) (use g(1) in \<open>auto simp: entry_good_def name_ok_def intro: before_hd\<close>)
  then show "sorted (map (\<lambda>e. hd (de_name e)) es)" by (simp add: sorted_map)
qed

lemma scanned_good:
  assumes g: "table_good nodes" and ne: "nodes \<noteq> []" and r: "stands_for nd nodes 0 0 t"
    and l: "length nodes \<le> src_count t" "all_dirs nodes \<le> src_dirs t" "all_bytes nodes \<le> src_bytes t"
    and t: "root_ok t" and f: "root_fits fuel t"
  shows "table_ok nodes" "numbered nodes" "directories_ok fuel nodes" "ends_inside nodes" "plain_names nodes"
    "\<forall>n \<in> set nodes. n_type n = inode_code directory \<longrightarrow> payload_bound (n_payload n) < 2 ^ 28"
proof -
  have b: "length nodes < 2 ^ 22" "all_bytes nodes < 2 ^ 31" "all_dirs nodes < 2 ^ 28" "all_dirs nodes < fuel"
    using l f by (simp_all add: root_fits_def)
  have ng: "node_good (length nodes) n" if "n \<in> set nodes" for n using g that by (simp add: table_good_def)
  have pb: "payload_bound (n_payload n) < 2 ^ 31" if "n \<in> set nodes" for n
    using member_le_sum_list [of "payload_bound (n_payload n)" "map (\<lambda>n. payload_bound (n_payload n)) nodes"] that b(2) by simp
  have db: "payload_bound (n_payload n) < 2 ^ 28" "payload_bound (n_payload n) < fuel"
    if "n \<in> set nodes" "n_payload n = Directory_payload p es" for n p es
    using bounded_directory [OF that] b(3,4) by simp_all
  show "table_ok nodes" using ne b node_good_ok [OF ng b(1) pb] by (simp add: table_ok_def)
  show "numbered nodes" using g by (simp add: table_good_def)
  show "directories_ok fuel nodes"
    unfolding directories_ok_def using db node_good_entries [OF ng]
    by (fastforce simp: name_ok_def split: payload.split)
  have "n_type (nodes ! 0) = inode_code directory"
    using r t by (cases t) (auto simp: root_ok_def node_attrs_def src_type_def)
  moreover have "nodes ! 0 \<in> set nodes" using ne by simp
  moreover have "\<forall>n \<in> set nodes. ntype_ok n" using ng by (simp add: node_good_def)
  ultimately show "ends_inside nodes" by (auto simp: ends_inside_def intro!: bexI [of _ "nodes ! 0"])
  show "plain_names nodes"
    unfolding plain_names_def
  proof (intro ballI)
    fix n e assume n: "n \<in> set nodes" and "e \<in> set (case n_payload n of Directory_payload p es \<Rightarrow> es | _ \<Rightarrow> [])"
    then obtain p es where "n_payload n = Directory_payload p es" "e \<in> set es" by (cases "n_payload n") auto
    with node_good_entries(1) [OF ng [OF n]] have "name_ok (de_name e)" by blast
    then show "0x2F \<notin> set (de_name e) \<and> de_name e \<noteq> [0x2E] \<and> de_name e \<noteq> dot_dot"
      by (simp add: name_ok_def dot_dot_def)
  qed
  show "\<forall>n \<in> set nodes. n_type n = inode_code directory \<longrightarrow> payload_bound (n_payload n) < 2 ^ 28"
  proof (intro ballI impI)
    fix n assume n: "n \<in> set nodes" "n_type n = inode_code directory"
    then obtain p es where "n_payload n = Directory_payload p es"
      using ng [OF n(1)] by (cases "n_payload n") (auto simp: node_good_def)
    from db(1) [OF n(1) this] show "payload_bound (n_payload n) < 2 ^ 28" .
  qed
qed

section \<open>Paths\<close>

text \<open>What a path means in a source tree, as far as it is stored.\<close>

fun source_at :: "source \<Rightarrow> memory list \<Rightarrow> source option" where
  "source_at t [] = Some t"
| "source_at (Dir name st cs) (x # xs) =
     (case find (\<lambda>c. src_name c = x) (filter src_stored cs) of None \<Rightarrow> None | Some c \<Rightarrow> source_at c xs)"
| "source_at t (x # xs) = None"

lemma list_all2_find:
  assumes "list_all2 R es cs" and "\<And>e c. R e c \<Longrightarrow> f e = g c"
  shows "(find f es = None \<longleftrightarrow> find g cs = None) \<and> (\<forall>c. find g cs = Some c \<longrightarrow> (\<exists>e. find f es = Some e \<and> R e c))"
  using assms by (induction rule: list_all2_induct) auto

lemma stands_for_path:
  "stands_for nd nodes lo (int i) t \<Longrightarrow> source_at t names = Some t' \<Longrightarrow> 0 \<le> lo \<Longrightarrow>
    \<exists>j. tree_path nodes i names = Some j \<and> stands_for nd nodes lo (int j) t'"
proof (induction t names arbitrary: i rule: source_at.induct)
  case (2 name st cs x xs)
  obtain p es where es: "n_payload (nodes ! i) = Directory_payload p es"
    "list_all2 (lists_child nd nodes lo) es (filter src_stored cs)"
    using 2(2) by auto
  obtain c where c: "find (\<lambda>c. src_name c = x) (filter src_stored cs) = Some c" "source_at c xs = Some t'"
    using 2(3) by (auto split: option.splits)
  obtain e where e: "find (\<lambda>e. de_name e = x) es = Some e" "lists_child nd nodes lo e c"
    using list_all2_find [OF es(2), of "\<lambda>e. de_name e = x" "\<lambda>c. src_name c = x"] c(1) by auto
  have "0 \<le> de_number e" using e(2) 2(4) by (cases c) auto
  then have "stands_for nd nodes lo (int (nat (de_number e))) c" using e(2) by simp
  from 2(1) [OF c(1) this c(2) 2(4)] show ?case using es(1) e(1) by auto
qed auto

lemma list_all2_member: "list_all2 R es cs \<Longrightarrow> e \<in> set es \<Longrightarrow> \<exists>c \<in> set cs. R e c"
  by (induction rule: list_all2_induct) auto

lemma stands_for_nowhere:
  "stands_for nd nodes lo (int i) t \<Longrightarrow> source_at t names = None \<Longrightarrow> 0 \<le> lo \<Longrightarrow> tree_path nodes i names = None"
proof (induction t names arbitrary: i rule: source_at.induct)
  case (2 name st cs x xs)
  obtain p es where es: "n_payload (nodes ! i) = Directory_payload p es"
    "list_all2 (lists_child nd nodes lo) es (filter src_stored cs)"
    using 2(2) by auto
  note f = list_all2_find [OF es(2), of "\<lambda>e. de_name e = x" "\<lambda>c. src_name c = x"]
  show ?case
  proof (cases "find (\<lambda>c. src_name c = x) (filter src_stored cs)")
    case None
    then show ?thesis using f es(1) by auto
  next
    case (Some c)
    then obtain e where e: "find (\<lambda>e. de_name e = x) es = Some e" "lists_child nd nodes lo e c" using f by auto
    have "0 \<le> de_number e" using e(2) 2(4) by (cases c) auto
    then have "stands_for nd nodes lo (int (nat (de_number e))) c" using e(2) by simp
    from 2(1) [OF Some this _ 2(4)] show ?thesis using 2(3) Some es(1) e(1) by simp
  qed
qed auto

text \<open>The table is a tree, as deep as the source.\<close>

lemma src_depth_child: "c \<in> set cs \<Longrightarrow> src_depth c < src_depth (Dir name st cs)"
proof -
  assume "c \<in> set cs"
  then have "src_depth c \<le> Max (insert 0 (src_depth ` set cs))" by (intro Max_ge) auto
  then show ?thesis by simp
qed

lemma stands_for_tree:
  "stands_for nd nodes lo i t \<Longrightarrow> 0 \<le> lo \<Longrightarrow> src_depth t \<le> d \<Longrightarrow> (\<forall>n \<in> set nodes. node_good (length nodes) n) \<Longrightarrow>
    tree_ok nodes d i"
proof (induction t arbitrary: i d)
  case (Dir name st cs)
  obtain d' where d: "d = Suc d'" using Dir.prems(3) by (cases d) auto
  obtain p es where es: "n_payload (nodes ! nat i) = Directory_payload p es" "0 \<le> i" "i < int (length nodes)"
    "list_all2 (lists_child nd nodes lo) es (filter src_stored cs)"
    using Dir.prems(1,2) by auto
  have "0 \<notin> set (de_name e) \<and> tree_ok nodes d' (de_number e)" if e: "e \<in> set es" for e
  proof -
    obtain c where c: "c \<in> set cs" "lists_child nd nodes lo e c"
      using list_all2_member [OF es(4) e] by auto
    have "src_depth c \<le> d'" using c(1) Dir.prems(3) d by simp
    then have "tree_ok nodes d' (de_number e)" using Dir.IH [OF c(1)] c(2) Dir.prems(2,4) by blast
    moreover have "nodes ! nat i \<in> set nodes" using es(2,3) by simp
    then have "node_good (length nodes) (nodes ! nat i)" using Dir.prems(4) by blast
    then have "name_ok (de_name e)" using es(1) e by (auto simp: node_good_def entry_good_def)
    ultimately show ?thesis by (simp add: name_ok_def)
  qed
  with es d show ?case by simp
next
  case (File name st x)
  then show ?case by (cases d) auto
next
  case (Link name st x)
  then show ?case by (cases d) auto
qed simp

end
