(* ===== verification/Mkfs_Main.thy ===== *)
theory Mkfs_Main
  imports Mkfs_Scan Mkfs_Write
begin

text \<open>
  \<open>src/mkfs/mkfs.c\<close>, \<open>main\<close>: the options, the scan of the sources, the image, and the release of
  the node table.  An option is what \<open>getopt_long\<close> returns and leaves in \<open>optarg\<close>, of which
  \<open>None\<close> is the null pointer; a file name or a method is a C string without its zero.
\<close>

section \<open>Numbers in strings\<close>

definition is_space :: "byte \<Rightarrow> bool" where
  "is_space c \<longleftrightarrow> c = 0x20 \<or> (0x09 \<le> c \<and> c \<le> 0x0D)"

fun digits :: "memory \<Rightarrow> int \<Rightarrow> int" where
  "digits [] v = v"
| "digits (c # cs) v = (if 0x30 \<le> c \<and> c \<le> 0x39 then digits cs (10 * v + (uint c - 48)) else v)"

text \<open>\<open>atoi\<close>, the conversion of \<open>strtol\<close>'s result, which stays within a \<open>long\<close>.\<close>

definition atoi :: "memory \<Rightarrow> int" where
  "atoi m =
     (let m = dropWhile is_space m;
          (sign, m) = (case m of [] \<Rightarrow> (1, m)
            | c # cs \<Rightarrow> if c = 0x2D then (-1, cs) else if c = 0x2B then (1, cs) else (1, m))
      in to_s32 (max (- (2 ^ 63)) (min (2 ^ 63 - 1) (sign * digits m 0))))"

section \<open>The options\<close>

record config =
  cf_sources :: "memory list"
  cf_output :: "memory option"
  cf_options :: options
  cf_no_duplicates :: bool
  cf_compressor :: "compressor option"

definition config_init :: "compressor list \<Rightarrow> config" where
  "config_init cs =
     \<lparr>cf_sources = [], cf_output = None,
      cf_options = \<lparr>o_block_size = 2 ^ 20, o_njobs = 8, o_no_group_mode = False, o_no_other_mode = False,
        o_no_uid = False, o_no_gid = False, o_no_ctime = False, o_no_mtime = False, o_no_padding = False\<rparr>,
      cf_no_duplicates = False, cf_compressor = compressor_create_name cs ''none''\<rparr>"

definition chars :: "memory \<Rightarrow> string" where
  "chars m = map (\<lambda>c. char_of (unat c)) m"

definition sizeof_source :: int where "sizeof_source = 24"

text \<open>\<open>strdup\<close>, of which only the allocation can fail.\<close>

definition strdup :: "heap \<Rightarrow> memory \<Rightarrow> memory option" where
  "strdup alloc m = (if malloc_ok alloc (int (length m) + 1) then Some m else None)"

definition set_options :: "(options \<Rightarrow> options) \<Rightarrow> config \<Rightarrow> config" where
  "set_options f cf = cf\<lparr>cf_options := f (cf_options cf)\<rparr>"

text \<open>An option that needs its argument and has none reads a null pointer.\<close>

definition with_optarg :: "memory option \<Rightarrow> (memory \<Rightarrow> 'a) \<Rightarrow> 'a option res" where
  "with_optarg arg f = (case arg of None \<Rightarrow> Undef | Some m \<Rightarrow> Ok (Some (f m)))"

text \<open>One turn of the loop; \<open>None\<close> stands for the \<open>exit(0)\<close> of the help.\<close>

definition main_option :: "heap \<Rightarrow> compressor list \<Rightarrow> int \<times> memory option \<Rightarrow> config \<Rightarrow> config option res" where
  "main_option alloc cs opt cf =
     (let (c, arg) = opt; flag = (\<lambda>f. Ok (Some (set_options f cf))) in
      if c = 0x73 then with_optarg arg (\<lambda>m.
        if malloc_ok alloc sizeof_source \<and> strdup alloc m \<noteq> None
        then cf\<lparr>cf_sources := m # cf_sources cf\<rparr> else cf)
      else if c = 0x6F then with_optarg arg (\<lambda>m. cf\<lparr>cf_output := strdup alloc m\<rparr>)
      else if c = 0x62 then with_optarg arg (\<lambda>m.
        set_options (\<lambda>o'. o'\<lparr>o_block_size := max (min (to_u32 (atoi m)) (2 ^ 20)) (2 ^ 12)\<rparr>) cf)
      else if c = 0x63 then with_optarg arg (\<lambda>m. cf\<lparr>cf_compressor := compressor_create_name cs (chars m)\<rparr>)
      else if c = 0x6A then with_optarg arg (\<lambda>m.
        set_options (\<lambda>o'. o'\<lparr>o_njobs := to_u32 (min (int MAX_JOBS) (atoi m))\<rparr>) cf)
      else if c = 0x100 then flag (\<lambda>o'. o'\<lparr>o_no_group_mode := True\<rparr>)
      else if c = 0x101 then flag (\<lambda>o'. o'\<lparr>o_no_other_mode := True\<rparr>)
      else if c = 0x102 then flag (\<lambda>o'. o'\<lparr>o_no_uid := True\<rparr>)
      else if c = 0x103 then flag (\<lambda>o'. o'\<lparr>o_no_gid := True\<rparr>)
      else if c = 0x104 then flag (\<lambda>o'. o'\<lparr>o_no_ctime := True\<rparr>)
      else if c = 0x105 then flag (\<lambda>o'. o'\<lparr>o_no_mtime := True\<rparr>)
      else if c = 0x106 then flag (\<lambda>o'. o'\<lparr>o_no_padding := True\<rparr>)
      else if c = 0x107 then Ok (Some (cf\<lparr>cf_no_duplicates := True\<rparr>))
      else if c = 0x68 then Ok None
      else Ok (Some cf))"

fun main_options ::
  "heap \<Rightarrow> compressor list \<Rightarrow> (int \<times> memory option) list \<Rightarrow> config \<Rightarrow> config option res" where
  "main_options alloc cs [] cf = Ok (Some cf)"
| "main_options alloc cs (opt # opts) cf =
     rbind (main_option alloc cs opt cf) (\<lambda>r.
     case r of None \<Rightarrow> Ok None | Some cf \<Rightarrow> main_options alloc cs opts cf)"

section \<open>The program\<close>

text \<open>Every node is deleted at the end.\<close>

definition release_nodes :: "mnode list \<Rightarrow> mnode list" where
  "release_nodes t = foldl node_delete t t"

text \<open>
  The exit status, the image if one has been written, and the nodes that are left.  When
  \<open>output_write\<close> fails the file may hold a part of an image.
\<close>

definition mkfs_main ::
  "environment \<Rightarrow> compressor list \<Rightarrow> (memory list \<Rightarrow> ftsent list option) \<Rightarrow> (int \<times> memory option) list \<Rightarrow>
    (int \<times> memory option \<times> mnode list) res" where
  "mkfs_main env cs fts opts =
     rbind (main_options (e_alloc env) cs opts (config_init cs)) (\<lambda>r.
     case r of None \<Rightarrow> Ok (0, None, []) | Some cf \<Rightarrow>
       if cf_sources cf = [] \<or> cf_output cf = None then Ok (-1, None, [])
       else case cf_compressor cf of None \<Rightarrow> Ok (-1, None, []) | Some c \<Rightarrow>
         rbind (sources_scan (e_alloc env) (cf_no_duplicates cf) fts (cf_sources cf) scan_init) (\<lambda>s.
         case output_write env (cf_options cf) c (sc_table s) of
           Ok (nodes, img) \<Rightarrow> Ok (0, Some img, release_nodes nodes)
         | Err e \<Rightarrow> Ok (-1, None, release_nodes (sc_table s))
         | Undef \<Rightarrow> Undef
         | Timeout \<Rightarrow> Timeout))"

lemma release_nodes_Nil: "release_nodes t = []"
proof -
  have "foldl node_delete (xs @ ys) xs = ys" for xs ys :: "mnode list"
    by (induction xs) (simp_all add: node_delete_def HASH_DEL_def)
  from this [of t "[]"] show ?thesis by (simp add: release_nodes_def)
qed

section \<open>What the options can be\<close>

definition jobs_range :: "u32 \<Rightarrow> bool" where
  "jobs_range n \<longleftrightarrow> n \<le> 16 \<or> 2 ^ 31 \<le> n"

definition config_range :: "config \<Rightarrow> bool" where
  "config_range cf \<longleftrightarrow>
     (let o' = cf_options cf in 2 ^ 12 \<le> o_block_size o' \<and> o_block_size o' \<le> 2 ^ 20 \<and>
      jobs_range (o_njobs o'))"

lemma atoi_range: "- (2 ^ 31) \<le> atoi m" "atoi m < 2 ^ 31"
  unfolding atoi_def to_s32_def Let_def split_def
  by (rule signed_take_bit_int_greater_eq_minus_exp, rule signed_take_bit_int_less_exp)

lemma negative_u32: "- (2 ^ 31) \<le> x \<Longrightarrow> x < 0 \<Longrightarrow> 2 ^ 31 \<le> to_u32 x"
proof -
  assume x: "- (2 ^ 31) \<le> x" "x < 0"
  have "uint (to_u32 x) = x mod 2 ^ 32" by (simp add: uint_word_of_int)
  moreover have "(x + 2 ^ 32) mod 2 ^ 32 = x + 2 ^ 32" by (rule mod_pos_pos_trivial) (use x in auto)
  then have "x mod 2 ^ 32 = x + 2 ^ 32" by (simp only: mod_add_self2)
  ultimately have "uint (2 ^ 31 :: u32) \<le> uint (to_u32 x)" using x by simp
  then show ?thesis by (simp only: word_le_def)
qed

lemma small_u32: "0 \<le> x \<Longrightarrow> x \<le> 16 \<Longrightarrow> to_u32 x \<le> 16"
  by (simp add: word_le_def uint_to_u32_id)

lemma main_option_range:
  assumes "main_option alloc cs opt cf = Ok (Some cf')" and "config_range cf"
  shows "config_range cf'"
proof -
  have j: "jobs_range (to_u32 (min (int MAX_JOBS) (atoi m)))" for m
  proof (cases "atoi m < 0")
    case True
    then have "min (int MAX_JOBS) (atoi m) = atoi m" by (simp add: MAX_JOBS_def)
    then show ?thesis using negative_u32 [OF atoi_range(1) True] by (simp add: jobs_range_def)
  next
    case False
    then show ?thesis unfolding jobs_range_def by (intro disjI1 small_u32) (simp_all add: MAX_JOBS_def)
  qed
  have b: "(2 :: u32) ^ 12 \<le> max (min x (2 ^ 20)) (2 ^ 12)" "max (min x (2 ^ 20)) (2 ^ 12) \<le> (2 :: u32) ^ 20" for x
    by (auto simp: max_def min_def)
  show ?thesis
    using assms b j
    by (cases opt) (auto simp: main_option_def Let_def config_range_def set_options_def with_optarg_def
        split: if_splits option.splits)
qed

lemma main_options_range:
  "main_options alloc cs opts cf = Ok (Some cf') \<Longrightarrow> config_range cf \<Longrightarrow> config_range cf'"
proof (induction opts arbitrary: cf)
  case (Cons opt opts)
  then obtain cf1 where "main_option alloc cs opt cf = Ok (Some cf1)" "main_options alloc cs opts cf1 = Ok (Some cf')"
    by (auto split: option.splits)
  with Cons.IH main_option_range [OF _ Cons.prems(2)] show ?case by blast
qed simp

end
