(* ===== verification/Mkfs_Scan_Invariant.thy ===== *)
theory Mkfs_Scan_Invariant
  imports Mkfs_Scan
begin

text \<open>
  What holds of the node table after every scan, whatever \<open>fts_read\<close> delivers and whichever
  system call or allocation fails on the way.
\<close>

definition typed :: "mnode \<Rightarrow> bool" where
  "typed n \<longleftrightarrow> (case n_payload n of
     No_payload \<Rightarrow> False
   | File_payload d \<Rightarrow> n_type n = inode_code regular_file
   | Directory_payload p es \<Rightarrow> n_type n = inode_code directory
   | Link_payload p \<Rightarrow> n_type n = inode_code symbolic_link)"

text \<open>Nodes that a scan without duplicates does not have both.\<close>

definition twins :: "mnode \<Rightarrow> mnode \<Rightarrow> bool" where
  "twins m n \<longleftrightarrow> (\<exists>d. n_payload m = File_payload d \<and> n_payload n = File_payload d) \<or>
     (\<exists>p q. n_payload m = Link_payload p \<and> n_payload n = Link_payload q \<and> c_str p = c_str q)"

definition scan_inv :: "bool \<Rightarrow> scan \<Rightarrow> bool" where
  "scan_inv nd s \<longleftrightarrow>
     map n_number (sc_table s) = map int [0..<length (sc_table s)] \<and> sc_id s = int (length (sc_table s)) \<and>
     (\<forall>n \<in> set (sc_table s). typed n) \<and>
     (\<forall>a p. sc_pointer s a = Node p \<longrightarrow> 0 \<le> p \<and> p < int (length (sc_table s))) \<and>
     (\<not> nd \<longrightarrow> sorted_wrt (\<lambda>m n. \<not> twins m n) (sc_table s)) \<and>
     sc_regular_files s + sc_directories s + sc_symbolic_links s = length (sc_table s) + sc_duplicates s"

lemma strcmp_0: "strcmp a b = 0 \<longleftrightarrow> a = b"
  by (induction a b rule: strcmp.induct) auto

text \<open>Entering a node changes entries only.\<close>

definition like :: "mnode \<Rightarrow> mnode \<Rightarrow> bool" where
  "like m n \<longleftrightarrow> n_number m = n_number n \<and> n_type m = n_type n \<and>
     (n_payload m = n_payload n \<or>
      (\<exists>p es es'. n_payload m = Directory_payload p es \<and> n_payload n = Directory_payload p es'))"

lemma add_entry_like: "like (add_entry e m) m"
  by (simp add: like_def add_entry_def split: payload.split)

lemma like_refl: "like m m" by (simp add: like_def)

lemma like_typed: "like m n \<Longrightarrow> typed m = typed n"
  by (cases "n_payload n") (auto simp: like_def typed_def)

lemma like_twins: "like m m' \<Longrightarrow> like n n' \<Longrightarrow> twins m n \<longleftrightarrow> twins m' n'"
  by (cases "n_payload m'"; cases "n_payload n'") (auto simp: like_def twins_def)

lemma enter_node_like:
  assumes "enter_node alloc t parent name n = Ok (Some t')"
  shows "list_all2 like t' t"
  using assms by (auto simp: enter_node_def list_all2_map1 list.rel_refl like_refl add_entry_like Let_def
      intro!: list.rel_refl split: fts_pointer.splits option.splits if_splits)

text \<open>A node that is not a duplicate has no twin, one that is, is in the table.\<close>

lemma node_contents_ok:
  assumes "node_contents alloc nd t parent ty entry (node_attributes number ty entry) = Ok (Some (dup, n))"
    and "\<forall>m \<in> set t. typed m"
  shows "typed n" "dup \<Longrightarrow> n \<in> set t" "\<not> dup \<Longrightarrow> n_number n = number" "\<not> dup \<Longrightarrow> \<not> nd \<Longrightarrow> \<forall>m \<in> set t. \<not> twins m n"
proof -
  have o: "(dup \<longrightarrow> n \<in> set t) \<and> (\<not> dup \<longrightarrow> n = n0 \<and> (nd \<or> find same t = None))"
    if "or_duplicate nd same t n0 = (dup, n)" for same n0
    using that by (auto simp: or_duplicate_def find_Some_iff split: option.splits if_splits)
  have f: "n_number (node_attributes number ty entry) = number" "n_type (node_attributes number ty entry) = inode_code ty"
    by (simp_all add: node_attributes_def Let_def)
  have tw: "find (same_file d) t = None \<Longrightarrow> n_payload n = File_payload d \<Longrightarrow> \<forall>m \<in> set t. \<not> twins m n" for d
    using assms(2) by (fastforce simp: find_None_iff same_file_def twins_def typed_def)
  have lw: "find (same_link p) t = None \<Longrightarrow> n_payload n = Link_payload p \<Longrightarrow> \<forall>m \<in> set t. \<not> twins m n" for p
    using assms(2) by (fastforce simp: find_None_iff same_link_def twins_def typed_def strcmp_0)
  consider (contents) d y where "ty = regular_file" "or_duplicate nd (same_file d) t
        ((node_attributes number ty entry)\<lparr>n_ntype := y, n_payload := File_payload d\<rparr>) = (dup, n)"
    | (target) p y where "ty = symbolic_link" "or_duplicate nd (same_link p) t
        ((node_attributes number ty entry)\<lparr>n_ntype := y, n_payload := Link_payload p\<rparr>) = (dup, n)"
    | (empty) p y where "ty = directory" "\<not> dup"
        "n = (node_attributes number ty entry)\<lparr>n_ntype := y, n_payload := Directory_payload p []\<rparr>"
    using assms(1) by (auto simp: node_contents_def file_contents_def link_contents_def directory_contents_def Let_def
        split: inode_type.splits if_splits option.splits fts_pointer.splits)
  then have "typed n \<and> (dup \<longrightarrow> n \<in> set t) \<and> (\<not> dup \<longrightarrow> n_number n = number) \<and>
      (\<not> dup \<longrightarrow> \<not> nd \<longrightarrow> (\<forall>m \<in> set t. \<not> twins m n))"
  proof cases
    case (contents d y)
    have t1: "typed n" if "\<not> dup" using o [OF contents(2)] that contents(1) f(2) by (simp add: typed_def)
    have t2: "typed n" if dup using o [OF contents(2)] that assms(2) by blast
    show ?thesis using o [OF contents(2)] f(1) tw [of d] t1 t2 by auto
  next
    case (target p y)
    have t1: "typed n" if "\<not> dup" using o [OF target(2)] that target(1) f(2) by (simp add: typed_def)
    have t2: "typed n" if dup using o [OF target(2)] that assms(2) by blast
    show ?thesis using o [OF target(2)] f(1) lw [of p] t1 t2 by auto
  next
    case (empty p y)
    then show ?thesis using f by (auto simp: typed_def twins_def)
  qed
  then show "typed n" "dup \<Longrightarrow> n \<in> set t" "\<not> dup \<Longrightarrow> n_number n = number" "\<not> dup \<Longrightarrow> \<not> nd \<Longrightarrow> \<forall>m \<in> set t. \<not> twins m n"
    by blast+
qed

lemma like_table:
  assumes "list_all2 like t' t"
  shows "length t' = length t" "map n_number t' = map n_number t" "(\<forall>n \<in> set t'. typed n) = (\<forall>n \<in> set t. typed n)"
    "sorted_wrt (\<lambda>m n. \<not> twins m n) t' = sorted_wrt (\<lambda>m n. \<not> twins m n) t"
    "(\<forall>m \<in> set t'. \<not> twins m n) = (\<forall>m \<in> set t. \<not> twins m n)"
proof -
  show l: "length t' = length t" using assms by (rule list_all2_lengthD)
  have i: "like (t' ! i) (t ! i)" if "i < length t" for i using assms l that by (simp add: list_all2_conv_all_nth)
  show "map n_number t' = map n_number t" using l i by (intro nth_equalityI) (auto simp: like_def)
  have "typed (t' ! i) = typed (t ! i)" if "i < length t" for i using like_typed i that by blast
  then show "(\<forall>n \<in> set t'. typed n) = (\<forall>n \<in> set t. typed n)" using l by (simp add: all_set_conv_all_nth)
  have "twins (t' ! i) (t' ! j) = twins (t ! i) (t ! j)" if "i < length t" "j < length t" for i j
    using like_twins i that by blast
  then show "sorted_wrt (\<lambda>m n. \<not> twins m n) t' = sorted_wrt (\<lambda>m n. \<not> twins m n) t"
    using l by (simp add: sorted_wrt_iff_nth_less)
  have "twins (t' ! i) n = twins (t ! i) n" if "i < length t" for i using like_twins [OF i [OF that] like_refl] .
  then show "(\<forall>m \<in> set t'. \<not> twins m n) = (\<forall>m \<in> set t. \<not> twins m n)" using l by (simp add: all_set_conv_all_nth)
qed

lemma scan_inv_pointer:
  "scan_inv nd s \<Longrightarrow> (\<forall>q. p = Node q \<longrightarrow> 0 \<le> q \<and> q < int (length (sc_table s))) \<Longrightarrow> scan_inv nd (set_pointer a p s)"
  by (auto simp: scan_inv_def set_pointer_def)

lemma count_one: "typed n \<Longrightarrow> sc_regular_files (count_node n s) + sc_directories (count_node n s) +
    sc_symbolic_links (count_node n s) = sc_regular_files s + sc_directories s + sc_symbolic_links s + 1"
  by (cases "n_payload n") (auto simp: typed_def count_node_def)

text \<open>A node that is made: the state that \<open>node_new\<close> leaves, when it changes the table.\<close>

lemma node_new_cases:
  assumes r: "node_new alloc nd entry s = Ok (s', r)"
  obtains (unchanged) a where "s' = s \<or> s' = set_pointer a Freed s"
    | (made) ty dup n t where
        "node_contents alloc nd (sc_table s) (sc_pointer s (fts_parent entry)) ty entry
           (node_attributes (sc_id s) ty entry) = Ok (Some (dup, n))"
        "enter_node alloc (sc_table s) (sc_pointer s (fts_parent entry)) (fts_name entry) n = Ok (Some t)"
        "s' = count_node n (if dup then set_pointer (fts_address entry) Freed (s\<lparr>sc_table := t, sc_duplicates := sc_duplicates s + 1\<rparr>)
           else set_pointer (fts_address entry) (Node (sc_id s)) (s\<lparr>sc_table := HASH_ADD t n, sc_id := sc_id s + 1\<rparr>))"
proof (cases "\<exists>a. s' = s \<or> s' = set_pointer a Freed s")
  case True
  with that(1) show ?thesis by blast
next
  case False
  let ?c = "\<lambda>ty. node_contents alloc nd (sc_table s) (sc_pointer s (fts_parent entry)) ty entry (node_attributes (sc_id s) ty entry)"
  let ?e = "enter_node alloc (sc_table s) (sc_pointer s (fts_parent entry)) (fts_name entry)"
  obtain ty where ty: "malloc_ok alloc sizeof_node" "type_of_mode (st_mode (fts_statp entry)) = Some ty"
    using r False by (cases "type_of_mode (st_mode (fts_statp entry))") (auto simp: node_new_def Let_def split: if_splits)
  obtain q where q: "?c ty = Ok q"
    using r ty by (cases "?c ty") (simp_all add: node_new_def Let_def)
  obtain dup n where dn: "q = Some (dup, n)"
    using r ty q False by (cases q) (auto simp: node_new_def Let_def)
  obtain u where u: "?e n = Ok u"
    using r ty q dn by (cases "?e n") (simp_all add: node_new_def Let_def)
  obtain t where t: "u = Some t"
    using r ty q dn u False by (cases u) (auto simp: node_new_def Let_def)
  show ?thesis
    by (rule that(2) [of ty dup n t]) (use r ty q dn u t in \<open>simp_all add: node_new_def Let_def\<close>)
qed

lemma node_new_inv:
  assumes r: "node_new alloc nd entry s = Ok (s', r)" and i: "scan_inv nd s"
  shows "scan_inv nd s'"
  using r
proof (cases rule: node_new_cases)
  case (unchanged a)
  then show ?thesis using i scan_inv_pointer [OF i] by auto
next
  case (made ty dup n t)
  let ?t = "sc_table s"
  have ty: "\<forall>m \<in> set ?t. typed m" "sc_id s = int (length ?t)" using i by (simp_all add: scan_inv_def)
  note nc = node_contents_ok [OF made(1) ty(1)]
  note l = like_table [OF enter_node_like [OF made(2)]]
  have inv: "map n_number ?t = map int [0..<length ?t]" "\<not> nd \<longrightarrow> sorted_wrt (\<lambda>m n. \<not> twins m n) ?t"
    "\<forall>a p. sc_pointer s a = Node p \<longrightarrow> 0 \<le> p \<and> p < int (length ?t)"
    "sc_regular_files s + sc_directories s + sc_symbolic_links s = length ?t + sc_duplicates s"
    using i by (simp_all add: scan_inv_def)
  have n: "typed n" by (rule nc(1))
  note cn = count_one [OF n]
  show ?thesis
  proof (cases dup)
    case True
    have "sc_table s' = t" "sc_id s' = sc_id s" "sc_duplicates s' = sc_duplicates s + 1"
      "sc_pointer s' = (sc_pointer s)(fts_address entry := Freed)"
      "sc_regular_files s' + sc_directories s' + sc_symbolic_links s' =
        sc_regular_files s + sc_directories s + sc_symbolic_links s + 1"
      using made(3) True cn [of "set_pointer (fts_address entry) Freed (s\<lparr>sc_table := t, sc_duplicates := sc_duplicates s + 1\<rparr>)"]
      by (simp_all add: set_pointer_def) (simp_all add: count_node_def)
    then show ?thesis using inv l ty by (auto simp: scan_inv_def)
  next
    case False
    have s': "sc_table s' = t @ [n]" "sc_id s' = sc_id s + 1" "sc_duplicates s' = sc_duplicates s"
      "sc_pointer s' = (sc_pointer s)(fts_address entry := Node (sc_id s))"
      "sc_regular_files s' + sc_directories s' + sc_symbolic_links s' =
        sc_regular_files s + sc_directories s + sc_symbolic_links s + 1"
      using made(3) False cn [of "set_pointer (fts_address entry) (Node (sc_id s)) (s\<lparr>sc_table := HASH_ADD t n, sc_id := sc_id s + 1\<rparr>)"]
      by (simp_all add: set_pointer_def HASH_ADD_def) (simp_all add: count_node_def)
    have "map n_number (t @ [n]) = map int [0..<length (t @ [n])]"
      using inv(1) l(1,2) nc(3) False ty(2) by simp
    moreover have "\<not> nd \<longrightarrow> sorted_wrt (\<lambda>m n. \<not> twins m n) (t @ [n])"
      using inv(2) l(4,5) nc(4) False by (simp add: sorted_wrt_append)
    moreover have "0 \<le> p \<and> p < int (length (t @ [n]))" if "sc_pointer s' a = Node p" for a p
    proof -
      have "p = sc_id s \<or> sc_pointer s a = Node p" using that by (auto simp: s'(4) split: if_splits)
      then show ?thesis using inv(3) l(1) ty(2) by fastforce
    qed
    moreover have "\<forall>m \<in> set (t @ [n]). typed m" using l(3) ty(1) n by simp
    moreover have "length (t @ [n]) = length ?t + 1" using l(1) by simp
    ultimately show ?thesis using s' inv(4) ty(2) unfolding scan_inv_def by simp
  qed
qed

lemma scan_entries_inv:
  "scan_entries alloc nd entries s = Ok s' \<Longrightarrow> scan_inv nd s \<Longrightarrow> scan_inv nd s'"
proof (induction entries arbitrary: s)
  case (Cons entry entries)
  then show ?case using node_new_inv by (fastforce split: if_splits)
qed simp

lemma scan_init_inv: "scan_inv nd scan_init"
  by (simp add: scan_inv_def scan_init_def)

text \<open>
  C10. Whatever the file system delivers and whatever fails, a scan that comes to its end leaves a
  table whose nodes are numbered in the order of the chain, from 0 on and without gaps, and have
  contents of their types; without \<open>--no_duplicates\<close> no two files have the same contents and no
  two links the same target; and the statistics count every file once, as a node or a duplicate.
\<close>

theorem scan_invariant:
  assumes "sources_scan alloc nd fts paths scan_init = Ok s"
  shows "map n_number (sc_table s) = map int [0..<length (sc_table s)] \<and> sc_id s = int (length (sc_table s)) \<and>
    (\<forall>n \<in> set (sc_table s). typed n) \<and>
    (\<not> nd \<longrightarrow> (\<forall>i < length (sc_table s). \<forall>j < i. \<not> twins (sc_table s ! j) (sc_table s ! i))) \<and>
    sc_regular_files s + sc_directories s + sc_symbolic_links s = length (sc_table s) + sc_duplicates s"
proof -
  have "scan_inv nd s"
    using assms scan_init_inv scan_entries_inv [of alloc nd _ scan_init s]
    by (auto simp: sources_scan_def split: if_splits option.splits)
  then show ?thesis by (auto simp: scan_inv_def sorted_wrt_iff_nth_less)
qed

text \<open>Two files with the same contents and one that cannot be opened, below a directory.\<close>

definition demo_stat :: "int \<Rightarrow> int \<Rightarrow> stat" where
  "demo_stat mode sz = \<lparr>st_mode = mode, st_size = sz, st_uid = 1000, st_gid = 100, st_ctime = 7, st_mtime = 7\<rparr>"

definition demo_entry :: "nat \<Rightarrow> nat \<Rightarrow> fts_info \<Rightarrow> memory \<Rightarrow> stat \<Rightarrow> bool \<Rightarrow> memory \<Rightarrow> ftsent" where
  "demo_entry a parent info name st opens d =
     \<lparr>fts_address = a, fts_parent = parent, fts_info = info, fts_name = name, fts_accpath = name, fts_statp = st,
      fts_opens = opens, fts_reads = Some d, fts_readlinks = None\<rparr>"

definition demo_fts :: "memory list \<Rightarrow> ftsent list option" where
  "demo_fts paths = Some
     [demo_entry 1 0 FTS_D [0x73] (demo_stat 0x41ED 0) True [],
      demo_entry 2 1 FTS_F [0x61] (demo_stat 0x81A4 2) True [5, 6],
      demo_entry 3 1 FTS_F [0x62] (demo_stat 0x81A4 2) True [5, 6],
      demo_entry 4 1 FTS_F [0x63] (demo_stat 0x81A4 1) False [],
      demo_entry 1 0 FTS_DP [0x73] (demo_stat 0x41ED 0) True []]"

lemma scan_invariant_witness:
  "\<exists>s. sources_scan (\<lambda>_. True) False demo_fts [[0x73]] scan_init = Ok s \<and> sc_duplicates s = 1 \<and>
     map n_number (sc_table s) = [0, 1] \<and>
     sc_regular_files s + sc_directories s + sc_symbolic_links s = length (sc_table s) + sc_duplicates s"
proof -
  have "case sources_scan (\<lambda>_. True) False demo_fts [[0x73]] scan_init of
      Ok s \<Rightarrow> sc_duplicates s = 1 \<and> length (sc_table s) = 2 | _ \<Rightarrow> False"
    by (simp add: sources_scan_def demo_fts_def demo_entry_def demo_stat_def scan_init_def skipped_def node_new_def
        Let_def malloc_ok_def type_of_mode_def S_IFMT_def node_contents_def directory_contents_def enter_node_def
        node_attributes_def set_pointer_def count_node_def HASH_ADD_def file_contents_def or_duplicate_def
        same_file_def add_entry_def)
  then obtain s where s: "sources_scan (\<lambda>_. True) False demo_fts [[0x73]] scan_init = Ok s"
    "sc_duplicates s = 1" "length (sc_table s) = 2"
    by (auto split: res.splits)
  from scan_invariant [OF s(1)] s show ?thesis by (auto simp: numeral_2_eq_2)
qed

end
