(* ===== verification/Unfs_Main.thy ===== *)
theory Unfs_Main
  imports Unfs_Traverse Mkfs_Main
begin

text \<open>
  \<open>src/mkfs/unfs.c\<close>, \<open>main\<close>: the options of \<open>unfs.smashfs\<close> and its exit status.  \<open>files\<close> are the
  contents of the files of the system, \<open>cwd\<close> is what \<open>getcwd\<close> delivers.
\<close>

type_synonym unfs_config = "memory option \<times> memory option"

definition unfs_option ::
  "heap \<Rightarrow> int \<times> memory option \<Rightarrow> unfs_config \<Rightarrow> unfs_config option res" where
  "unfs_option alloc opt cf =
     (let (c, arg) = opt; (source', output') = cf in
      if c = 0x73 then with_optarg arg (\<lambda>m. (strdup alloc m, output'))
      else if c = 0x6F then with_optarg arg (\<lambda>m. (source', strdup alloc m))
      else if c = 0x68 then Ok None
      else Ok (Some cf))"

fun unfs_options ::
  "heap \<Rightarrow> (int \<times> memory option) list \<Rightarrow> unfs_config \<Rightarrow> unfs_config option res" where
  "unfs_options alloc [] cf = Ok (Some cf)"
| "unfs_options alloc (opt # opts) cf =
     rbind (unfs_option alloc opt cf) (\<lambda>r.
     case r of None \<Rightarrow> Ok None | Some cf \<Rightarrow> unfs_options alloc opts cf)"

text \<open>
  The exit status, with the trace of the system calls if the program came to its end.  The run
  that fails on the way has made some of the calls, which are not told.
\<close>

definition unfs_main ::
  "reader_env \<Rightarrow> compressor list \<Rightarrow> os \<Rightarrow> nat \<Rightarrow> nat \<Rightarrow> (memory \<Rightarrow> memory) \<Rightarrow> (int \<times> memory option) list \<Rightarrow>
    memory \<Rightarrow> (int \<times> trace option) res" where
  "unfs_main env cs os fuel depth files opts cwd =
     rbind (unfs_options (r_alloc env) opts (None, None)) (\<lambda>r.
     case r of
       None \<Rightarrow> Ok (0, None)
     | Some (source', output') \<Rightarrow>
         (case (source', output') of
            (Some src, Some out) \<Rightarrow>
              (case unfs_run env cs os fuel depth (files src) out cwd of
                 Ok tr \<Rightarrow> Ok (0, Some tr)
               | Err e \<Rightarrow> Ok (-1, None)
               | Undef \<Rightarrow> Undef
               | Timeout \<Rightarrow> Timeout)
          | _ \<Rightarrow> Ok (-1, None)))"

lemma unfs_main_run:
  "unfs_options (r_alloc env) opts (None, None) = Ok (Some (Some src, Some out)) \<Longrightarrow>
    unfs_run env cs os fuel depth (files src) out cwd = Ok tr \<Longrightarrow>
    unfs_main env cs os fuel depth files opts cwd = Ok (0, Some tr)"
  by (simp add: unfs_main_def)

end
