(* ===== verification/Mkfs_System.thy ===== *)
theory Mkfs_System
  imports Mkfs_Tree Mkfs_Main Mkfs_Scan_Invariant Unfs_Main
begin

text \<open>
  The programs together: \<open>mkfs.smashfs\<close> run on a directory writes an image that \<open>unfs.smashfs\<close>
  extracts to the same tree and that the kernel module mounts and reads.
\<close>

unbundle bit_operations_syntax

section \<open>The scan of a directory\<close>

lemma root_scanned:
  assumes "heap_ok alloc" and "root_ok t" and "root_fits fuel t" and "fts [path] = Some (fts_walk 0 1 t)"
  obtains s where "sources_scan alloc nd fts [path] scan_init = Ok s" and "table_good (sc_table s)"
    and "stands_for nd (sc_table s) 0 0 t" and "sc_table s \<noteq> []"
    and "length (sc_table s) \<le> src_count t" "all_dirs (sc_table s) \<le> src_dirs t" "all_bytes (sc_table s) \<le> src_bytes t"
proof -
  have "src_dirs t < 2 ^ 28" using assms(3) by (simp add: root_fits_def)
  from sources_scan_ok [where fts = fts and path = path and nd = nd, OF assms(1,2) this assms(4)] obtain s where s:
    "sources_scan alloc nd fts [path] scan_init = Ok s" "table_good (sc_table s)" "stands_for nd (sc_table s) 0 0 t"
    "length (sc_table s) \<le> src_count t" "all_dirs (sc_table s) \<le> src_dirs t" "all_bytes (sc_table s) \<le> src_bytes t"
    by blast
  have "sc_table s \<noteq> []" using s(3) assms(2) by (cases t) (auto simp: root_ok_def)
  with s that show ?thesis by blast
qed

text \<open>
  C9. The node table that the scan of a directory leaves is well formed, within the limits of the
  format: nodes of 32 bit attributes with contents of their types, numbered from 0 on; every
  entry names a node of the table, has a proper name and, in its directory, its place by the
  first byte; and the directories form a tree below node 0, as deep as the source.
\<close>

theorem scan_well_formed:
  assumes "heap_ok alloc" and "root_ok t" and "root_fits fuel t" and "fts [path] = Some (fts_walk 0 1 t)"
  shows "\<exists>s. sources_scan alloc nd fts [path] scan_init = Ok s \<and> table_ok (sc_table s) \<and> numbered (sc_table s) \<and>
    directories_ok fuel (sc_table s) \<and> ends_inside (sc_table s) \<and> plain_names (sc_table s) \<and>
    tree_ok (sc_table s) (src_depth t) 0"
proof -
  obtain s where s: "sources_scan alloc nd fts [path] scan_init = Ok s" "table_good (sc_table s)"
    "stands_for nd (sc_table s) 0 0 t" "sc_table s \<noteq> []" "length (sc_table s) \<le> src_count t"
    "all_dirs (sc_table s) \<le> src_dirs t" "all_bytes (sc_table s) \<le> src_bytes t"
    by (rule root_scanned [where fts = fts and path = path and nd = nd, OF assms])
  have "tree_ok (sc_table s) (src_depth t) 0"
    using stands_for_tree [OF s(3)] s(2) by (simp add: table_good_def)
  with s(1) scanned_good [OF s(2,4,3,5-7) assms(2,3)] show ?thesis by blast
qed

text \<open>A directory with an empty directory, two equal files, a link and a pipe.\<close>

definition demo_root :: source where
  "demo_root = Dir [0x73] (demo_stat 0x41ED 0)
     [Dir [0x61] (demo_stat 0x41C0 0) [],
      File [0x62] (demo_stat 0x81A4 2) [5, 6],
      File [0x63] (demo_stat 0x8124 2) [5, 6],
      Link [0x64] (demo_stat 0xA1FF 1) [0x62],
      Special [0x65] (demo_stat 0x11A4 0)]"

lemma demo_types:
  "type_of_mode 0x41ED = Some directory" "type_of_mode 0x41C0 = Some directory" "type_of_mode 0x81A4 = Some regular_file"
  "type_of_mode 0x8124 = Some regular_file" "type_of_mode 0xA1FF = Some symbolic_link" "type_of_mode 0x11A4 = Some fifo"
  by (simp_all add: type_of_mode_def S_IFMT_def Let_def)

lemma demo_root_ok: "root_ok demo_root" "root_fits 5000 demo_root"
  by (simp_all add: root_ok_def root_fits_def demo_root_def demo_stat_def stat_ok_def u32_range_def in_order_names name_ok_def
      demo_types)

definition demo_root_fts :: "memory list \<Rightarrow> ftsent list option" where
  "demo_root_fts paths = (if paths = [[0x73]] then Some (fts_walk 0 1 demo_root) else None)"

lemma demo_root_fts: "demo_root_fts [[0x73]] = Some (fts_walk 0 1 demo_root)"
  by (simp add: demo_root_fts_def)

lemma demo_heap: "heap_ok (\<lambda>_. True)"
  by (simp add: heap_ok_def)

lemma scan_well_formed_witness:
  "\<exists>s. sources_scan (\<lambda>_. True) False demo_root_fts [[0x73]] scan_init = Ok s \<and> table_ok (sc_table s) \<and>
     tree_ok (sc_table s) 2 0"
proof -
  have "src_depth demo_root = 2" by (simp add: demo_root_def)
  with scan_well_formed [where fts = demo_root_fts and path = "[0x73]" and nd = False, OF demo_heap demo_root_ok demo_root_fts] show ?thesis by auto
qed



section \<open>The image of a directory\<close>

text \<open>
  \<open>mkfs.smashfs\<close> is given one directory that stores something, on a system on which nothing
  fails; \<open>cf\<close> is what its options come to.
\<close>

definition given_directory ::
  "environment \<Rightarrow> compressor list \<Rightarrow> (memory list \<Rightarrow> ftsent list option) \<Rightarrow> (int \<times> memory option) list \<Rightarrow>
    config \<Rightarrow> nat \<Rightarrow> nat \<Rightarrow> source \<Rightarrow> bool" where
  "given_directory env cs fts opts cf k fuel t \<longleftrightarrow> system_ok env \<and>
     main_options (e_alloc env) cs opts (config_init cs) = Ok (Some cf) \<and> options_ok (cf_options cf) k \<and>
     (\<exists>path. cf_sources cf = [path] \<and> fts [path] = Some (fts_walk 0 1 t)) \<and> cf_output cf \<noteq> None \<and>
     root_ok t \<and> root_fits fuel t \<and> (\<exists>c \<in> set (src_children t). src_stored c)"

definition good_method :: "compressor \<Rightarrow> codec_fn \<Rightarrow> bool" where
  "good_method c decomp \<longleftrightarrow> codec (compressor_compress c) decomp \<and> (\<forall>d. length d < 2 ^ 28 \<longrightarrow> shrinks c d)"

lemma root_contents:
  assumes r: "stands_for nd nodes 0 0 t" and t: "root_ok t" and c: "c \<in> set (src_children t)" "src_stored c"
  shows "\<exists>n \<in> set nodes. has_contents n"
proof (cases t)
  case (Dir name st cs)
  obtain p es where es: "n_payload (nodes ! 0) = Directory_payload p es" "0 < length nodes"
    "list_all2 (lists_child nd nodes 0) es (filter src_stored cs)"
    using r by (auto simp: Dir)
  have "c \<in> set (filter src_stored cs)" using c by (simp add: Dir)
  then obtain e where e: "e \<in> set es" "de_name e = src_name c"
    using es(3) unfolding list_all2_conv_all_nth in_set_conv_nth by fastforce
  have "source_ok c" using t c by (simp add: root_ok_def Dir)
  then have "src_name c \<noteq> []" by (cases c) (auto simp: name_ok_def)
  then have "\<exists>e \<in> set es. de_name e \<noteq> []" using e by metis
  then have "has_contents (nodes ! 0)" using es(1) by (simp add: has_contents_def)
  moreover have "nodes ! 0 \<in> set nodes" using es(2) by simp
  ultimately show ?thesis by blast
qed (use t in \<open>simp_all add: root_ok_def\<close>)

lemma written_from:
  assumes g: "given_directory env cs fts opts cf k fuel t" and c: "cf_compressor cf = Some c" "good_method c decomp"
  obtains s :: scan and nodes' img where "mkfs_main env cs fts opts = Ok (0, Some img, [])"
    and "output_write env (cf_options cf) c (sc_table s) = Ok (nodes', img)"
    and "stands_for (cf_no_duplicates cf) (sc_table s) 0 0 t" and "table_good (sc_table s)" and "sc_table s \<noteq> []"
    and "length (sc_table s) \<le> src_count t" and "all_dirs (sc_table s) \<le> src_dirs t" and "all_bytes (sc_table s) \<le> src_bytes t"
proof -
  obtain path ch where p: "cf_sources cf = [path]" "fts [path] = Some (fts_walk 0 1 t)" "cf_output cf \<noteq> None"
    "heap_ok (e_alloc env)" "root_ok t" "root_fits fuel t" "ch \<in> set (src_children t)" "src_stored ch"
    "main_options (e_alloc env) cs opts (config_init cs) = Ok (Some cf)"
    "system_ok env" "options_ok (cf_options cf) k"
    using g by (auto simp: given_directory_def system_ok_def)
  obtain s where s: "sources_scan (e_alloc env) (cf_no_duplicates cf) fts [path] scan_init = Ok s"
    "table_good (sc_table s)" "stands_for (cf_no_duplicates cf) (sc_table s) 0 0 t" "sc_table s \<noteq> []"
    "length (sc_table s) \<le> src_count t" "all_dirs (sc_table s) \<le> src_dirs t" "all_bytes (sc_table s) \<le> src_bytes t"
    by (rule root_scanned [where fts = fts and path = path and nd = "cf_no_duplicates cf", OF p(4-6,2)])
  note good = scanned_good [OF s(2,4,3,5-7) p(5,6)]
  obtain n where n: "n \<in> set (sc_table s)" "has_contents n" using root_contents [OF s(3) p(5,7,8)] by blast
  have "\<exists>n \<in> set (sc_table s). \<forall>s'. entry_widths_ok s' \<longrightarrow> node_bytes s' n \<noteq> []"
    using n has_contents_bytes by blast
  then obtain nodes' img where w: "output_write env (cf_options cf) c (sc_table s) = Ok (nodes', img)"
    using output_write_total [OF p(10,11) good(1), of c decomp] c(2) by (auto simp: good_method_def)
  then have "mkfs_main env cs fts opts = Ok (0, Some img, [])"
    using p s(1) c(1) by (simp add: mkfs_main_def release_nodes_Nil)
  from that [OF this w s(3,2,4-7)] show ?thesis .
qed

section \<open>From a directory to the module\<close>

definition leaf_data :: "source \<Rightarrow> memory" where
  "leaf_data t = (case t of File name st d \<Rightarrow> d | Link name st p \<Rightarrow> p @ [0] | _ \<Rightarrow> [])"

text \<open>The tables of the directory fit the module, and the kernel is able to mount the image.\<close>

definition fits_kernel :: "nat \<Rightarrow> source \<Rightarrow> bool" where
  "fits_kernel k t \<longleftrightarrow> 44 * int (src_count t) \<le> 2 ^ k \<and>
     4300 + 44 * int (src_count t) + 2 * int (src_bytes t) < 2 ^ 31 - 2 ^ 17"

definition kernel_mounts :: "kernel_env \<Rightarrow> kernel \<Rightarrow> compressor \<Rightarrow> codec_fn \<Rightarrow> source \<Rightarrow> memory \<Rightarrow> bool" where
  "kernel_mounts kenv kern c decomp t img \<longleftrightarrow> mount_ok kenv img \<and>
     kernel_finds kenv kern (compressor_type c) decomp \<and>
     (\<exists>ino. ke_new_inode kenv = Some ino \<and> (ino \<le> 0 \<or> int (src_count t) \<le> ino))"

lemma c_str_terminated: "0 \<notin> set p \<Longrightarrow> c_str (p @ [0]) = p"
  by (rule c_str_stop)

lemma source_at_ok:
  "source_at t names = Some t' \<Longrightarrow> (\<forall>c \<in> set (case t of Dir name st cs \<Rightarrow> cs | _ \<Rightarrow> []). source_ok c) \<Longrightarrow>
    [] \<notin> set names \<and> (names \<noteq> [] \<longrightarrow> source_ok t')"
proof (induction t names rule: source_at.induct)
  case (2 name st cs x xs)
  obtain c where c: "find (\<lambda>c. src_name c = x) (filter src_stored cs) = Some c" "source_at c xs = Some t'"
    using 2(2) by (auto split: option.splits)
  have m: "c \<in> set cs" "src_name c = x" using c(1) by (auto simp: find_Some_iff dest: nth_mem)
  have ok: "source_ok c" using 2(3) m(1) by simp
  then have "\<forall>c \<in> set (case c of Dir name st cs \<Rightarrow> cs | _ \<Rightarrow> []). source_ok c" by (cases c) auto
  from 2(1) [OF c(1,2) this] have "[] \<notin> set xs \<and> (xs \<noteq> [] \<longrightarrow> source_ok t')" .
  moreover have "x \<noteq> []" using ok m(2) by (cases c) (auto simp: name_ok_def)
  moreover have "source_ok t'" if "xs = []" using that ok c(2) by simp
  ultimately show ?case by auto
qed auto

text \<open>
  C1. \<open>mkfs.smashfs\<close>, given a directory that fits, comes to its end with status 0 and an image
  and releases all nodes; and every kernel that is able to mount the image finds under the path
  of every file and link of that directory exactly its contents, page by page and zeros behind
  them, whatever the number of jobs and the schedule of the threads were.
\<close>

theorem mkfs_mount_reads:
  assumes "given_directory env cs fts opts cf k fuel t" and "cf_compressor cf = Some c" and "good_method c decomp"
    and "fits_kernel k t" and "4096 < fuel"
  shows "\<exists>img. mkfs_main env cs fts opts = Ok (0, Some img, []) \<and>
    (\<forall>kenv kern names t'. kernel_mounts kenv kern c decomp t img \<and>
       source_at t names = Some t' \<and> src_type t' \<in> {regular_file, symbolic_link} \<longrightarrow>
       (\<exists>st inode ic. open_path kenv kern fuel names = Ok (st, inode, ic) \<and>
         i_size inode = int (length (leaf_data t')) \<and>
         (\<forall>page index. smashfs_readpage kenv fuel st inode page index = Ok (True, page_of (leaf_data t') index))))"
proof -
  obtain s :: scan and nodes' img where w: "mkfs_main env cs fts opts = Ok (0, Some img, [])"
    "output_write env (cf_options cf) c (sc_table s) = Ok (nodes', img)"
    "stands_for (cf_no_duplicates cf) (sc_table s) 0 0 t" "table_good (sc_table s)" "sc_table s \<noteq> []"
    "length (sc_table s) \<le> src_count t" "all_dirs (sc_table s) \<le> src_dirs t" "all_bytes (sc_table s) \<le> src_bytes t"
    by (rule written_from [OF assms(1-3)])
  have r: "root_ok t" "root_fits fuel t" "system_ok env" "options_ok (cf_options cf) k"
    using assms(1) by (simp_all add: given_directory_def)
  note good = scanned_good [OF w(4,5,3,6-8) r(1,2)]
  have st: "stored env (cf_options cf) k c decomp (sc_table s) img"
    using r(3,4) good(1,2) assms(3) w(2) by (auto simp: stored_def good_method_def)
  have fit: "fits_module k (sc_table s)"
    using assms(4) w(6,8) unfolding fits_kernel_def fits_module_def image_bound_def by linarith
  have kids: "\<forall>c \<in> set (case t of Dir name st cs \<Rightarrow> cs | _ \<Rightarrow> []). source_ok c"
    using r(1) by (cases t) (auto simp: root_ok_def)
  have "\<exists>st inode ic. open_path kenv kern fuel names = Ok (st, inode, ic) \<and>
         i_size inode = int (length (leaf_data t')) \<and>
         (\<forall>page index. smashfs_readpage kenv fuel st inode page index = Ok (True, page_of (leaf_data t') index))"
    if m: "kernel_mounts kenv kern c decomp t img" and a: "source_at t names = Some t'"
      and l: "src_type t' \<in> {regular_file, symbolic_link}" for kenv kern names t'
  proof -
    have mo: "mountable kenv kern k c decomp (sc_table s) fuel img"
      using m fit good(3) w(6) by (auto simp: mountable_def kernel_mounts_def root_number_ok_def)
    obtain j where j: "tree_path (sc_table s) 0 names = Some j"
      "stands_for (cf_no_duplicates cf) (sc_table s) 0 (int j) t'"
      using stands_for_path [of "cf_no_duplicates cf" "sc_table s" 0 0 t names t'] w(3) a by auto
    have ne: "names \<noteq> []" using a l r(1) by (cases t) (auto simp: root_ok_def src_type_def)
    have ok: "[] \<notin> set names" "source_ok t'" using source_at_ok [OF a kids] ne by simp_all
    have p: "n_payload (sc_table s ! j) = leaf_payload t'" "leaf_payload t' \<noteq> Directory_payload q es" for q es
      using j(2) l by (cases t'; simp add: leaf_payload_def src_type_def)+
    have d: "contents (sc_table s ! j) = leaf_data t'"
      using p(1) l ok(2) by (cases t') (simp_all add: contents_def leaf_payload_def leaf_data_def src_type_def c_str_terminated)
    show ?thesis using stored_path_read [OF st mo j(1) ok(1) _ assms(5)] p d by simp
  qed
  with w(1) show ?thesis by blast
qed

text \<open>\<open>mkfs.smashfs -s s -o o --no_duplicates\<close>\<close>

definition demo_args :: "(int \<times> memory option) list" where
  "demo_args = [(0x73, Some [0x73]), (0x6F, Some [0x6F]), (0x107, None)]"

definition demo_config :: config where
  "demo_config = (config_init [none_method])\<lparr>cf_sources := [[0x73]], cf_output := Some [0x6F], cf_no_duplicates := True\<rparr>"

lemma demo_create_name: "compressor_create_name [none_method] ''none'' = Some none_method"
  by (simp add: none_method_def)

lemma demo_given: "given_directory demo_env [none_method] demo_root_fts demo_args demo_config 20 5000 demo_root"
proof -
  have "main_options (e_alloc demo_env) [none_method] demo_args (config_init [none_method]) = Ok (Some demo_config)"
    by (simp add: demo_args_def demo_config_def main_option_def Let_def with_optarg_def strdup_def demo_env_def
        malloc_ok_def config_init_def)
  moreover have "options_ok (cf_options demo_config) 20"
    by (simp add: options_ok_def demo_config_def config_init_def MAX_JOBS_def)
  moreover have "\<exists>c \<in> set (src_children demo_root). src_stored c" by (simp add: demo_root_def src_stored_def)
  moreover have "cf_sources demo_config = [[0x73]]" "cf_output demo_config = Some [0x6F]"
    by (simp_all add: demo_config_def)
  ultimately show ?thesis
    using demo_system demo_root_ok demo_root_fts by (simp add: given_directory_def)
qed

lemma demo_method:
  "cf_compressor demo_config = Some none_method" "good_method none_method kernel_none_uncompress"
  "good_method none_method (compressor_uncompress none_method)"
  using demo_create_name demo_none none_codec none_shrinks
  by (simp_all add: demo_config_def config_init_def good_method_def)

text \<open>A device that is larger than the image.\<close>

definition demo_disk :: "memory \<Rightarrow> memory" where
  "demo_disk img = img @ replicate (1023 * length img) 0"

lemma demo_kernel_mounts: "kernel_mounts (demo_kenv (demo_disk img)) demo_kernel none_method kernel_none_uncompress t img"
proof -
  have "length (demo_disk img) mod 1024 = 0" by (simp add: demo_disk_def)
  from demo_device [OF this] have "mount_ok (demo_kenv (demo_disk img)) (img @ replicate (1023 * length img) 0)"
    by (simp add: demo_disk_def)
  then have "mount_ok (demo_kenv (demo_disk img)) img"
    unfolding mount_ok_def by (metis append_assoc)
  moreover have "kernel_finds (demo_kenv (demo_disk img)) demo_kernel (compressor_type none_method) kernel_none_uncompress"
    using demo_finds by (simp add: compressor_type_def none_method_def)
  ultimately show ?thesis by (simp add: kernel_mounts_def demo_kenv_def)
qed

lemma mkfs_mount_reads_witness:
  "\<exists>img. mkfs_main demo_env [none_method] demo_root_fts demo_args = Ok (0, Some img, []) \<and>
    (\<exists>st inode ic. open_path (demo_kenv (demo_disk img)) demo_kernel 5000 [[0x63]] = Ok (st, inode, ic) \<and>
      (\<forall>page. smashfs_readpage (demo_kenv (demo_disk img)) 5000 st inode page 0 = Ok (True, [5, 6] @ replicate 4094 0)))"
proof -
  have f: "fits_kernel 20 demo_root"
    by (simp add: fits_kernel_def demo_root_def)
  have at: "source_at demo_root [[0x63]] = Some (File [0x63] (demo_stat 0x8124 2) [5, 6])"
    by (simp add: demo_root_def src_stored_def)
  have pg: "page_of [5, 6] 0 = [5, 6] @ replicate 4094 0" by (simp add: page_of_def)
  have ty: "src_type (File [0x63] (demo_stat 0x8124 2) [5, 6]) \<in> {regular_file, symbolic_link}"
    "leaf_data (File [0x63] (demo_stat 0x8124 2) [5, 6]) = [5, 6]"
    by (simp_all add: src_type_def leaf_data_def)
  have "(4096 :: nat) < 5000" by simp
  from mkfs_mount_reads [OF demo_given demo_method(1,2) f this] obtain img where
    i: "mkfs_main demo_env [none_method] demo_root_fts demo_args = Ok (0, Some img, [])" and
    r: "\<forall>kenv kern names t'. kernel_mounts kenv kern none_method kernel_none_uncompress demo_root img \<and>
       source_at demo_root names = Some t' \<and> src_type t' \<in> {regular_file, symbolic_link} \<longrightarrow>
       (\<exists>st inode ic. open_path kenv kern 5000 names = Ok (st, inode, ic) \<and>
         i_size inode = int (length (leaf_data t')) \<and>
         (\<forall>page index. smashfs_readpage kenv 5000 st inode page index = Ok (True, page_of (leaf_data t') index)))"
    by blast
  from r demo_kernel_mounts at ty(1) have "\<exists>st inode ic.
      open_path (demo_kenv (demo_disk img)) demo_kernel 5000 [[0x63]] = Ok (st, inode, ic) \<and>
      (\<forall>page index. smashfs_readpage (demo_kenv (demo_disk img)) 5000 st inode page index =
        Ok (True, page_of (leaf_data (File [0x63] (demo_stat 0x8124 2) [5, 6])) index))"
    by blast
  with i show ?thesis unfolding ty(2) by (metis pg)
qed

section \<open>From a directory to its extraction\<close>

lemma flag_or: "b = 2 ^ i \<Longrightarrow> (if m AND b \<noteq> 0 then x OR b else x) = x OR (m AND b)" for m x b :: int
proof -
  assume b: "b = 2 ^ i"
  have "m AND 2 ^ i = (if bit m i then 2 ^ i else 0)"
    by (intro bit_eqI) (auto simp: bit_simps)
  then show ?thesis by (simp add: b)
qed

lemma class_mode_bits:
  "class_mode m r w x AND mode_code mode_read \<noteq> 0 \<longleftrightarrow> m AND r \<noteq> 0"
  "class_mode m r w x AND mode_code mode_write \<noteq> 0 \<longleftrightarrow> m AND w \<noteq> 0"
  "class_mode m r w x AND mode_code mode_execute \<noteq> 0 \<longleftrightarrow> m AND x \<noteq> 0"
  by (simp_all add: class_mode_cases)

text \<open>The two translations of the permissions, into three modes and back, are inverse.\<close>

lemma file_mode_class_mode:
  assumes "nd_owner_mode v = class_mode m 0x100 0x80 0x40" and "nd_group_mode v = class_mode m 0x20 0x10 0x8"
    and "nd_other_mode v = class_mode m 0x4 0x2 0x1"
  shows "file_mode v = m AND 0x1FF"
proof -
  have b: "1 = (2 :: int) ^ 0" "2 = (2 :: int) ^ 1" "4 = (2 :: int) ^ 2" "8 = (2 :: int) ^ 3" "16 = (2 :: int) ^ 4"
    "32 = (2 :: int) ^ 5" "64 = (2 :: int) ^ 6" "128 = (2 :: int) ^ 7" "256 = (2 :: int) ^ 8"
    by simp_all
  note f = b [THEN flag_or]
  have "file_mode v = 0 OR (m AND 256) OR (m AND 128) OR (m AND 64) OR (m AND 32) OR (m AND 16) OR (m AND 8) OR
      (m AND 4) OR (m AND 2) OR (m AND 1)"
    unfolding file_mode_def Let_def assms class_mode_bits by (simp only: f) (simp only: or.assoc)
  also have "\<dots> = m AND 0x1FF"
    by (simp add: bit.conj_disj_distrib [symmetric])
  finally show ?thesis .
qed

text \<open>
  The system calls that recreate a tree: what is stored of it, with the permissions and owners
  of the source.  The time is left out, as it is by the extractor.
\<close>

fun src_calls :: "source \<Rightarrow> memory \<Rightarrow> trace" where
  "src_calls (Dir n st cs) name =
     [Mkdir name (st_mode st AND 0x1FF), Chdir name] @ concat (map (\<lambda>c. src_calls c (src_name c)) cs) @
     [Chdir dot_dot, Chmod name (st_mode st AND 0x1FF), Lchown name (st_uid st) (st_gid st)]"
| "src_calls (File n st d) name =
     [Unlink name, Open name (st_mode st AND 0x1FF)] @ (if d = [] then [] else [Write d]) @
     [Close, Chmod name (st_mode st AND 0x1FF), Lchown name (st_uid st) (st_gid st)]"
| "src_calls (Link n st p) name =
     [Unlink name, Symlink p name, Chmod name (st_mode st AND 0x1FF), Lchown name (st_uid st) (st_gid st)]"
| "src_calls (Special n st) name = []"

definition keeps_all :: "options \<Rightarrow> bool" where
  "keeps_all opt \<longleftrightarrow> \<not> o_no_group_mode opt \<and> \<not> o_no_other_mode opt \<and> \<not> o_no_uid opt \<and> \<not> o_no_gid opt"

lemma shown_attrs:
  assumes "node_attrs True n t" and "keeps_all opt"
  shows "shown_mode opt n = st_mode (src_stat t) AND 0x1FF"
    "shown_owner opt n name = Lchown name (st_uid (src_stat t)) (st_gid (src_stat t))"
  using assms
  by (auto simp: shown_mode_def shown_owner_def node_attrs_def keeps_all_def Let_def intro!: file_mode_class_mode)

lemma concat_stored: "(\<And>c. \<not> P c \<Longrightarrow> f c = []) \<Longrightarrow> concat (map f (filter P cs)) = concat (map f cs)"
  by (induction cs) auto

lemma list_all2_map_eq: "list_all2 R xs ys \<Longrightarrow> (\<And>x y. y \<in> set ys \<Longrightarrow> R x y \<Longrightarrow> f x = g y) \<Longrightarrow> map f xs = map g ys"
  by (induction rule: list_all2_induct) auto

lemma src_calls_stored: "\<not> src_stored c \<Longrightarrow> src_calls c name = []"
  by (cases c) (simp_all add: src_stored_def)

lemma tree_calls_source:
  "stands_for True nodes lo i t \<Longrightarrow> keeps_all opt \<Longrightarrow> src_depth t \<le> d \<Longrightarrow>
    (case t of Link n st p \<Rightarrow> 0 \<notin> set p | Dir n st cs \<Rightarrow> \<forall>c \<in> set cs. source_ok c | _ \<Rightarrow> True) \<Longrightarrow>
    tree_calls opt nodes d i name = src_calls t name"
proof (induction t arbitrary: i d name)
  case (Dir n st cs)
  obtain d' where d: "d = Suc d'" using Dir.prems(3) by (cases d) auto
  obtain p es where es: "n_payload (nodes ! nat i) = Directory_payload p es"
    "list_all2 (lists_child True nodes lo) es (filter src_stored cs)" "node_attrs True (nodes ! nat i) (Dir n st cs)"
    using Dir.prems(1) by auto
  have "tree_calls opt nodes d' (de_number e) (de_name e) = src_calls c (src_name c)"
    if m: "c \<in> set (filter src_stored cs)" and r: "lists_child True nodes lo e c" for e c
  proof -
    have c: "c \<in> set cs" using m by simp
    have "src_depth c \<le> d'" using c Dir.prems(3) d by simp
    moreover have "source_ok c" using Dir.prems(4) c by simp
    then have "case c of Link n st p \<Rightarrow> 0 \<notin> set p | Dir n st cs \<Rightarrow> \<forall>c \<in> set cs. source_ok c | _ \<Rightarrow> True"
      by (cases c) auto
    ultimately show ?thesis using Dir.IH [OF c _ Dir.prems(2)] r by simp
  qed
  then have "map (\<lambda>e. tree_calls opt nodes d' (de_number e) (de_name e)) es =
      map (\<lambda>c. src_calls c (src_name c)) (filter src_stored cs)"
    by (rule list_all2_map_eq [OF es(2)])
  moreover have "concat (map (\<lambda>c. src_calls c (src_name c)) (filter src_stored cs)) =
      concat (map (\<lambda>c. src_calls c (src_name c)) cs)"
    by (rule concat_stored) (rule src_calls_stored)
  ultimately show ?case
    using es(1) d shown_attrs [OF es(3) Dir.prems(2)] by (simp add: Let_def)
next
  case (File n st x)
  then obtain d' where d: "d = Suc d'" by (cases d) auto
  have "node_attrs True (nodes ! nat i) (File n st x)" using File.prems(1) by simp
  then show ?case using File.prems d shown_attrs [OF _ File.prems(2)] by (simp add: Let_def)
next
  case (Link n st x)
  then obtain d' where d: "d = Suc d'" by (cases d) auto
  have "node_attrs True (nodes ! nat i) (Link n st x)" using Link.prems(1) by simp
  then show ?case
    using Link.prems d shown_attrs [OF _ Link.prems(2)] by (simp add: Let_def c_str_terminated)
qed simp


lemma demo_src_calls:
  "src_calls demo_root dot_slash =
     [Mkdir dot_slash 0x1ED, Chdir dot_slash,
      Mkdir [0x61] 0x1C0, Chdir [0x61], Chdir dot_dot, Chmod [0x61] 0x1C0, Lchown [0x61] 1000 100,
      Unlink [0x62], Open [0x62] 0x1A4, Write [5, 6], Close, Chmod [0x62] 0x1A4, Lchown [0x62] 1000 100,
      Unlink [0x63], Open [0x63] 0x124, Write [5, 6], Close, Chmod [0x63] 0x124, Lchown [0x63] 1000 100,
      Unlink [0x64], Symlink [0x62] [0x64], Chmod [0x64] 0x1FF, Lchown [0x64] 1000 100,
      Chdir dot_dot, Chmod dot_slash 0x1ED, Lchown dot_slash 1000 100]"
  by (simp add: demo_root_def demo_stat_def)


section \<open>Files with the same contents\<close>

text \<open>
  Whatever the mode, the owner and the times of a file are: if the table has a file with its
  contents, that node, with its own attributes, is entered under the name.
\<close>

lemma duplicate_keeps_attributes:
  assumes "type_of_mode (st_mode (fts_statp entry)) = Some regular_file" and "fts_opens entry"
    and "fts_reads entry = Some d" and "int (length d) = st_size (fts_statp entry)"
    and "malloc_ok alloc sizeof_node" and "malloc_ok alloc (8 + st_size (fts_statp entry))"
    and "find (same_file d) (sc_table s) = Some m"
    and "enter_node alloc (sc_table s) (sc_pointer s (fts_parent entry)) (fts_name entry) m = Ok (Some t)"
  shows "\<exists>s'. node_new alloc False entry s = Ok (s', Some m) \<and> sc_table s' = t \<and> sc_id s' = sc_id s \<and>
    sc_duplicates s' = sc_duplicates s + 1"
  using assms
  by (simp add: node_new_def node_contents_def file_contents_def or_duplicate_def set_pointer_def count_node_def Let_def)

end
