(* ===== verification/Mkfs_Options.thy ===== *)
theory Mkfs_Options
  imports Mkfs_System
begin

text \<open>
  What the command line of \<open>mkfs.smashfs\<close> does to the result: which options an image can come
  from, and options that are accepted and never lead to one.
\<close>

section \<open>What an image says about the options\<close>

lemma run_no_jobs: "run_jobs c entry sched 0 ks = Ok ks"
proof -
  have "rfold (job c entry) ts s = Ok s" if "js_pcs s = []" for ts s
    using that by (induction ts) (simp_all add: job_def)
  then show ?thesis by (simp add: run_jobs_def)
qed

lemma store_blocks_kept:
  assumes "store_blocks alloc ks = Ok (ks', cb)"
  shows "length ks' = length ks \<and> (\<forall>k \<in> set ks. bl_status k = 2)"
proof -
  have "\<exists>ks2. r = (ks1 @ ks2, i', cb') \<and> map bl_status ks2 = map bl_status ks"
    if "rfold (store_block alloc) ks (ks1, i, cb0) = Ok r" "r = (fst r, i', cb')" for r ks1 i i' cb0 cb'
    using that
  proof (induction ks arbitrary: ks1 i cb0)
    case (Cons k ks)
    then obtain ks1' i1 cb1 where "store_block alloc k (ks1, i, cb0) = Ok (ks1', i1, cb1)"
      "rfold (store_block alloc) ks (ks1', i1, cb1) = Ok r" by auto
    moreover from this(1) obtain k' where "ks1' = ks1 @ [k']" "bl_status k' = bl_status k"
      by (auto simp: store_block_def)
    ultimately show ?case using Cons.IH [of ks1' i1 cb1] Cons.prems(2) by fastforce
  qed auto
  then obtain i' cb' where r: "rfold (store_block alloc) ks ([], 0, buffer_init) = Ok (ks', i', cb')"
    "\<forall>k \<in> set ks'. bl_status k = 2" "map bl_status ks' = map bl_status ks"
    using assms by (fastforce simp: store_blocks_def)
  then have "length ks' = length ks" by (metis length_map)
  moreover have "bl_status ` set ks = bl_status ` set ks'" using r(3) by (metis list.set_map)
  with r(2) have "\<forall>k \<in> set ks. bl_status k = 2" by fastforce
  ultimately show ?thesis by blast
qed

lemma output_write_jobs:
  assumes "output_write env opt c nodes = Ok r"
  shows "1 \<le> o_njobs opt \<and> o_njobs opt \<le> 16"
proof -
  obtain s ns eb ks ecb where w: "compress_blocks env opt c s eb = Ok (ks, ecb)" "write_tables env opt c s ns ks ecb = Ok r"
    using assms by (auto simp: output_write_def Let_def)
  obtain ks0 ks1 where k: "new_blocks (e_alloc env) s eb = Ok ks0" "start_jobs env opt = Ok ()"
    "run_jobs c (buffer_contents eb) (e_sched env) (unat (o_njobs opt)) ks0 = Ok ks1"
    "store_blocks (e_alloc env) ks1 = Ok (ks, ecb)"
    using w(1) by (auto simp: compress_blocks_def)
  have "\<forall>b < unat (o_njobs opt). b < MAX_JOBS"
    using k(2) by (auto simp: start_jobs_def find_None_iff split: option.splits if_splits)
  then have "unat (o_njobs opt) \<le> 16" by (metis MAX_JOBS_def leI less_irrefl)
  moreover have "o_njobs opt \<noteq> 0"
  proof
    assume "o_njobs opt = 0"
    then have "ks1 = ks0" using k(3) run_no_jobs by simp
    moreover have "\<forall>x \<in> set ks0. bl_status x = 0"
      using k(1) by (auto simp: new_blocks_def new_block_def Let_def)
    ultimately have "ks1 = []" using store_blocks_kept [OF k(4)] by (cases ks1) auto
    then have "ks = []" using store_blocks_kept [OF k(4)] by simp
    then show False using w(2) by (simp add: write_tables_def super_3_def)
  qed
  ultimately show ?thesis by (simp add: word_le_nat_alt unat_gt_0 Suc_le_eq)
qed

text \<open>
  C11. When \<open>mkfs.smashfs\<close> comes to its end with status 0 and an image, it has been given a
  source, an output and a method, the block size is between 4096 and \<open>2 ^ 20\<close>, whatever the
  option said, the number of jobs is between 1 and 16, and all nodes have been released.  So
  \<open>-j 0\<close> and \<open>-j -1\<close> never give an image.
\<close>

theorem mkfs_image_options:
  assumes "mkfs_main env cs fts opts = Ok (0, Some img, left)"
  shows "\<exists>cf. main_options (e_alloc env) cs opts (config_init cs) = Ok (Some cf) \<and>
    cf_sources cf \<noteq> [] \<and> cf_output cf \<noteq> None \<and> cf_compressor cf \<noteq> None \<and>
    2 ^ 12 \<le> o_block_size (cf_options cf) \<and> o_block_size (cf_options cf) \<le> 2 ^ 20 \<and>
    1 \<le> o_njobs (cf_options cf) \<and> o_njobs (cf_options cf) \<le> 16 \<and> left = []"
proof -
  obtain r where r: "main_options (e_alloc env) cs opts (config_init cs) = Ok r"
    using assms by (cases "main_options (e_alloc env) cs opts (config_init cs)") (simp_all add: mkfs_main_def)
  obtain cf where cf: "r = Some cf" using assms r by (cases r) (simp_all add: mkfs_main_def)
  obtain c where c: "cf_sources cf \<noteq> []" "cf_output cf \<noteq> None" "cf_compressor cf = Some c"
    using assms r cf by (cases "cf_compressor cf") (auto simp: mkfs_main_def split: if_splits)
  obtain s where s: "sources_scan (e_alloc env) (cf_no_duplicates cf) fts (cf_sources cf) scan_init = Ok s"
    using assms r cf c by (cases "sources_scan (e_alloc env) (cf_no_duplicates cf) fts (cf_sources cf) scan_init")
      (simp_all add: mkfs_main_def)
  obtain nodes where o': "output_write env (cf_options cf) c (sc_table s) = Ok (nodes, img)" "left = release_nodes nodes"
    using assms r cf c s by (cases "output_write env (cf_options cf) c (sc_table s)") (auto simp: mkfs_main_def)
  note w = r [unfolded cf] c o'
  have "config_range (config_init cs)" by (simp add: config_range_def config_init_def jobs_range_def)
  from main_options_range [OF w(1) this] output_write_jobs [OF o'(1)] w
  show ?thesis by (simp add: config_range_def Let_def release_nodes_Nil)
qed

lemma mkfs_image_options_witness:
  "\<exists>img. mkfs_main demo_env [none_method] demo_root_fts demo_args = Ok (0, Some img, []) \<and>
    (\<exists>cf. main_options (e_alloc demo_env) [none_method] demo_args (config_init [none_method]) = Ok (Some cf) \<and>
      o_njobs (cf_options cf) \<le> 16)"
proof -
  obtain img where "mkfs_main demo_env [none_method] demo_root_fts demo_args = Ok (0, Some img, [])"
    by (rule written_from [OF demo_given demo_method(1,2)])
  with mkfs_image_options [OF this] show ?thesis by blast
qed

text \<open>
  The table of long options declares \<open>jobs\<close> without an argument: as soon as \<open>--jobs\<close> is
  among the options, wherever, and no \<open>--help\<close> is, the program reads the null pointer \<open>optarg\<close>.
\<close>

lemma mkfs_long_jobs:
  assumes "(0x6A, None) \<in> set opts" and "\<forall>arg. (0x68, arg) \<notin> set opts"
  shows "mkfs_main env cs fts opts = Undef"
proof -
  have "main_options alloc cs opts cf = Undef" for alloc cf
    using assms
  proof (induction opts arbitrary: cf)
    case (Cons opt opts)
    show ?case
    proof (cases "opt = (0x6A, None)")
      case True
      then show ?thesis by (simp add: main_option_def Let_def with_optarg_def)
    next
      case False
      have "fst opt \<noteq> 0x68" using Cons.prems(2) by (cases opt) auto
      then have "main_option alloc cs opt cf = Undef \<or> (\<exists>cf'. main_option alloc cs opt cf = Ok (Some cf'))"
        by (cases opt) (simp add: main_option_def Let_def with_optarg_def split: option.split)
      then show ?thesis using Cons.IH Cons.prems False by auto
    qed
  qed simp
  then show ?thesis by (simp add: mkfs_main_def)
qed

lemma mkfs_long_jobs_witness:
  "mkfs_main demo_env [none_method] demo_root_fts [(0x73, Some [0x73]), (0x6A, None), (0x6F, Some [0x6F])] = Undef"
  by (rule mkfs_long_jobs) simp_all

section \<open>Block sizes that are no powers of two\<close>

definition refuses_huge :: "heap \<Rightarrow> bool" where
  "refuses_huge alloc \<longleftrightarrow> (\<forall>n. 2 ^ 63 \<le> n \<longrightarrow> \<not> alloc n)"

lemma negative_malloc: "refuses_huge alloc \<Longrightarrow> - (2 ^ 63) \<le> n \<Longrightarrow> n < 0 \<Longrightarrow> \<not> malloc_ok alloc n"
proof -
  assume h: "refuses_huge alloc" and n: "- (2 ^ 63) \<le> n" "n < 0"
  have "(n + 2 ^ 64) mod 2 ^ 64 = n + 2 ^ 64" by (rule mod_pos_pos_trivial) (use n in auto)
  then have "n mod 2 ^ 64 = n + 2 ^ 64" by (simp only: mod_add_self2)
  then show ?thesis using h n by (simp add: refuses_huge_def malloc_ok_def)
qed

text \<open>With \<open>block_log2\<close> 0 there are more blocks than bytes, and the last of them have negative sizes.\<close>

lemma new_blocks_odd:
  assumes h: "heap_ok alloc" "refuses_huge alloc" and e: "buffer_ok eb" "length (buffer_contents eb) < 2 ^ 31"
    and b: "2 ^ 12 \<le> uint (sb_block_size s)" "uint (sb_block_size s) \<le> 2 ^ 20"
    and n: "uint (sb_blocks s) = int (length (buffer_contents eb)) + (uint (sb_block_size s) - 1)"
  shows "new_blocks alloc s eb = Err Minus1"
proof -
  let ?L = "int (length (buffer_contents eb))" and ?B = "uint (sb_block_size s)"
  define k where "k = unat (sb_blocks s) - 1"
  have k: "int k = ?L + ?B - 2" "k < unat (sb_blocks s)"
    using n b by (simp_all add: k_def unat_eq_nat_uint nat_diff_distrib)
  have bb: "int k * ?B \<le> 2 ^ 32 * 2 ^ 20"
    by (rule mult_mono) (use k e(2) b in auto)
  have "int k * 2 \<le> int k * ?B" by (rule mult_left_mono) (use b in auto)
  moreover have "4096 \<le> ?B" "0 \<le> ?L" using b by simp_all
  ultimately have "?L - int k * ?B < 0" using k(1) by linarith
  then have "bl_size (new_block s eb k) < 0" "- (2 ^ 62) \<le> bl_size (new_block s eb k)"
    using b bb by (auto simp: new_block_def Let_def buffer_ok_length [OF e(1)] min_def)
  then have "\<not> malloc_ok alloc (bl_size (new_block s eb k) * 2)"
    by (intro negative_malloc [OF h(2)]) simp_all
  then have "\<not> (\<forall>b \<in> set [0..<unat (sb_blocks s)]. malloc_ok alloc (bl_size (new_block s eb b) * 2))"
    using k(2) by auto
  moreover have "malloc_ok alloc (uint (sb_blocks s) * sizeof_block)"
    using h(1) uint_lt2p [of "sb_blocks s"] by (intro heap_okD) (auto simp: sizeof_block_def)
  moreover have "malloc_ok alloc (uint (sb_block_size s * 2))"
    using h(1) uint_lt2p [of "sb_block_size s * 2"] by (intro heap_okD) auto
  ultimately show ?thesis by (simp add: new_blocks_def check_def)
qed

lemma output_write_odd:
  assumes env: "system_ok env" "refuses_huge (e_alloc env)" and t: "table_ok nodes"
    and b: "slog (o_block_size opt) = 0" "2 ^ 12 \<le> o_block_size opt" "o_block_size opt \<le> 2 ^ 20"
  shows "output_write env opt c nodes = Err Minus1"
proof -
  have n: "\<forall>n \<in> set nodes. node_ok n" "nodes \<noteq> []" using t by (simp_all add: table_ok_def)
  obtain s where s: "scan_maxima opt c nodes (e_stack env) = Ok s" "entry_widths_ok s"
    "sb_block_size s = o_block_size opt" "sb_block_log2 s = slog (o_block_size opt)"
    using super_1_ok [OF n, of opt c "e_stack env"] unfolding super_scanned_def by blast
  let ?ms = "HASH_SRT nodes_sort_by_type nodes"
  have ms: "mset ?ms = mset nodes" by (rule mset_HASH_SRT)
  then have "set ?ms = set nodes" by (metis mset_eq_setD)
  then have pay: "\<forall>n \<in> set ?ms. payload_ok n" using n(1) by (simp add: node_ok_def)
  have len: "length (entry_data s ?ms) < 2 ^ 31"
    using entry_data_bound [OF pay s(2)] t sum_list_mset [OF ms, of "\<lambda>n. payload_bound (n_payload n)"]
    by (simp add: table_ok_def)
  obtain eb where eb: "fill_entries (e_alloc env) s ?ms = Ok (placed s 0 ?ms, eb)" "buffer_ok eb"
    "buffer_contents eb = entry_data s ?ms"
    using fill_entries_ok [of "e_alloc env" s ?ms] env s(2) pay len by (auto simp: system_ok_def)
  let ?s = "super_2 (placed s 0 ?ms) eb s"
  have B: "2 ^ 12 \<le> uint (sb_block_size ?s)" "uint (sb_block_size ?s) \<le> 2 ^ 20"
    using b(2,3) s(3) by (simp_all add: super_2_def word_le_def)
  have "uint (o_block_size opt - 1) = uint (o_block_size opt) - 1"
    using b(2) by (subst uint_sub_if') (simp add: word_le_def)
  moreover have "uint (word_of_nat (length (entry_data s ?ms)) :: u32) = int (length (entry_data s ?ms))"
    using len uint_to_u32_id [of "int (length (entry_data s ?ms))"] by simp
  ultimately have "uint (word_of_nat (length (entry_data s ?ms)) + (o_block_size opt - 1)) =
      int (length (entry_data s ?ms)) + (uint (o_block_size opt) - 1)"
    using B s(3) len by (subst uint_plus_simple_iff [THEN iffD1]) (simp_all add: super_2_def no_olen_add)
  then have "uint (sb_blocks ?s) = int (length (buffer_contents eb)) + (uint (sb_block_size ?s) - 1)"
    using s(3,4) b(1) eb(3) by (simp add: super_2_def buffer_ok_length [OF eb(2)])
  from new_blocks_odd [OF _ env(2) eb(2) _ B this] eb(3) len env(1)
  have "compress_blocks env opt c ?s eb = Err Minus1" by (simp add: compress_blocks_def system_ok_def)
  then show ?thesis using s(1) eb(1) by (simp add: output_write_def Let_def)
qed

text \<open>
  C40. \<open>main\<close> limits the block size to 4096 and \<open>2 ^ 20\<close> and accepts every number between them.
  But with one that is no power of two, such as 5000, no image of any directory can be written:
  \<open>slog\<close> finds no exponent, the number of blocks becomes the number of bytes and more, a block
  behind the end gets a negative size and cannot be allocated.
\<close>

theorem mkfs_odd_block_size:
  assumes "system_ok env" and "refuses_huge (e_alloc env)"
    and "main_options (e_alloc env) cs opts (config_init cs) = Ok (Some cf)"
    and "slog (o_block_size (cf_options cf)) = 0"
    and "cf_sources cf = [path]" and "fts [path] = Some (fts_walk 0 1 t)" and "root_ok t" and "root_fits fuel t"
  shows "mkfs_main env cs fts opts = Ok (-1, None, [])"
proof -
  have h: "heap_ok (e_alloc env)" using assms(1) by (simp add: system_ok_def)
  obtain s where s: "sources_scan (e_alloc env) (cf_no_duplicates cf) fts [path] scan_init = Ok s"
    "table_good (sc_table s)" "stands_for (cf_no_duplicates cf) (sc_table s) 0 0 t" "sc_table s \<noteq> []"
    "length (sc_table s) \<le> src_count t" "all_dirs (sc_table s) \<le> src_dirs t" "all_bytes (sc_table s) \<le> src_bytes t"
    by (rule root_scanned [where fts = fts and path = path and nd = "cf_no_duplicates cf", OF h assms(7,8,6)])
  have "config_range (config_init cs)" by (simp add: config_range_def config_init_def jobs_range_def)
  from main_options_range [OF assms(3) this]
  have "2 ^ 12 \<le> o_block_size (cf_options cf)" "o_block_size (cf_options cf) \<le> 2 ^ 20"
    by (simp_all add: config_range_def Let_def)
  from output_write_odd [OF assms(1,2) scanned_good(1) [OF s(2,4,3,5-7) assms(7,8)] assms(4) this]
  show ?thesis
    using assms(3,5) s(1) by (simp add: mkfs_main_def release_nodes_Nil split: option.split)
qed

text \<open>\<open>mkfs.smashfs -b 5000 -s s -o o\<close>, where the allocator refuses what no object can have.\<close>

lemma mkfs_odd_block_size_witness:
  "mkfs_main (demo_env\<lparr>e_alloc := (\<lambda>n. n < 2 ^ 63)\<rparr>) [none_method] demo_root_fts
     [(0x62, Some [0x35, 0x30, 0x30, 0x30]), (0x73, Some [0x73]), (0x6F, Some [0x6F])] = Ok (-1, None, [])"
proof -
  let ?env = "demo_env\<lparr>e_alloc := (\<lambda>n. n < 2 ^ 63)\<rparr>"
  let ?opts = "[(0x62, Some [0x35, 0x30, 0x30, 0x30]), (0x73, Some [0x73]), (0x6F, Some [0x6F])]"
  obtain cf where cf: "main_options (e_alloc ?env) [none_method] ?opts (config_init [none_method]) = Ok (Some cf)"
    "o_block_size (cf_options cf) = 5000" "cf_sources cf = [[0x73]]"
    by (simp add: main_option_def Let_def with_optarg_def strdup_def malloc_ok_def config_init_def set_options_def
        atoi_def is_space_def to_s32_def sizeof_source_def)
  have "system_ok ?env" by (simp add: system_ok_def demo_env_def heap_ok_def)
  moreover have "refuses_huge (e_alloc ?env)" by (simp add: refuses_huge_def)
  moreover have "slog (o_block_size (cf_options cf)) = 0" unfolding cf(2) by code_simp
  ultimately show ?thesis
    using mkfs_odd_block_size [where fts = demo_root_fts and path = "[0x73]", OF _ _ cf(1) _ cf(3) demo_root_fts demo_root_ok]
    by blast
qed

end
