(* ===== verification/Kernel_Module.thy ===== *)
theory Kernel_Module
  imports Kernel_Super
begin

text \<open>
  \<open>src/linux/super.c\<close>: the life of the module, from \<open>init_smashfs_fs\<close> to \<open>exit_smashfs_fs\<close>, and
  the slab cache of its inodes.  Since 2.6.38 inodes are freed by a callback after an RCU grace
  period; \<open>rcu\<close> tells which of the two versions of \<open>smashfs_destroy_inode\<close> is compiled.
\<close>

section \<open>The state and the operations\<close>

text \<open>
  The pointer to the cache, how many of its objects are allocated, the inodes that the kernel
  has, the callbacks that wait, and whether the code is loaded and the file system registered.
\<close>

record module =
  md_cache :: cache
  md_objects :: nat
  md_inodes :: nat
  md_callbacks :: nat
  md_loaded :: bool
  md_registered :: bool

definition module_init :: module where
  "module_init = \<lparr>md_cache = No_cache, md_objects = 0, md_inodes = 0, md_callbacks = 0, md_loaded = False,
     md_registered = False\<rparr>"

text \<open>\<open>struct node\<close> and \<open>struct inode\<close>, whose size only the kernel knows.\<close>

definition init_inodecache :: "int option \<Rightarrow> module \<Rightarrow> int \<times> module" where
  "init_inodecache created m =
     (case created of
        Some sz \<Rightarrow> (0, m\<lparr>md_cache := Cache sz\<rparr>) | None \<Rightarrow> (enomem, m\<lparr>md_cache := No_cache\<rparr>))"

text \<open>\<open>kmem_cache_destroy\<close> is for empty caches.\<close>

definition destroy_inodecache :: "module \<Rightarrow> module res" where
  "destroy_inodecache m =
     (case md_cache m of
        No_cache \<Rightarrow> Ok m
      | Cache sz \<Rightarrow> if md_objects m = 0 then Ok (m\<lparr>md_cache := Dead_cache\<rparr>) else Undef
      | Dead_cache \<Rightarrow> Undef)"

text \<open>When the file system cannot be registered the cache stays.\<close>

definition init_smashfs_fs :: "int option \<Rightarrow> int \<Rightarrow> module \<Rightarrow> (int \<times> module) res" where
  "init_smashfs_fs created register m =
     (let (rc, m) = init_inodecache created m in
      if rc \<noteq> 0 then rbind (destroy_inodecache m) (\<lambda>m. Ok (rc, m))
      else Ok (register, m\<lparr>md_registered := register = 0\<rparr>))"

definition exit_smashfs_fs :: "module \<Rightarrow> module res" where
  "exit_smashfs_fs m = destroy_inodecache (m\<lparr>md_registered := False\<rparr>)"

definition smashfs_alloc_inode :: "bool \<Rightarrow> module \<Rightarrow> (bool \<times> module) res" where
  "smashfs_alloc_inode allocated m =
     (case md_cache m of
        Cache sz \<Rightarrow> Ok (if allocated
          then (True, m\<lparr>md_objects := md_objects m + 1, md_inodes := md_inodes m + 1\<rparr>) else (False, m))
      | _ \<Rightarrow> Undef)"

definition inode_free :: "module \<Rightarrow> module res" where
  "inode_free m =
     (case md_cache m of
        Cache sz \<Rightarrow> if md_objects m = 0 then Undef else Ok (m\<lparr>md_objects := md_objects m - 1\<rparr>)
      | _ \<Rightarrow> Undef)"

text \<open>The callback is code of the module.\<close>

definition smashfs_i_callback :: "module \<Rightarrow> module res" where
  "smashfs_i_callback m = (if md_loaded m then inode_free m else Undef)"

definition smashfs_destroy_inode :: "bool \<Rightarrow> module \<Rightarrow> module res" where
  "smashfs_destroy_inode rcu m =
     (if rcu then Ok (m\<lparr>md_callbacks := md_callbacks m + 1\<rparr>) else inode_free m)"

section \<open>What the kernel does with the module\<close>

text \<open>
  It loads a module with its globals as they are initialised, and keeps it if \<open>init\<close> returns 0;
  it has inodes only of a file system that is registered, and unloads a module when nothing
  mounted is left, which includes its inodes but not the callbacks.
\<close>

inductive module_step :: "bool \<Rightarrow> module \<Rightarrow> module res \<Rightarrow> bool" for rcu :: bool where
  load: "\<not> md_loaded m \<Longrightarrow> init_smashfs_fs created register (m\<lparr>md_cache := No_cache\<rparr>) = Ok (rc, m') \<Longrightarrow>
    module_step rcu m (Ok (m'\<lparr>md_loaded := rc = 0\<rparr>))"
| alloc: "md_registered m \<Longrightarrow> module_step rcu m (rbind (smashfs_alloc_inode allocated m) (\<lambda>(a, m). Ok m))"
| destroy: "0 < md_inodes m \<Longrightarrow>
    module_step rcu m (smashfs_destroy_inode rcu (m\<lparr>md_inodes := md_inodes m - 1\<rparr>))"
| callback: "0 < md_callbacks m \<Longrightarrow>
    module_step rcu m (smashfs_i_callback (m\<lparr>md_callbacks := md_callbacks m - 1\<rparr>))"
| unload: "md_loaded m \<Longrightarrow> md_inodes m = 0 \<Longrightarrow>
    module_step rcu m (rbind (exit_smashfs_fs m) (\<lambda>m. Ok (m\<lparr>md_loaded := False\<rparr>)))"

inductive module_reach :: "bool \<Rightarrow> module \<Rightarrow> bool" for rcu :: bool where
  init: "module_reach rcu module_init"
| step: "module_reach rcu m \<Longrightarrow> module_step rcu m (Ok m') \<Longrightarrow> module_reach rcu m'"

inductive_cases module_step_returns: "module_step rcu m (Ok m')"
inductive_cases module_step_fails: "module_step rcu m Undef"

lemmas module_ops = init_smashfs_fs_def exit_smashfs_fs_def smashfs_alloc_inode_def smashfs_destroy_inode_def
  smashfs_i_callback_def inode_free_def init_inodecache_def destroy_inodecache_def

section \<open>The invariant\<close>

definition module_inv :: "bool \<Rightarrow> module \<Rightarrow> bool" where
  "module_inv rcu m \<longleftrightarrow> md_objects m = md_inodes m + md_callbacks m \<and> (md_registered m \<longleftrightarrow> md_loaded m) \<and>
     (md_loaded m \<longrightarrow> (\<exists>sz. md_cache m = Cache sz)) \<and> (\<not> md_loaded m \<longrightarrow> md_objects m = 0) \<and>
     (\<not> rcu \<longrightarrow> md_callbacks m = 0)"

lemma module_inv_step:
  assumes "module_inv rcu m" and "module_step rcu m (Ok m')"
  shows "module_inv rcu m'"
  using assms(2,1)
  by (elim module_step_returns)
    (auto simp: module_inv_def module_ops enomem_def split: option.splits if_splits cache.splits)

lemma module_reach_inv: "module_reach rcu m \<Longrightarrow> module_inv rcu m"
proof (induction rule: module_reach.induct)
  case init
  then show ?case by (simp add: module_inv_def module_init_def)
next
  case (step m m')
  then show ?case by (blast intro: module_inv_step)
qed

text \<open>
  C35. As long as the module is loaded its inode cache is there and holds exactly the inodes of the
  kernel and those that wait for their callback; nothing is allocated from, freed into or left
  in a cache that is not there.  The one exception: with RCU, unloading the module when all is
  unmounted but callbacks still wait destroys a cache that is not empty, since
  \<open>exit_smashfs_fs\<close> does not wait for them.
\<close>

theorem kernel_inode_cache:
  assumes "module_reach rcu m"
  shows "md_objects m = md_inodes m + md_callbacks m \<and> (md_loaded m \<longrightarrow> (\<exists>sz. md_cache m = Cache sz)) \<and>
    (module_step rcu m Undef \<longleftrightarrow> rcu \<and> md_loaded m \<and> md_inodes m = 0 \<and> 0 < md_callbacks m)"
proof -
  have i: "module_inv rcu m" using assms by (rule module_reach_inv)
  have "rcu \<and> md_loaded m \<and> md_inodes m = 0 \<and> 0 < md_callbacks m" if "module_step rcu m Undef"
    using that i
    by (elim module_step_fails) (auto simp: module_inv_def module_ops split: if_splits)
  moreover have "module_step rcu m Undef" if r: "rcu \<and> md_loaded m \<and> md_inodes m = 0 \<and> 0 < md_callbacks m"
  proof -
    have "rbind (exit_smashfs_fs m) (\<lambda>m. Ok (m\<lparr>md_loaded := False\<rparr>)) = Undef"
      using i r by (auto simp: module_inv_def module_ops)
    with module_step.unload [of m rcu] r show ?thesis by simp
  qed
  ultimately show ?thesis using i by (auto simp: module_inv_def)
qed

text \<open>The module is loaded, an inode comes and goes, and the module is unloaded.\<close>

lemma kernel_inode_cache_witness:
  "\<exists>m. module_reach True m \<and> md_callbacks m = 1 \<and> module_step True m Undef"
proof -
  let ?m1 = "module_init\<lparr>md_cache := Cache 700, md_registered := True, md_loaded := True\<rparr>"
  let ?m2 = "?m1\<lparr>md_objects := 1, md_inodes := 1\<rparr>"
  let ?m3 = "?m1\<lparr>md_objects := 1, md_callbacks := 1\<rparr>"
  have "module_step True module_init (Ok ?m1)"
    using module_step.load [of module_init "Some 700" 0 0 "module_init\<lparr>md_cache := Cache 700, md_registered := True\<rparr>" True]
    by (simp add: module_init_def init_smashfs_fs_def init_inodecache_def)
  then have r1: "module_reach True ?m1" by (rule module_reach.step [OF module_reach.init])
  have "module_step True ?m1 (Ok ?m2)"
    using module_step.alloc [of ?m1 True True] by (simp add: smashfs_alloc_inode_def module_init_def)
  with r1 have r2: "module_reach True ?m2" by (rule module_reach.step)
  have "module_step True ?m2 (Ok ?m3)"
    using module_step.destroy [of ?m2 True] by (simp add: smashfs_destroy_inode_def module_init_def)
  with r2 have r3: "module_reach True ?m3" by (rule module_reach.step)
  from kernel_inode_cache [OF r3] have "module_step True ?m3 Undef" by (simp add: module_init_def)
  with r3 show ?thesis by (intro exI [of _ ?m3]) (simp add: module_init_def)
qed

text \<open>
  When the file system cannot be registered the module is not loaded, but its inode cache has
  been created and stays.
\<close>

lemma init_keeps_cache:
  assumes "register \<noteq> 0"
  shows "\<exists>m'. init_smashfs_fs (Some sz) register m = Ok (register, m') \<and> md_cache m' = Cache sz \<and> \<not> md_registered m'"
  using assms by (simp add: init_smashfs_fs_def init_inodecache_def)

end
