(* ===== verification/Kernel_Defects.thy ===== *)
theory Kernel_Defects
  imports Kernel_Properties
begin

text \<open>
  Images that mkfs.smashfs writes and unfs.smashfs extracts, but that \<open>smashfs_fill_super\<close> of
  \<open>src/linux/super.c\<close> cannot mount, and what the module does when memory is short.
\<close>

section \<open>An inode table that is larger than a block\<close>

text \<open>
  A table of many nodes, for the method \<open>none\<close>: each takes at least the 10 bits of its owner, and
  the compressed table is as large as the table.
\<close>

definition big_nodes :: "nat \<Rightarrow> mnode list" where
  "big_nodes m = demo_node 0 2 1000 (Directory_payload 0 [\<lparr>de_number = 1, de_type = 1, de_name = [0x61]\<rparr>]) 3 #
     map (\<lambda>i. demo_node (int i + 1) 1 1005 (File_payload []) 0) [0..<m]"

lemma big_size:
  "length (big_nodes m) = Suc m" "sum_list (map (\<lambda>n. payload_bound (n_payload n)) (big_nodes m)) = 21"
  "image_bound (big_nodes m) = 4386 + 44 * int m"
proof -
  have "map (\<lambda>n. payload_bound (n_payload n)) (big_nodes m) = 21 # map (\<lambda>i. 0) [0..<m]"
    by (simp add: big_nodes_def demo_node_def payload_bound_def comp_def)
  then show s: "sum_list (map (\<lambda>n. payload_bound (n_payload n)) (big_nodes m)) = 21" by simp
  show l: "length (big_nodes m) = Suc m" by (simp add: big_nodes_def)
  show "image_bound (big_nodes m) = 4386 + 44 * int m" by (simp add: image_bound_def s l)
qed

lemma big_hd: "n_uid (hd (big_nodes m)) = 1000" "big_nodes m \<noteq> []" "has_contents (hd (big_nodes m))"
  by (simp_all add: big_nodes_def demo_node_def has_contents_def)

lemma big_numbered: "numbered (big_nodes m)"
proof -
  have "map n_number (big_nodes m) = 0 # map (\<lambda>i. int (Suc i)) [0..<m]"
    by (simp add: big_nodes_def demo_node_def comp_def)
  also have "\<dots> = map int [0..<Suc m]" by (simp add: map_upt_Suc del: upt_Suc)
  finally show ?thesis by (simp add: numbered_def big_size del: upt_Suc)
qed

lemma big_table:
  assumes "m < 2 ^ 20"
  shows "table_ok (big_nodes m)"
proof -
  have "node_ok n" if "n \<in> set (big_nodes m)" for n
    using that by (auto simp: big_nodes_def demo_node_def node_ok_def payload_ok_def dentry_ok_def u32_range_def de_length_def)
  moreover have "big_nodes m \<noteq> []" by (simp add: big_nodes_def)
  ultimately show ?thesis using assms by (simp add: table_ok_def big_size)
qed

lemma exact_width:
  assumes "field_value (sint w, v) = v" and "bit (v :: u32) j" and "uint w \<le> 32"
  shows "int j < uint (w :: u32)"
proof -
  have "take_bit (unat w) v = v" using assms(1) field_width [OF assms(3)] by simp
  then have "bit (take_bit (unat w) v) j" using assms(2) by simp
  then have "j < unat w" by (simp add: bit_take_bit_iff)
  then show ?thesis by (simp only: uint_nat of_nat_less_iff)
qed

lemma big_image:
  assumes i: "image_ok kernel_none_uncompress opt s nodes img" and n: "nodes \<noteq> []" "n_uid (hd nodes) = 1000"
    and opt: "\<not> o_no_uid opt"
  shows "10 * int (length nodes) \<le> 8 * uint (sb_inodes_csize s)"
proof -
  obtain icb btab ecb ks where l: "layout_ok s img icb btab ecb" and t: "inode_table_ok kernel_none_uncompress s nodes icb"
    and v: "map field_value (inode_fields s (hd nodes)) = inode_view opt s (hd nodes)"
    using i n(1) unfolding image_ok_def by fastforce
  have w: "inode_widths_ok s" "int (length nodes) = uint (sb_inodes s)" "length nodes < 2 ^ 22"
    "kernel_none_uncompress icb (inode_table_size s) = (inode_table_size s, itab) \<Longrightarrow> length icb = length itab" for itab
    using t by (auto simp: inode_table_ok_def kernel_none_uncompress_def split: if_splits)
  then have c: "int (length icb) = inode_table_size s" using t by (auto simp: inode_table_ok_def)
  have u: "uint (ib_uid (sb_ibits s)) \<le> 32" using w(1) by (simp add: inode_widths_ok_def ibits_widths_def)
  have "field_value (sint (ib_uid (sb_ibits s)), 1000) = 1000"
    using v opt n(2) by (simp add: inode_fields_def inode_view_def Let_def)
  moreover have "bit (1000 :: u32) 9" by simp
  ultimately have "10 \<le> uint (ib_uid (sb_ibits s))" using exact_width [of "ib_uid (sb_ibits s)" 1000 9] u by simp
  then have "10 \<le> max_inode_size (sb_ibits s)" by (simp add: max_inode_size_def add_increasing add_increasing2)
  then have "10 * int (length nodes) \<le> uint (sb_inodes s) * max_inode_size (sb_ibits s)"
    unfolding w(2) by (subst mult.commute) (rule mult_left_mono; simp)
  then have "10 * int (length nodes) \<le> 8 * inode_table_size s"
    using bytes_of_bits_bounds(1) [of "uint (sb_inodes s) * max_inode_size (sb_ibits s)"]
    by (simp add: inode_table_size_def)
  then show ?thesis using l c by (simp add: layout_ok_def)
qed

lemma written_super:
  assumes "system_ok env" and "options_ok opt k" and "table_ok nodes" and "codec (compressor_compress c) decomp"
    and "output_write env opt c nodes = Ok (nodes', img)"
  defines "s \<equiv> super_of_bytes (take 152 img)"
  shows "image_ok decomp opt s nodes' img" and "uint (sb_block_size s) = 2 ^ k"
    and "sb_compression_type s = compressor_type c"
proof -
  obtain t where t: "image_ok decomp opt t nodes' img" "sb_block_size t = 2 ^ k"
    "sb_compression_type t = compressor_type c"
    using output_write_image [OF assms(1-5)] by blast
  obtain icb btab ecb pad where img: "img = super_bytes t @ icb @ btab @ ecb @ pad"
    using t(1) unfolding image_ok_def layout_ok_def by blast
  have "super_of_bytes (super_bytes t) = t" by simp
  then have s: "s = t" by (simp add: s_def img)
  have "(2 :: int) ^ k < 2 ^ 32" using assms(2) by (intro power_strict_increasing) (auto simp: options_ok_def)
  then have "uint (to_u32 (2 ^ k)) = 2 ^ k" by (intro uint_to_u32_id) simp_all
  then show "uint (sb_block_size s) = 2 ^ k" by (simp add: t(2) s)
  show "image_ok decomp opt s nodes' img" "sb_compression_type s = compressor_type c" by (simp_all add: s t)
qed

text \<open>
  C29. Mounting an image whose inode table, compressed, is larger than a block writes behind the
  block buffer that the table is read into, though mkfs.smashfs has written it without a
  complaint and unfs.smashfs loads it.
\<close>

theorem kernel_table_overrun:
  assumes "system_ok env" and "options_ok opt k" and "table_ok nodes" and "numbered nodes"
    and "codec (compressor_compress c) (compressor_uncompress c)" and "codec (compressor_compress c) decomp"
    and "compressor_create_type cs (compressor_type c) = Some c"
    and "output_write env opt c nodes = Ok (nodes', img)" and "reader_ok renv img"
    and "mount_ok kenv img" and "kernel_finds kenv kern (compressor_type c) decomp"
    and "int (length img) < 2 ^ 31 - 2 ^ 17"
    and "2 ^ k < uint (sb_inodes_csize (super_of_bytes (take 152 img)))"
  shows "smashfs_fill_super kenv kern = Undef \<and> (\<exists>u. unfs_load renv cs img = Ok u)"
proof -
  note s = written_super [OF assms(1-3,6,8)]
  have "smashfs_fill_super kenv kern = Undef"
    by (rule smashfs_fill_super_overrun [OF s(1) assms(10) _ assms(12)]) (use assms(11,13) s(2,3) in simp_all)
  then show ?thesis using written_loaded [OF assms(1-5,7-9)] by blast
qed

lemma kernel_table_overrun_witness:
  "\<exists>nodes' img u. output_write demo_env demo_options none_method (big_nodes 4000) = Ok (nodes', img) \<and>
     unfs_load (demo_reader img) [none_method] img = Ok u \<and>
     smashfs_fill_super (demo_kenv img) demo_kernel = Undef"
proof -
  have t: "table_ok (big_nodes 4000)" by (rule big_table) simp
  note num = big_numbered [of 4000]
  have "\<exists>n \<in> set (big_nodes 4000). has_contents n" using big_hd(2,3) hd_in_set by blast
  then obtain nodes' img where w: "output_write demo_env demo_options none_method (big_nodes 4000) = Ok (nodes', img)"
    using output_write_total [OF demo_system demo_options t none_codec none_shrinks] has_contents_bytes by fast
  note s = written_super [OF demo_system demo_options t demo_none w]
  have o: "\<not> o_no_padding demo_options" "\<not> o_no_uid demo_options" by (simp_all add: demo_options_def)
  have l: "int (length img) \<le> image_bound (big_nodes 4000)" "length img mod 4096 = 0"
    "map unplaced nodes' = map unplaced (big_nodes 4000)"
    using output_write_image [OF demo_system demo_options t demo_none w] o(1)
      written_loaded [OF demo_system demo_options t num none_codec demo_create w demo_reader] by auto
  have "length img mod 1024 = 0" using l(2) mod_mod_cancel [of 1024 4096 "length img"] by simp
  then have m: "mount_ok (demo_kenv img) img" by (rule demo_device)
  have f: "kernel_finds (demo_kenv img) demo_kernel (compressor_type none_method) kernel_none_uncompress"
    using demo_finds by (simp add: compressor_type_def none_method_def)
  have "image_bound (big_nodes 4000) = 4386 + 44 * 4000" by (simp add: big_size)
  then have sz: "int (length img) < 2 ^ 31 - 2 ^ 17" using l(1) by simp
  have len: "length nodes' = 4001" using arg_cong [OF l(3), of length] by (simp add: big_size(1))
  then have ne: "nodes' \<noteq> []" by auto
  have "unplaced (hd nodes') = unplaced (hd (big_nodes 4000))"
    using arg_cong [OF l(3), of hd] hd_map [OF ne, of unplaced] hd_map [OF big_hd(2), of unplaced 4000] by metis
  then have "n_uid (hd nodes') = 1000" using unplaced_fields(7) big_hd(1) by metis
  from big_image [OF s(1) ne this o(2)] len
  have "2 ^ 12 < uint (sb_inodes_csize (super_of_bytes (take 152 img)))" by simp
  from kernel_table_overrun [OF demo_system demo_options t num none_codec demo_none demo_create w demo_reader m f sz this] w
  show ?thesis by blast
qed

section \<open>Memory that is short\<close>

text \<open>
  \<open>node_read\<close> takes two buffers from the cache.  Without the first it fails; without the second
  it frees the first twice.
\<close>

lemma node_read_short_of_memory:
  assumes "k_cache (fst st) = Cache cap" and "\<not> (ke_cache_alloc env 0 \<and> ke_cache_alloc env 1)"
  shows "node_read env fuel st n fn c offset sz = (if ke_cache_alloc env 0 then Undef else Ok (-1, c))"
  using assms by (simp add: node_read_def block_alloc_def Let_def)

text \<open>So reading a page of a file leaves it out of date in the one case, and goes wrong in the other.\<close>

lemma readpage_short_of_memory:
  assumes "k_cache (fst st) = Cache cap" and "\<not> (ke_cache_alloc env 0 \<and> ke_cache_alloc env 1)"
    and "nd_type (i_node inode) = inode_code regular_file"
    and "int index < to_s32 (drop_bit PAGE_CACHE_SHIFT (i_size inode + PAGE_CACHE_SIZE - 1)) mod 2 ^ 64"
  shows "smashfs_readpage env fuel st inode page index =
    (if ke_cache_alloc env 0 then Undef else Ok (False, page))"
  using assms by (simp add: smashfs_readpage_def node_read_short_of_memory [OF assms(1,2)] Let_def)

end
