(* ===== verification/Unfs_Debug.thy ===== *)
theory Unfs_Debug
  imports Unfs_Properties
begin

text \<open>
  \<open>src/mkfs/unfs.c\<close>, \<open>main\<close> with \<open>--debug\<close>: the listing of the super block and, from the third
  level on, of the inode table.  \<open>node_fill\<close> seeks to the inode it wants; the listing reads the
  table from its start to its end, and leaves out the fields that are not stored.  It is shown
  to come to the same numbers.
\<close>

section \<open>The listings\<close>

text \<open>
  A line has a label, what is printed as hexadecimal, and what is printed as decimal number;
  the lines of headings alone are left out.
\<close>

type_synonym super_line = "string \<times> u32 option \<times> u32"

definition print_super :: "super_block \<Rightarrow> super_line list" where
  "print_super s =
     (let i = sb_ibits s; k = sb_kbits s; m = sb_min s in
      [(''magic'', Some (sb_magic s), sb_magic s),
       (''version'', Some (sb_version s), sb_version s),
       (''ctime'', Some (sb_ctime s), sb_ctime s),
       (''block_size'', Some (sb_block_size s), sb_block_size s),
       (''block_log2'', Some (sb_block_log2 s), sb_block_log2 s),
       (''inodes'', Some (sb_inodes s), sb_inodes s),
       (''blocks'', Some (sb_blocks s), sb_blocks s),
       (''root'', Some (sb_root s), sb_root s),
       (''inodes_offset'', Some (sb_inodes_offset s), sb_inodes_offset s),
       (''inodes_size'', Some (sb_inodes_size s), sb_inodes_size s),
       (''inodes_csize'', Some (sb_inodes_size s), sb_inodes_csize s),
       (''blocks_offset'', Some (sb_blocks_offset s), sb_blocks_offset s),
       (''blocks_size'', Some (sb_blocks_size s), sb_blocks_size s),
       (''entries_offset'', Some (sb_entries_offset s), sb_entries_offset s),
       (''entries_size'', Some (sb_entries_size s), sb_entries_size s),
       (''ctime'', Some (min_ctime m), min_ctime m),
       (''mtime'', Some (min_mtime m), min_mtime m),
       (''compressed_size'', Some (min_compressed_size m), min_compressed_size m),
       (''type'', None, ib_type i), (''owner_mode'', None, ib_owner_mode i),
       (''group_mode'', None, ib_group_mode i), (''other_mode'', None, ib_other_mode i),
       (''uid'', None, ib_uid i), (''gid'', None, ib_gid i),
       (''ctime'', None, ib_ctime i), (''mtime'', None, ib_mtime i),
       (''size'', None, ib_size i), (''block'', None, ib_block i), (''index'', None, ib_index i),
       (''parent'', None, ib_parent i), (''nentries'', None, ib_nentries i),
       (''number'', None, ib_entry_number i), (''length'', None, ib_entry_length i),
       (''type'', None, ib_entry_type i),
       (''offset'', None, kb_offset k), (''compressed_size'', None, kb_compressed_size k),
       (''size'', None, kb_size k)])"

text \<open>The fields of an inode, in the order in which \<open>print_inode_bitvalue\<close> is applied to them.\<close>

definition inode_labels :: "super_block \<Rightarrow> (string \<times> u32) list" where
  "inode_labels s =
     (let i = sb_ibits s in
      [(''type'', ib_type i), (''owner_mode'', ib_owner_mode i), (''group_mode'', ib_group_mode i),
       (''other_mode'', ib_other_mode i), (''uid'', ib_uid i), (''gid'', ib_gid i),
       (''ctime'', ib_ctime i), (''mtime'', ib_mtime i), (''size'', ib_size i),
       (''block'', ib_block i), (''index'', ib_index i)])"

fun print_inode :: "(string \<times> u32) list \<Rightarrow> bitbuffer \<Rightarrow> ((string \<times> int) list \<times> bitbuffer) res" where
  "print_inode [] b = Ok ([], b)"
| "print_inode ((a, w) # ws) b =
     (if 0 < w then
        rbind (bitbuffer_getbits b (sint w)) (\<lambda>(v, b).
        rbind (print_inode ws b) (\<lambda>(ls, b). Ok ((a, uint v) # ls, b)))
      else print_inode ws b)"

text \<open>The loop: \<open>n\<close> inodes are left, \<open>i\<close> is the number of the next one.\<close>

fun print_inodes_loop ::
  "(string \<times> u32) list \<Rightarrow> nat \<Rightarrow> int \<Rightarrow> bitbuffer \<Rightarrow> (int \<times> (string \<times> int) list) list res" where
  "print_inodes_loop ws 0 i b = Ok []"
| "print_inodes_loop ws (Suc n) i b =
     rbind (print_inode ws b) (\<lambda>(ls, b).
     rbind (print_inodes_loop ws n (i + 1) b) (\<lambda>rest. Ok ((i, ls) # rest)))"

definition print_inodes :: "unfs \<Rightarrow> (int \<times> (string \<times> int) list) list res" where
  "print_inodes u =
     rbind (bitbuffer_init_from_buffer (buffer_buffer (u_inode_buffer u)) (to_s32 (buffer_length (u_inode_buffer u)))) (\<lambda>b.
     print_inodes_loop (inode_labels (u_super u)) (unat (sb_inodes (u_super u))) 0 b)"

text \<open>Up to the traversal: what has been printed, and the state that it is traversed with.\<close>

definition unfs_load_debug ::
  "int \<Rightarrow> reader_env \<Rightarrow> compressor list \<Rightarrow> memory \<Rightarrow>
    (super_line list \<times> (int \<times> (string \<times> int) list) list \<times> unfs) res" where
  "unfs_load_debug debug env cs img =
     rbind (unfs_load env cs img) (\<lambda>u.
     rbind (if 2 < debug then print_inodes u else Ok []) (\<lambda>ls.
     Ok (if 0 < debug then print_super (u_super u) else [], ls, u)))"

section \<open>The inode listing agrees with reading one inode\<close>

definition node_lines :: "super_block \<Rightarrow> node \<Rightarrow> (string \<times> int) list" where
  "node_lines s n =
     map (\<lambda>((a, w), v). (a, v)) (filter (\<lambda>((a, w), v). 0 < w) (zip (inode_labels s)
       [nd_type n, nd_owner_mode n, nd_group_mode n, nd_other_mode n, nd_uid n, nd_gid n,
        nd_ctime n, nd_mtime n, nd_size n, nd_block n, nd_index n]))"

lemma inode_labels_widths: "map (\<lambda>(a, w). sint w) (inode_labels s) = inode_bit_widths s"
  by (simp add: inode_labels_def inode_bit_widths_def Let_def)

text \<open>A field of no bits is read without moving, so leaving it out makes no difference.\<close>

lemma getbits_none: "bitbuffer_getbits b 0 = Ok (0, b)"
  unfolding bitbuffer_getbits_def by (subst getbits_loop.simps) simp

lemma print_inode_seq:
  "getbits_seq (map (\<lambda>(a, w). sint w) ws) b = Ok (vs, b') \<Longrightarrow>
    print_inode ws b = Ok (map (\<lambda>((a, w), v). (a, uint v)) (filter (\<lambda>((a, w), v). 0 < w) (zip ws vs)), b')"
proof (induction ws b arbitrary: vs rule: print_inode.induct)
  case (2 a w ws b)
  show ?case
  proof (cases "0 < w")
    case True
    then show ?thesis using 2 by (auto simp: rbind_eq_Ok split: prod.splits)
  next
    case False
    then have "w = 0" by (simp add: word_gt_0)
    then show ?thesis using 2 by (auto simp: getbits_none)
  qed
qed simp

lemma nd_type_defaults [simp]: "nd_type (node_defaults s n) = nd_type n"
  by (simp add: node_defaults_def Let_def)

lemma inode_fields_values: "length (map field_value (inode_fields s n)) = 11"
  by (simp add: inode_fields_def Let_def)

lemma node_lines_values:
  assumes "length v = 11"
  shows "node_lines s (node_of i v) =
    map (\<lambda>((a, w), v). (a, uint v)) (filter (\<lambda>((a, w), v). 0 < w) (zip (inode_labels s) v))"
proof -
  obtain a b c d e f g h i j k where v: "v = [a, b, c, d, e, f, g, h, i, j, k]"
    using assms by (auto simp: length_Suc_conv eval_nat_numeral)
  show ?thesis by (simp add: v node_lines_def node_of_def inode_labels_def Let_def)
qed

text \<open>The listing goes on where the inode before ended.\<close>

lemma print_inodes_loop_ok:
  assumes w: "\<And>n. widths_ok (inode_fields s n)"
  shows "bb_wf b \<Longrightarrow> nat (bb_index b) + width_sum (concat (map (inode_fields s) ns)) \<le> 8 * length (bb_buffer b) \<Longrightarrow>
    holds (membit (bb_buffer b)) (nat (bb_index b)) (concat (map (inode_fields s) ns)) \<Longrightarrow>
    print_inodes_loop (inode_labels s) (length ns) i b =
      Ok (map (\<lambda>j. (i + int j, node_lines s (node_of (i + int j) (map field_value (inode_fields s (ns ! j))))))
        [0..<length ns])"
proof (induction ns arbitrary: i b)
  case (Cons n ns)
  have room: "nat (bb_index b) + width_sum (inode_fields s n) \<le> 8 * length (bb_buffer b)"
    and h: "holds (membit (bb_buffer b)) (nat (bb_index b)) (inode_fields s n)"
    using Cons.prems(2,3) by (simp_all add: holds_append)
  obtain b1 where b1: "getbits_seq (map fst (inode_fields s n)) b = Ok (map field_value (inode_fields s n), b1)"
    "bb_wf b1" "8 * length (bb_buffer b1) = 8 * length (bb_buffer b)"
    "nat (bb_index b1) = nat (bb_index b) + width_sum (inode_fields s n)" "membit (bb_buffer b1) = membit (bb_buffer b)"
    using bb.get_seq_ok [OF Cons.prems(1) w room h] by blast
  have "print_inode (inode_labels s) b = Ok (node_lines s (node_of i (map field_value (inode_fields s n))), b1)"
    unfolding node_lines_values [OF inode_fields_values]
    by (rule print_inode_seq) (simp only: inode_labels_widths flip: inode_fields_widths [of s n] b1(1))
  moreover have "print_inodes_loop (inode_labels s) (length ns) (i + 1) b1 =
      Ok (map (\<lambda>j. (i + 1 + int j, node_lines s (node_of (i + 1 + int j) (map field_value (inode_fields s (ns ! j))))))
        [0..<length ns])"
    using Cons.prems b1(2-5) by (intro Cons.IH) (simp_all add: holds_append)
  ultimately show ?case
    by (simp add: map_upt_Suc add.assoc add.commute add.left_commute del: upt_Suc)
qed simp

lemma print_inodes_ok:
  assumes u: "unfs_ok alloc opt s nodes k entry u"
  shows "print_inodes u = Ok (map (\<lambda>j. (int j, node_lines s (node_of (int j) (map field_value (inode_fields s (nodes ! j))))))
      [0..<length nodes])"
proof -
  obtain itab where t: "holds_table (buffer_buffer (u_inode_buffer u)) itab" "int (length itab) = inode_table_size s"
    "holds (membit itab) 0 (concat (map (inode_fields s) nodes))"
    using u by (auto simp: unfs_ok_def)
  have w: "inode_widths_ok s" "int (length nodes) = uint (sb_inodes s)" "length nodes < 2 ^ 22" "u_super u = s"
    "0 \<le> buffer_length (u_inode_buffer u)" "buffer_length (u_inode_buffer u) < 2 ^ 28"
    using u by (simp_all add: unfs_ok_def)
  let ?tab = "buffer_buffer (u_inode_buffer u)" and ?sz = "buffer_length (u_inode_buffer u)"
  let ?b = "\<lparr>bb_buffer = ?tab, bb_end = ?sz, bb_size = ?sz, bb_bsize = ?sz * 8, bb_index = 0, bb_external = True\<rparr>"
  have le: "width_sum (concat (map (inode_fields s) nodes)) \<le> 8 * length itab"
    using inode_table_fields_ok(4) [OF w(1-3)] t(2) by linarith
  have "bb_wf ?b" using t(1) by (simp add: bb_wf_def holds_table_def)
  moreover have "holds (membit ?tab) 0 (concat (map (inode_fields s) nodes))"
    by (rule holds_table_fields [OF t(1,3) le])
  moreover have "width_sum (concat (map (inode_fields s) nodes)) \<le> 8 * length ?tab"
    using le holds_table_length [OF t(1)] by linarith
  ultimately have "print_inodes_loop (inode_labels s) (length nodes) 0 ?b =
      Ok (map (\<lambda>j. (int j, node_lines s (node_of (int j) (map field_value (inode_fields s (nodes ! j))))))
        [0..<length nodes])"
    using print_inodes_loop_ok [where s = s and b = ?b and ns = nodes and i = 0] inode_fields_width(1) [OF w(1)] by simp
  moreover have "unat (sb_inodes s) = length nodes" using w(2) by (metis nat_int nat_uint_eq)
  moreover have "bitbuffer_init_from_buffer ?tab (to_s32 ?sz) = Ok ?b"
    using w(5,6) by (simp add: bitbuffer_init_from_buffer_def)
  ultimately show ?thesis by (simp add: print_inodes_def w(4))
qed

section \<open>Properties\<close>

text \<open>
  C30. The third debug level lists, for an image that mkfs.smashfs has written, every node with
  the stored ones of the fields that \<open>node_fill\<close> reads for it alone, and the traversal then
  starts from the same state as without the listing.
\<close>

theorem unfs_debug_lists_nodes:
  assumes "system_ok env" and "options_ok opt k" and "table_ok nodes" and "numbered nodes"
    and "codec (compressor_compress c) (compressor_uncompress c)"
    and "compressor_create_type cs (compressor_type c) = Some c"
    and "output_write env opt c nodes = Ok (nodes', img)" and "reader_ok renv img" and "2 < debug"
  shows "\<exists>u ns. unfs_load renv cs img = Ok u \<and> length ns = length nodes \<and>
    (\<forall>j < length nodes. node_bits (u_super u) (buffer_buffer (u_inode_buffer u)) (buffer_length (u_inode_buffer u))
       (u_max_inode_size u) (int j) = Ok (ns ! j) \<and> nd_type (ns ! j) = n_type (nodes ! j)) \<and>
    unfs_load_debug debug renv cs img =
      Ok (print_super (u_super u), map (\<lambda>j. (int j, node_lines (u_super u) (ns ! j))) [0..<length nodes], u)"
proof -
  obtain s u k' entry where u: "unfs_load renv cs img = Ok u" "unfs_ok (r_alloc renv) opt s nodes' k' entry u"
    "map unplaced nodes' = map unplaced nodes"
    using written_loaded [OF assms(1-8)] by blast
  have l: "length nodes' = length nodes" using u(3) by (metis length_map)
  define ns where "ns = map (\<lambda>j. node_of (int j) (map field_value (inode_fields s (nodes' ! j)))) [0..<length nodes]"
  obtain itab where t: "holds_table (buffer_buffer (u_inode_buffer u)) itab" "int (length itab) = inode_table_size s"
    "holds (membit itab) 0 (concat (map (inode_fields s) nodes'))"
    using u(2) by (auto simp: unfs_ok_def)
  have w: "inode_widths_ok s" "int (length nodes') = uint (sb_inodes s)" "length nodes' < 2 ^ 22" "u_super u = s"
    "0 \<le> buffer_length (u_inode_buffer u)" "buffer_length (u_inode_buffer u) < 2 ^ 28"
    "u_max_inode_size u = max_inode_size (sb_ibits s)"
    using u(2) by (simp_all add: unfs_ok_def)
  have "node_bits (u_super u) (buffer_buffer (u_inode_buffer u)) (buffer_length (u_inode_buffer u))
       (u_max_inode_size u) (int j) = Ok (ns ! j) \<and> nd_type (ns ! j) = n_type (nodes ! j)"
    if j: "j < length nodes" for j
  proof -
    have j': "j < length nodes'" using j l by simp
    have "unfs_node_fill u (int j) = Ok (expected_node opt s (int j) (nodes' ! j))" by (rule unfs_node_fill_ok [OF u(2) j'])
    moreover have nb: "node_bits s (buffer_buffer (u_inode_buffer u)) (buffer_length (u_inode_buffer u))
       (max_inode_size (sb_ibits s)) (int j) = Ok (ns ! j)"
      using node_bits_ok [OF t w(1-3,5,6) j'] j by (simp add: ns_def)
    ultimately have "node_defaults s (ns ! j) = expected_node opt s (int j) (nodes' ! j)"
      by (simp add: unfs_node_fill_def w(4,7))
    then have "nd_type (node_defaults s (ns ! j)) = n_type (nodes' ! j)" by (simp add: expected_node_def)
    then have "nd_type (ns ! j) = n_type (nodes' ! j)" by simp
    moreover have "n_type (nodes' ! j) = n_type (nodes ! j)" by (rule unplaced_fields [OF nth_unplaced [OF u(3) j]])
    ultimately show ?thesis using nb by (simp add: w(4,7))
  qed
  moreover have "print_inodes u = Ok (map (\<lambda>j. (int j, node_lines (u_super u) (ns ! j))) [0..<length nodes])"
    unfolding print_inodes_ok [OF u(2)] by (simp add: w(4) l ns_def)
  ultimately show ?thesis
    using u(1) assms(9) by (intro exI [of _ u] exI [of _ ns]) (simp add: unfs_load_debug_def ns_def)
qed

lemma unfs_debug_lists_nodes_witness:
  "\<exists>nodes' img u ns. output_write demo_env demo_options none_method demo_nodes = Ok (nodes', img) \<and>
     nd_type (ns ! 0) = inode_code directory \<and> nd_type (ns ! 1) = inode_code regular_file \<and>
     unfs_load_debug 3 (demo_reader img) [none_method] img =
       Ok (print_super (u_super u), [(0, node_lines (u_super u) (ns ! 0)), (1, node_lines (u_super u) (ns ! 1))] @
         map (\<lambda>j. (int j, node_lines (u_super u) (ns ! j))) [2..<length demo_nodes], u)"
proof -
  obtain nodes' img where w: "output_write demo_env demo_options none_method demo_nodes = Ok (nodes', img)"
    by (rule demo_written)
  have n: "n_type (demo_nodes ! 0) = inode_code directory" "n_type (demo_nodes ! 1) = inode_code regular_file"
    "1 < length demo_nodes" "[0..<length demo_nodes] = 0 # 1 # [2..<length demo_nodes]"
    by (simp_all add: demo_defs upt_rec)
  have "0 < length demo_nodes" by (simp add: demo_nodes_def)
  then show ?thesis
    using unfs_debug_lists_nodes [OF demo_run w demo_reader,
        of 3] n w by fastforce
qed

text \<open>
  The two numbers of a line are the same, but for the size of the compressed inode table: the
  hexadecimal number there is the size of the table itself.
\<close>

lemma print_super_consistent:
  "(\<forall>(a, h, d) \<in> set (print_super s). h = None \<or> h = Some d) \<longleftrightarrow> sb_inodes_csize s = sb_inodes_size s"
  by (auto simp: print_super_def Let_def)

end
