(* ===== verification/Unfs_Defects.thy ===== *)
theory Unfs_Defects
  imports Unfs_Properties
begin

text \<open>
  \<open>src/mkfs/unfs.c\<close>: what the extractor does outside of the output directory.
\<close>

unbundle bit_operations_syntax

section \<open>A disk that is full\<close>

text \<open>Files can be created, but nothing can be written to them.\<close>

definition os_full :: "os \<Rightarrow> bool" where
  "os_full os \<longleftrightarrow> (\<forall>tr x. os_rc os (tr @ [Write x]) = -1) \<and> (\<forall>tr p m. 0 \<le> os_rc os (tr @ [Open p m]))"

text \<open>Contents of at least a byte start inside the block that the node names.\<close>

lemma contents_block_filled:
  assumes u: "unfs_ok alloc opt s nodes k entry u" and n: "n \<in> set nodes" and sz: "0 < n_size n"
  shows "\<exists>x. unfs_block_fill u (n_block n) = Ok x"
proof -
  obtain btab ks where t: "block_table_good s ks btab"
    "stored_blocks_ok (compressor_uncompress (u_compressor u)) k entry (buffer_buffer (u_entry_buffer u)) ks"
    using u by (auto simp: unfs_ok_def unfs_serves_def)
  have p: "node_placed s k entry n" using u n by (simp add: unfs_ok_def)
  then have "0 \<le> n_block n" "0 \<le> n_index n" "n_block n * 2 ^ k + n_index n + n_size n \<le> int (length entry)"
    by (simp_all add: node_placed_def)
  then have b: "0 \<le> n_block n" "n_block n * 2 ^ k < int (length entry)" using sz by linarith+
  have "n_block n < uint (sb_blocks s)"
    using block_count_less [OF b(1)] b(2) t by (simp add: block_table_good_def stored_blocks_ok_def)
  with u b(1) show ?thesis by (rule unfs_block_fill_ok)
qed

lemma traverse_file_full:
  fixes number :: int
  assumes u: "unfs_ok alloc opt s nodes k entry u" and n: "n \<in> set nodes" and pl: "n_payload n = File_payload d" "d \<noteq> []"
    and os: "os_full os" and f: "0 < fuel"
  defines "v \<equiv> expected_node opt s number n"
  shows "\<exists>x. traverse_file alloc fuel os u v name tr =
    Ok (False, tr @ [Unlink name, Open name (file_mode v), Write x, Chdir dot_dot])"
proof -
  have p: "node_placed s k entry n" "unfs_serves alloc u k entry" using u n by (simp_all add: unfs_ok_def)
  have nb: "node_bytes s n = d" using pl(1) by (simp add: node_bytes_def)
  then have q: "n_size n = int (length d)" "0 \<le> n_block n" "0 \<le> n_index n" "n_index n < 2 ^ k"
    "n_block n * 2 ^ k + n_index n + n_size n \<le> int (length entry)"
    using p(1) by (simp_all add: node_placed_def)
  then have sz: "0 < n_size n" using pl(2) by simp
  obtain e where e: "unfs_fetch alloc u (n_block n) = Ok (int (length e), e)"
    "0 < min (n_size n) (int (length e) - n_index n)"
    "mem_slice e (n_index n) (min (n_size n) (int (length e) - n_index n)) =
       Ok (take (nat (min (n_size n) (int (length e) - n_index n))) (drop (nat (n_block n * 2 ^ k + n_index n)) entry))"
    by (rule unfs.fetch_chunk [OF p(2) q(2-4) sz q(5)]) blast
  obtain g where g: "fuel = Suc g" using f by (cases fuel) auto
  have o: "0 \<le> os_rc os (t @ [Open name m])" "os_rc os (t @ [Write x]) = -1" for t m x
    using os by (simp_all add: os_full_def)
  have "to_s32 (-1) = -1" by (simp add: to_s32_def)
  then have "\<exists>x. unfs_node_read alloc fuel u v (node_read_regular_file os) t = Ok (-1, t @ [Write x])" for t
    using e sz o(2) by (auto simp: unfs_node_read_def g v_def expected_node_def node_read_regular_file_def call_def Let_def)
  from this [of "tr @ [Unlink name, Open name (file_mode v)]"] obtain x where "unfs_node_read alloc fuel u v (node_read_regular_file os) (tr @ [Unlink name, Open name (file_mode v)]) =
      Ok (-1, tr @ [Unlink name, Open name (file_mode v), Write x])"
    by auto
  then show ?thesis
    using o(1) [of "tr @ [Unlink name]" "file_mode v"] by (intro exI [of _ x]) (simp add: traverse_file_def call_def go_up_def)
qed

text \<open>
  C39. When the contents of a file cannot be written, as on a disk that is full, the extractor
  leaves the directory that the file is in, though it has entered none for it: it ends in the
  parent, and everything that follows is created there.
\<close>

theorem unfs_full_disk_leaves:
  assumes "system_ok env" and "options_ok opt k" and "table_ok nodes" and "numbered nodes"
    and "codec (compressor_compress c) (compressor_uncompress c)"
    and "compressor_create_type cs (compressor_type c) = Some c"
    and "output_write env opt c nodes = Ok (nodes', img)" and "reader_ok renv img"
    and "j < length nodes" and "n_payload (nodes ! j) = File_payload d" and "d \<noteq> []" and "os_full os" and "0 < fuel"
  shows "\<exists>u tr'. unfs_load renv cs img = Ok u \<and>
    traverse (r_alloc renv) fuel os u (Suc depth) (int j) name tr = Ok (tr @ tr') \<and>
    cwd_after (dir # base) tr' = base"
proof -
  obtain s u k' entry where u: "unfs_load renv cs img = Ok u" "unfs_ok (r_alloc renv) opt s nodes' k' entry u"
    "map unplaced nodes' = map unplaced nodes"
    using written_loaded [OF assms(1-8)] by blast
  let ?n = "nodes' ! j" and ?v = "expected_node opt s (int j) (nodes' ! j)"
  have j: "j < length nodes'" using assms(9) u(3) by (metis length_map)
  then have n: "?n \<in> set nodes'" by simp
  have pl: "n_payload ?n = File_payload d"
    using unplaced_fields(2) [OF nth_unplaced [OF u(3) assms(9)]] assms(10) by simp
  have h: "node_ok ?n" "node_placed s k' entry ?n" using u(2) n by (simp_all add: unfs_ok_def)
  have sz: "0 < n_size ?n" using h(2) pl assms(11) by (simp add: node_placed_def node_bytes_def)
  obtain x where x: "unfs_block_fill u (n_block ?n) = Ok x" using contents_block_filled [OF u(2) n sz] by blast
  have "payload_ok ?n" using h(1) by (simp add: node_ok_def)
  then have ty: "nd_type ?v = inode_code regular_file"
    by (cases rule: payload_ok_cases) (use pl in \<open>simp_all add: expected_node_def\<close>)
  obtain y where y: "traverse_file (r_alloc renv) fuel os u ?v name tr =
      Ok (False, tr @ [Unlink name, Open name (file_mode ?v), Write y, Chdir dot_dot])"
    using traverse_file_full [OF u(2) n pl assms(11-13)] by blast
  have "nd_block ?v = n_block ?n" by (simp add: expected_node_def)
  then have "traverse (r_alloc renv) fuel os u (Suc depth) (int j) name tr =
      Ok (tr @ [Unlink name, Open name (file_mode ?v), Write y, Chdir dot_dot])"
    using unfs_node_fill_ok [OF u(2) j] x ty y by simp
  moreover have "cwd_after (dir # base) [Unlink name, Open name (file_mode ?v), Write y, Chdir dot_dot] = base"
    by (simp add: dot_dot_def dot_slash_def)
  ultimately show ?thesis using u(1) by blast
qed

definition full_os :: os where
  "full_os = \<lparr>os_rc = (\<lambda>tr. case last tr of Write x \<Rightarrow> -1 | _ \<Rightarrow> 0), os_eexist = (\<lambda>_. False)\<rparr>"

lemma unfs_full_disk_leaves_witness:
  "\<exists>nodes' img u tr'. output_write demo_env demo_options none_method demo_nodes = Ok (nodes', img) \<and>
     traverse (r_alloc (demo_reader img)) 1 full_os u 1 1 [0x61] [] = Ok tr' \<and>
     cwd_after [[0x6F], [0x74]] tr' = [[0x74]]"
proof -
  obtain nodes' img where w: "output_write demo_env demo_options none_method demo_nodes = Ok (nodes', img)"
    by (rule demo_written)
  have os: "os_full full_os" by (simp add: os_full_def full_os_def)
  have n: "1 < length demo_nodes" "n_payload (demo_nodes ! 1) = File_payload [1, 2, 3]"
    by (simp_all add: demo_defs)
  from unfs_full_disk_leaves [OF demo_run w demo_reader n _ os,
      of 1 0 "[0x61]" "[]" "[0x6F]" "[[0x74]]"] w
  show ?thesis by auto
qed

section \<open>Names\<close>

text \<open>
  A directory whose name in the image is \<open>".."\<close> is entered as any other: what is below it is
  created in the parent of the current directory.
\<close>

lemma unfs_dot_dot_escapes:
  assumes "unfs_ok alloc opt s nodes k entry u" and "os_good os" and "traversable s nodes fuel"
    and "tree_ok nodes (Suc depth) number" and "n_payload (nodes ! nat number) = Directory_payload p es"
  shows "\<exists>tr' m rest. traverse alloc fuel os u (Suc depth) number dot_dot tr = Ok (tr @ tr') \<and>
    coalesce tr' = [Mkdir dot_dot m, Chdir dot_dot] @ rest \<and>
    cwd_after (dir # base) [Mkdir dot_dot m, Chdir dot_dot] = base"
proof -
  obtain tr' where t: "traverse alloc fuel os u (Suc depth) number dot_dot tr = Ok (tr @ tr')"
    "coalesce tr' = tree_calls opt nodes (Suc depth) number dot_dot"
    using traverse_ok [OF assms(1-4)] by blast
  have "coalesce tr' = [Mkdir dot_dot (shown_mode opt (nodes ! nat number)), Chdir dot_dot] @
      concat (map (\<lambda>e. tree_calls opt nodes depth (de_number e) (de_name e)) es) @
      [Chdir dot_dot, Chmod dot_dot (shown_mode opt (nodes ! nat number)), shown_owner opt (nodes ! nat number) dot_dot]"
    unfolding t(2) by (simp add: assms(5) Let_def)
  moreover have "cwd_after (dir # base) [Mkdir dot_dot m, Chdir dot_dot] = base" for m
    by (simp add: dot_dot_def dot_slash_def)
  ultimately show ?thesis using t(1) by blast
qed

end
