(* ===== verification/Uthash_Table.thy ===== *)
theory Uthash_Table
  imports Uthash
begin

text \<open>
  \<open>src/mkfs/uthash.h\<close>: the hash table behind the chain.  An element is its key; the handles that
  link the elements of a bucket are the list \<open>bk_items\<close>, from \<open>hh_head\<close> on, and \<open>h\<close> gives the
  hash values.  \<open>uthash_fatal\<close>, which ends the program, is the error \<open>Minus1\<close>.
\<close>

unbundle bit_operations_syntax

section \<open>The structures\<close>

record 'a bucket =
  bk_items :: "'a list"
  bk_count :: u32
  bk_expand_mult :: u32

record 'a uthash =
  ut_chain :: "'a list"
  ut_buckets :: "'a bucket list"
  ut_num_buckets :: u32
  ut_log2 :: u32
  ut_num_items :: u32
  ut_ideal :: u32
  ut_nonideal :: u32
  ut_ineff :: u32
  ut_noexpand :: bool

definition empty_bucket :: "'a bucket" where
  "empty_bucket = \<lparr>bk_items = [], bk_count = 0, bk_expand_mult = 0\<rparr>"

definition sizeof_table :: int where "sizeof_table = 64"
definition sizeof_bucket :: int where "sizeof_bucket = 16"

section \<open>The hash function\<close>

definition HASH_JEN_MIX :: "u32 \<times> u32 \<times> u32 \<Rightarrow> u32 \<times> u32 \<times> u32" where
  "HASH_JEN_MIX = (\<lambda>(a, b, c).
     let a = a - b - c; a = a XOR drop_bit 13 c;
         b = b - c - a; b = b XOR push_bit 8 a;
         c = c - a - b; c = c XOR drop_bit 13 b;
         a = a - b - c; a = a XOR drop_bit 12 c;
         b = b - c - a; b = b XOR push_bit 16 a;
         c = c - a - b; c = c XOR drop_bit 5 b;
         a = a - b - c; a = a XOR drop_bit 3 c;
         b = b - c - a; b = b XOR push_bit 10 a;
         c = c - a - b; c = c XOR drop_bit 15 b
     in (a, b, c))"

text \<open>A \<open>char\<close> of the key, signed, as it is shifted and added.\<close>

definition key_char :: "memory \<Rightarrow> nat \<Rightarrow> nat \<Rightarrow> u32" where
  "key_char m k n = push_bit n (scast (m ! k))"

fun jen_loop :: "memory \<Rightarrow> u32 \<times> u32 \<times> u32 \<Rightarrow> memory \<times> u32 \<times> u32 \<times> u32" where
  "jen_loop m (i, j, v) =
     (if length m < 12 then (m, i, j, v)
      else jen_loop (drop 12 m) (HASH_JEN_MIX
        (i + (key_char m 0 0 + key_char m 1 8 + key_char m 2 16 + key_char m 3 24),
         j + (key_char m 4 0 + key_char m 5 8 + key_char m 6 16 + key_char m 7 24),
         v + (key_char m 8 0 + key_char m 9 8 + key_char m 10 16 + key_char m 11 24))))"

declare jen_loop.simps [simp del]

text \<open>The cases of the \<open>switch\<close> fall through; a term is there if the rest of the key reaches it.\<close>

definition HASH_JEN :: "memory \<Rightarrow> u32" where
  "HASH_JEN key =
     (let (m, i, j, v) = jen_loop key (0x9e3779b9, 0x9e3779b9, 0xfeedbeef);
          t = (\<lambda>k n. if k < length m then key_char m k n else 0);
          v = v + of_nat (length key);
          v = v + t 10 24 + t 9 16 + t 8 8;
          j = j + t 7 24 + t 6 16 + t 5 8 + t 4 0;
          i = i + t 3 24 + t 2 16 + t 1 8 + t 0 0
      in snd (snd (HASH_JEN_MIX (i, j, v))))"

text \<open>The key of a node of \<open>mkfs.smashfs\<close>: its number, the 8 bytes of a \<open>long long\<close>.\<close>

definition node_hash :: "int \<Rightarrow> u32" where
  "node_hash number = HASH_JEN (map (\<lambda>i. word_of_int (number div 256 ^ i)) [0..<8])"

definition HASH_TO_BKT :: "u32 \<Rightarrow> u32 \<Rightarrow> nat" where
  "HASH_TO_BKT hashv num_bkts = unat (hashv AND (num_bkts - 1))"

section \<open>Expanding\<close>

definition expand_item ::
  "('a \<Rightarrow> u32) \<Rightarrow> u32 \<Rightarrow> u32 \<Rightarrow> 'a \<Rightarrow> 'a bucket list \<times> u32 \<Rightarrow> 'a bucket list \<times> u32" where
  "expand_item h n ideal x = (\<lambda>(bs, nonideal).
     let k = HASH_TO_BKT (h x) n; b = bs ! k; c = bk_count b + 1
     in (bs[k := \<lparr>bk_items = x # bk_items b, bk_count = c,
            bk_expand_mult = (if ideal < c then c div ideal else bk_expand_mult b)\<rparr>],
         if ideal < c then nonideal + 1 else nonideal))"

definition HASH_EXPAND_BUCKETS :: "heap \<Rightarrow> ('a \<Rightarrow> u32) \<Rightarrow> 'a uthash \<Rightarrow> 'a uthash res" where
  "HASH_EXPAND_BUCKETS alloc h t =
     (let n = 2 * ut_num_buckets t in
      rbind (check (malloc_ok alloc (uint n * sizeof_bucket)) Minus1) (\<lambda>_.
      if 32 \<le> unat (ut_log2 t) + 1 then Undef
      else
        let ideal = drop_bit (unat (ut_log2 t) + 1) (ut_num_items t) +
                    (if ut_num_items t AND (n - 1) \<noteq> 0 then 1 else 0);
            (bs, nonideal) = fold (expand_item h n ideal) (concat (map bk_items (ut_buckets t)))
              (replicate (unat n) empty_bucket, 0);
            ineff = (if drop_bit 1 (ut_num_items t) < nonideal then ut_ineff t + 1 else 0)
        in if ideal = 0 then Undef else
           Ok (t\<lparr>ut_buckets := bs, ut_num_buckets := n, ut_log2 := ut_log2 t + 1, ut_ideal := ideal,
                 ut_nonideal := nonideal, ut_ineff := ineff, ut_noexpand := ut_noexpand t \<or> 1 < ineff\<rparr>)))"

section \<open>The operations\<close>

definition HASH_ADD_TO_BKT :: "heap \<Rightarrow> ('a \<Rightarrow> u32) \<Rightarrow> 'a \<Rightarrow> 'a uthash \<Rightarrow> 'a uthash res" where
  "HASH_ADD_TO_BKT alloc h x t =
     (let k = HASH_TO_BKT (h x) (ut_num_buckets t); b = ut_buckets t ! k;
          b = b\<lparr>bk_items := x # bk_items b, bk_count := bk_count b + 1\<rparr>;
          t = t\<lparr>ut_buckets := (ut_buckets t)[k := b]\<rparr>
      in if (bk_expand_mult b + 1) * 10 \<le> bk_count b \<and> \<not> ut_noexpand t then HASH_EXPAND_BUCKETS alloc h t
         else Ok t)"

definition HASH_MAKE_TABLE :: "heap \<Rightarrow> 'a \<Rightarrow> 'a uthash res" where
  "HASH_MAKE_TABLE alloc x =
     rbind (check (malloc_ok alloc sizeof_table) Minus1) (\<lambda>_.
     rbind (check (malloc_ok alloc (32 * sizeof_bucket)) Minus1) (\<lambda>_.
     Ok \<lparr>ut_chain = [x], ut_buckets = replicate 32 empty_bucket, ut_num_buckets = 32, ut_log2 = 5,
         ut_num_items = 0, ut_ideal = 0, ut_nonideal = 0, ut_ineff = 0, ut_noexpand = False\<rparr>))"

text \<open>The head of a table is a null pointer as long as there are no elements.\<close>

definition HASH_ADD_KEYPTR :: "heap \<Rightarrow> ('a \<Rightarrow> u32) \<Rightarrow> 'a \<Rightarrow> 'a uthash option \<Rightarrow> 'a uthash option res" where
  "HASH_ADD_KEYPTR alloc h x head =
     rbind (case head of
         None \<Rightarrow> HASH_MAKE_TABLE alloc x
       | Some t \<Rightarrow> Ok (t\<lparr>ut_chain := ut_chain t @ [x]\<rparr>)) (\<lambda>t.
     rbind (HASH_ADD_TO_BKT alloc h x (t\<lparr>ut_num_items := ut_num_items t + 1\<rparr>)) (\<lambda>t. Ok (Some t)))"

definition HASH_DEL_IN_BKT :: "'a \<Rightarrow> 'a bucket \<Rightarrow> 'a bucket" where
  "HASH_DEL_IN_BKT x b = b\<lparr>bk_items := remove1 x (bk_items b), bk_count := bk_count b - 1\<rparr>"

definition HASH_DELETE :: "('a \<Rightarrow> u32) \<Rightarrow> 'a \<Rightarrow> 'a uthash \<Rightarrow> 'a uthash option" where
  "HASH_DELETE h x t =
     (if ut_chain t = [x] then None
      else
        let k = HASH_TO_BKT (h x) (ut_num_buckets t)
        in Some (t\<lparr>ut_chain := remove1 x (ut_chain t),
             ut_buckets := (ut_buckets t)[k := HASH_DEL_IN_BKT x (ut_buckets t ! k)],
             ut_num_items := ut_num_items t - 1\<rparr>))"

definition HASH_FIND_IN_BKT :: "'a \<Rightarrow> 'a bucket \<Rightarrow> 'a option" where
  "HASH_FIND_IN_BKT x b = find (\<lambda>y. y = x) (bk_items b)"

definition HASH_FIND :: "('a \<Rightarrow> u32) \<Rightarrow> 'a \<Rightarrow> 'a uthash option \<Rightarrow> 'a option" where
  "HASH_FIND h x head =
     (case head of None \<Rightarrow> None
      | Some t \<Rightarrow> HASH_FIND_IN_BKT x (ut_buckets t ! HASH_TO_BKT (h x) (ut_num_buckets t)))"

section \<open>The table holds the chain\<close>

text \<open>Every element of \<open>xs\<close> is in the bucket of its hash value, once, and the counts are right.\<close>

definition buckets_ok :: "('a \<Rightarrow> u32) \<Rightarrow> u32 \<Rightarrow> 'a list \<Rightarrow> 'a bucket list \<Rightarrow> bool" where
  "buckets_ok h n xs bs \<longleftrightarrow> length bs = unat n \<and>
     (\<forall>k < length bs. mset (bk_items (bs ! k)) = mset (filter (\<lambda>x. HASH_TO_BKT (h x) n = k) xs) \<and>
        bk_count (bs ! k) = of_nat (length (bk_items (bs ! k))))"

definition uthash_ok :: "('a \<Rightarrow> u32) \<Rightarrow> 'a uthash option \<Rightarrow> bool" where
  "uthash_ok h head \<longleftrightarrow> (case head of None \<Rightarrow> True | Some t \<Rightarrow>
     ut_chain t \<noteq> [] \<and> distinct (ut_chain t) \<and> ut_num_items t = of_nat (length (ut_chain t)) \<and>
     length (ut_chain t) < 2 ^ 32 \<and> unat (ut_log2 t) \<le> 31 \<and> ut_num_buckets t = 2 ^ unat (ut_log2 t) \<and>
     buckets_ok h (ut_num_buckets t) (ut_chain t) (ut_buckets t))"

definition uthash_elements :: "'a uthash option \<Rightarrow> 'a list" where
  "uthash_elements head = (case head of None \<Rightarrow> [] | Some t \<Rightarrow> ut_chain t)"

definition uthash_log2 :: "'a uthash option \<Rightarrow> nat" where
  "uthash_log2 head = (case head of None \<Rightarrow> 5 | Some t \<Rightarrow> unat (ut_log2 t))"

lemma unat_power: "l \<le> 31 \<Longrightarrow> n = 2 ^ l \<Longrightarrow> unat (n :: u32) = 2 ^ l"
proof -
  assume l: "l \<le> 31" and n: "n = 2 ^ l"
  have "(2 :: nat) ^ l < 2 ^ 32" by (rule power_strict_increasing) (use l in auto)
  moreover have "unat (of_nat (2 ^ l) :: u32) = 2 ^ l mod 2 ^ 32" by (subst unat_of_nat) simp
  ultimately show ?thesis by (simp add: n)
qed

lemma bucket_less: "l \<le> 31 \<Longrightarrow> n = 2 ^ l \<Longrightarrow> HASH_TO_BKT v n < unat n"
proof -
  assume l: "l \<le> 31" and n: "n = 2 ^ l"
  have "n - 1 = mask l" by (simp add: n mask_eq_exp_minus_1)
  then have "unat (v AND (n - 1)) = take_bit l (unat v)"
    by (simp add: take_bit_eq_mask [symmetric] unsigned_take_bit_eq)
  moreover have "take_bit l (unat v) < 2 ^ l" by (rule take_bit_nat_less_exp)
  moreover have "unat n = 2 ^ l" by (rule unat_power [OF l n])
  ultimately show ?thesis by (simp add: HASH_TO_BKT_def)
qed

lemma buckets_ok_mset: "mset xs = mset ys \<Longrightarrow> buckets_ok h n xs bs = buckets_ok h n ys bs"
  by (simp add: buckets_ok_def mset_filter)

lemma buckets_ok_empty: "buckets_ok h n [] (replicate (unat n) empty_bucket)"
  by (simp add: buckets_ok_def empty_bucket_def)

lemma buckets_ok_push:
  assumes "buckets_ok h n xs bs" and "k = HASH_TO_BKT (h x) n" and "k < length bs"
    and "bk_items b = x # bk_items (bs ! k)" and "bk_count b = bk_count (bs ! k) + 1"
  shows "buckets_ok h n (x # xs) (bs[k := b])"
  using assms by (auto simp: buckets_ok_def nth_list_update)

lemma buckets_ok_expand:
  assumes "\<And>x. HASH_TO_BKT (h x) n < unat n" and "buckets_ok h n xs bs"
  shows "buckets_ok h n (rev ys @ xs) (fst (fold (expand_item h n ideal) ys (bs, c)))"
  using assms(2)
proof (induction ys arbitrary: xs bs c)
  case (Cons y ys)
  have "HASH_TO_BKT (h y) n < length bs" using assms(1) Cons.prems by (simp add: buckets_ok_def)
  note push = buckets_ok_push [OF Cons.prems HOL.refl this]
  obtain b c' where b: "expand_item h n ideal y (bs, c) = (bs[HASH_TO_BKT (h y) n := b], c')"
    "bk_items b = y # bk_items (bs ! HASH_TO_BKT (h y) n)" "bk_count b = bk_count (bs ! HASH_TO_BKT (h y) n) + 1"
    by (simp add: expand_item_def Let_def)
  from Cons.IH [OF push [OF b(2,3)]] show ?case by (simp add: b(1))
qed simp

lemma count_concat: "count (mset (concat xss)) x = sum_list (map (\<lambda>xs. count (mset xs) x) xss)"
  by (induction xss) auto

lemma buckets_ok_all:
  assumes "buckets_ok h n xs bs" and "\<And>x. HASH_TO_BKT (h x) n < unat n"
  shows "mset (concat (map bk_items bs)) = mset xs"
proof (rule multiset_eqI)
  fix x
  have "map (\<lambda>b. count (mset (bk_items b)) x) bs =
      map (\<lambda>k. if k = HASH_TO_BKT (h x) n then count (mset xs) x else 0) [0..<length bs]"
    using assms(1) by (intro nth_equalityI) (auto simp: buckets_ok_def count_filter_mset mset_filter)
  moreover have "HASH_TO_BKT (h x) n < length bs" using assms by (simp add: buckets_ok_def)
  ultimately show "count (mset (concat (map bk_items bs))) x = count (mset xs) x"
    by (simp add: count_concat comp_def interv_sum_list_conv_sum_set_nat)
qed

section \<open>What a client relies on\<close>

text \<open>
  The elements of a table in the order in which they were added; \<open>roomy\<close> says that another one
  can be added without running out of memory or of buckets.
\<close>

locale element_table =
  fixes add :: "'a \<Rightarrow> 't \<Rightarrow> 't res" and del :: "'a \<Rightarrow> 't \<Rightarrow> 't" and lookup :: "'a \<Rightarrow> 't \<Rightarrow> 'a option"
    and elements :: "'t \<Rightarrow> 'a list" and ok :: "'t \<Rightarrow> bool" and roomy :: "'t \<Rightarrow> bool"
  assumes add_ok: "ok t \<Longrightarrow> x \<notin> set (elements t) \<Longrightarrow> length (elements t) < 2 ^ 32 - 1 \<Longrightarrow> add x t = Ok t' \<Longrightarrow>
      ok t' \<and> elements t' = HASH_ADD (elements t) x"
    and add_total: "ok t \<Longrightarrow> x \<notin> set (elements t) \<Longrightarrow> length (elements t) < 2 ^ 32 - 1 \<Longrightarrow> roomy t \<Longrightarrow>
      \<exists>t'. add x t = Ok t'"
    and del_ok: "ok t \<Longrightarrow> x \<in> set (elements t) \<Longrightarrow> ok (del x t) \<and> elements (del x t) = HASH_DEL (elements t) x"
    and lookup_ok: "ok t \<Longrightarrow> lookup x t = (if x \<in> set (elements t) then Some x else None)"
    and elements_distinct: "ok t \<Longrightarrow> distinct (elements t)"
begin

text \<open>What \<open>mkfs.smashfs\<close> does: it adds elements, one after the other, and deletes them in the end.\<close>

lemma adds_ok:
  "ok t \<Longrightarrow> distinct (elements t @ xs) \<Longrightarrow> length (elements t @ xs) < 2 ^ 32 \<Longrightarrow> rfold add xs t = Ok t' \<Longrightarrow>
    ok t' \<and> elements t' = elements t @ xs"
proof (induction xs arbitrary: t)
  case (Cons x xs)
  then obtain t1 where t1: "add x t = Ok t1" "rfold add xs t1 = Ok t'" by auto
  have "ok t1 \<and> elements t1 = elements t @ [x]"
    using add_ok [OF Cons.prems(1) _ _ t1(1)] Cons.prems(2,3) by (auto simp: HASH_ADD_def)
  with Cons.IH [OF _ _ _ t1(2)] Cons.prems(2,3) show ?case by simp
qed simp

lemma dels_ok: "ok t \<Longrightarrow> elements t = xs @ ys \<Longrightarrow> ok (fold del xs t) \<and> elements (fold del xs t) = ys"
proof (induction xs arbitrary: t)
  case (Cons x xs)
  have "ok (del x t) \<and> elements (del x t) = xs @ ys"
    using del_ok [OF Cons.prems(1), of x] Cons.prems(2) by (simp add: HASH_DEL_def)
  with Cons.IH show ?case by simp
qed simp

end

section \<open>The operations keep it\<close>

lemma no_log2_wrap: "unat (l :: u32) \<le> 30 \<Longrightarrow> unat (l + 1) = unat l + 1"
proof -
  assume "unat l \<le> 30"
  then have "unat l + unat (1 :: u32) < 2 ^ 32" by simp
  then show ?thesis by (subst unat_add_lem [THEN iffD1]) simp_all
qed

lemma expand_ok:
  assumes n: "unat (ut_log2 t) \<le> 31" "ut_num_buckets t = 2 ^ unat (ut_log2 t)"
    and b: "buckets_ok h (ut_num_buckets t) xs (ut_buckets t)" and e: "HASH_EXPAND_BUCKETS alloc h t = Ok t'"
  shows "buckets_ok h (ut_num_buckets t') xs (ut_buckets t')" "ut_num_buckets t' = 2 ^ unat (ut_log2 t')"
    "unat (ut_log2 t') \<le> 31" "ut_chain t' = ut_chain t" "ut_num_items t' = ut_num_items t"
proof -
  let ?n = "2 * ut_num_buckets t" and ?l = "unat (ut_log2 t) + 1"
  define ideal where "ideal = drop_bit ?l (ut_num_items t) + (if ut_num_items t AND (?n - 1) \<noteq> 0 then 1 else 0)"
  obtain bs c where f: "fold (expand_item h ?n ideal) (concat (map bk_items (ut_buckets t)))
      (replicate (unat ?n) empty_bucket, 0) = (bs, c)"
    by fastforce
  note e' = e [unfolded HASH_EXPAND_BUCKETS_def Let_def, folded ideal_def, unfolded f prod.case]
  have m: "malloc_ok alloc (uint ?n * sizeof_bucket)" and l: "?l \<le> 31" and i: "ideal \<noteq> 0"
  proof -
    show m: "malloc_ok alloc (uint ?n * sizeof_bucket)" by (rule ccontr) (use e' in simp)
    show l: "?l \<le> 31" by (rule ccontr) (use e' m in simp)
    show "ideal \<noteq> 0" by (rule ccontr) (use e' m l in simp)
  qed
  have l1: "unat (ut_log2 t + 1) = ?l" by (intro no_log2_wrap) (use l in simp)
  have n2: "?n = 2 ^ ?l" by (simp add: n(2))
  define u where "u = (if drop_bit 1 (ut_num_items t) < c then ut_ineff t + 1 else 0)"
  have "t' = t\<lparr>ut_buckets := bs, ut_num_buckets := ?n, ut_log2 := ut_log2 t + 1, ut_ideal := ideal,
      ut_nonideal := c, ut_ineff := u, ut_noexpand := ut_noexpand t \<or> 1 < u\<rparr>"
    using e' m l i by (simp add: u_def)
  then have t': "ut_buckets t' = bs" "ut_num_buckets t' = ?n" "ut_log2 t' = ut_log2 t + 1"
    "ut_chain t' = ut_chain t" "ut_num_items t' = ut_num_items t"
    by simp_all
  note less = bucket_less [OF l n2] and less' = bucket_less [OF n]
  have e2: "buckets_ok h ?n (rev (concat (map bk_items (ut_buckets t))) @ []) (ut_buckets t')"
    using buckets_ok_expand [OF less buckets_ok_empty, of h "concat (map bk_items (ut_buckets t))" ideal 0]
    by (simp only: t'(1) f fst_conv)
  have "mset (rev (concat (map bk_items (ut_buckets t))) @ []) = mset xs"
    using buckets_ok_all [OF b less'] by simp
  from buckets_ok_mset [OF this] e2 have "buckets_ok h ?n xs (ut_buckets t')" by (rule iffD1)
  then show "buckets_ok h (ut_num_buckets t') xs (ut_buckets t')" by (simp add: t'(2))
  show "ut_num_buckets t' = 2 ^ unat (ut_log2 t')" unfolding t'(2,3) l1 by (rule n2)
  show "unat (ut_log2 t') \<le> 31" unfolding t'(3) l1 by (rule l)
  show "ut_chain t' = ut_chain t" "ut_num_items t' = ut_num_items t" by (fact t'(4,5))+
qed

lemma add_to_bkt_ok:
  assumes n: "unat (ut_log2 t) \<le> 31" "ut_num_buckets t = 2 ^ unat (ut_log2 t)"
    and b: "buckets_ok h (ut_num_buckets t) xs (ut_buckets t)" and a: "HASH_ADD_TO_BKT alloc h x t = Ok t'"
  shows "buckets_ok h (ut_num_buckets t') (xs @ [x]) (ut_buckets t') \<and> ut_num_buckets t' = 2 ^ unat (ut_log2 t') \<and>
    unat (ut_log2 t') \<le> 31 \<and> ut_chain t' = ut_chain t \<and> ut_num_items t' = ut_num_items t"
proof -
  define k where "k = HASH_TO_BKT (h x) (ut_num_buckets t)"
  define t1 where "t1 = t\<lparr>ut_buckets := (ut_buckets t)[k := (ut_buckets t ! k)
      \<lparr>bk_items := x # bk_items (ut_buckets t ! k), bk_count := bk_count (ut_buckets t ! k) + 1\<rparr>]\<rparr>"
  have k: "k < length (ut_buckets t)" using bucket_less [OF n] b by (simp add: k_def buckets_ok_def)
  have "buckets_ok h (ut_num_buckets t) (x # xs) (ut_buckets t1)"
    unfolding t1_def by simp (rule buckets_ok_push [OF b k_def k], simp_all)
  then have b1: "buckets_ok h (ut_num_buckets t1) (xs @ [x]) (ut_buckets t1)"
    using buckets_ok_mset [of "x # xs" "xs @ [x]"] by (simp add: t1_def)
  have n1: "unat (ut_log2 t1) \<le> 31" "ut_num_buckets t1 = 2 ^ unat (ut_log2 t1)" using n by (simp_all add: t1_def)
  have "t' = t1 \<or> HASH_EXPAND_BUCKETS alloc h t1 = Ok t'"
    using a by (auto simp: HASH_ADD_TO_BKT_def Let_def t1_def k_def split: if_splits)
  then show ?thesis
  proof
    assume "t' = t1"
    then show ?thesis using b1 n1 by (simp add: t1_def)
  next
    assume e: "HASH_EXPAND_BUCKETS alloc h t1 = Ok t'"
    from expand_ok [OF n1 b1 e] show ?thesis by (simp add: t1_def)
  qed
qed

lemma make_table_ok:
  "HASH_MAKE_TABLE alloc x = Ok t \<Longrightarrow> unat (ut_log2 t) = 5 \<and> ut_num_buckets t = 2 ^ 5 \<and> ut_chain t = [x] \<and>
    ut_num_items t = 0 \<and> buckets_ok h (ut_num_buckets t) [] (ut_buckets t)"
proof -
  assume "HASH_MAKE_TABLE alloc x = Ok t"
  then have "t = \<lparr>ut_chain = [x], ut_buckets = replicate 32 empty_bucket, ut_num_buckets = 32, ut_log2 = 5,
         ut_num_items = 0, ut_ideal = 0, ut_nonideal = 0, ut_ineff = 0, ut_noexpand = False\<rparr>"
    by (simp add: HASH_MAKE_TABLE_def)
  then show ?thesis using buckets_ok_empty [of h 32] by simp
qed

lemma add_keyptr_ok:
  assumes ok: "uthash_ok h head" and x: "x \<notin> set (uthash_elements head)" "length (uthash_elements head) < 2 ^ 32 - 1"
    and a: "HASH_ADD_KEYPTR alloc h x head = Ok head'"
  shows "uthash_ok h head' \<and> uthash_elements head' = HASH_ADD (uthash_elements head) x"
proof -
  obtain t t' where t: "(case head of None \<Rightarrow> HASH_MAKE_TABLE alloc x | Some t \<Rightarrow> Ok (t\<lparr>ut_chain := ut_chain t @ [x]\<rparr>)) = Ok t"
    "HASH_ADD_TO_BKT alloc h x (t\<lparr>ut_num_items := ut_num_items t + 1\<rparr>) = Ok t'" "head' = Some t'"
    using a unfolding HASH_ADD_KEYPTR_def by (auto split: option.split_asm)
  have g: "unat (ut_log2 t) \<le> 31 \<and> ut_num_buckets t = 2 ^ unat (ut_log2 t) \<and>
      buckets_ok h (ut_num_buckets t) (uthash_elements head) (ut_buckets t) \<and>
      ut_chain t = uthash_elements head @ [x] \<and> ut_num_items t = of_nat (length (uthash_elements head))"
  proof (cases head)
    case None
    then show ?thesis using make_table_ok [of alloc x t h] t(1) by (auto simp: uthash_elements_def)
  next
    case (Some u)
    then show ?thesis using ok t(1) by (auto simp: uthash_ok_def uthash_elements_def)
  qed
  have d: "distinct (uthash_elements head @ [x])"
    using ok x(1) by (auto simp: uthash_ok_def uthash_elements_def split: option.splits)
  have r: "buckets_ok h (ut_num_buckets t') (uthash_elements head @ [x]) (ut_buckets t') \<and>
      ut_num_buckets t' = 2 ^ unat (ut_log2 t') \<and> unat (ut_log2 t') \<le> 31 \<and>
      ut_chain t' = ut_chain (t\<lparr>ut_num_items := ut_num_items t + 1\<rparr>) \<and>
      ut_num_items t' = ut_num_items (t\<lparr>ut_num_items := ut_num_items t + 1\<rparr>)"
    by (rule add_to_bkt_ok [OF _ _ _ t(2)]) (use g in auto)
  have "ut_chain t' = uthash_elements head @ [x]" "ut_num_items t' = of_nat (length (uthash_elements head @ [x]))"
    using r g by simp_all
  moreover have "uthash_elements head' = ut_chain t'" by (simp add: t(3) uthash_elements_def)
  ultimately show ?thesis using r d x(2) by (auto simp: t(3) uthash_ok_def HASH_ADD_def)
qed

text \<open>Where there are elements the ideal length of a bucket is not 0.\<close>

lemma ideal_positive:
  fixes w n :: u32
  assumes w: "w \<noteq> 0" and l: "1 \<le> l" and n: "n = 2 ^ l"
  shows "drop_bit l w + (if w AND (n - 1) \<noteq> 0 then 1 else 0) \<noteq> 0"
proof
  assume z: "drop_bit l w + (if w AND (n - 1) \<noteq> 0 then 1 else 0) = 0"
  have less: "unat (drop_bit l w) < 2 ^ 31"
  proof -
    have "(2 :: nat) ^ 1 \<le> 2 ^ l" by (rule power_increasing) (use l in auto)
    then have "unat w div 2 ^ l \<le> unat w div 2" by (intro div_le_mono2) simp_all
    also have "unat w < 2 ^ 32" using unsigned_less [where ?'a = nat, of w] by simp
    then have "unat w div 2 < 2 ^ 31" by simp
    finally have "unat w div 2 ^ l < 2 ^ 31" .
    then show ?thesis by (simp only: unat_drop_bit_eq drop_bit_eq_div [of l "unat w"])
  qed
  have t0: "w AND (n - 1) = 0"
  proof (rule ccontr)
    assume "w AND (n - 1) \<noteq> 0"
    then have "drop_bit l w = - 1" using z by (simp add: eq_neg_iff_add_eq_0)
    moreover have "unat (- 1 :: u32) = mask 32" by (simp add: unsigned_minus_1_eq_mask)
    ultimately have "(mask 32 :: nat) < 2 ^ 31" using less by (simp only:)
    then show False by (simp add: mask_eq_exp_minus_1)
  qed
  then have "drop_bit l w = 0" using z by simp
  moreover have "take_bit l w = 0" using t0 by (simp add: n take_bit_eq_mask mask_eq_exp_minus_1)
  ultimately show False using bits_ident [of l w] w by simp
qed

lemma expand_total:
  assumes "heap_ok alloc" and "unat (ut_log2 t) \<le> 30" and "ut_num_buckets t = 2 ^ unat (ut_log2 t)"
    and "ut_num_items t \<noteq> 0"
  shows "\<exists>t'. HASH_EXPAND_BUCKETS alloc h t = Ok t'"
proof -
  let ?n = "2 * ut_num_buckets t" and ?l = "unat (ut_log2 t) + 1"
  have "malloc_ok alloc (uint ?n * sizeof_bucket)"
    using assms(1) uint_lt2p [of ?n] by (intro heap_okD) (auto simp: sizeof_bucket_def)
  moreover have "?n = 2 ^ ?l" using assms(3) by simp
  from ideal_positive [OF assms(4) _ this]
  have "drop_bit ?l (ut_num_items t) + (if ut_num_items t AND (?n - 1) \<noteq> 0 then 1 else 0) \<noteq> 0" by simp
  moreover have "\<not> 32 \<le> ?l" using assms(2) by simp
  ultimately show ?thesis by (simp add: HASH_EXPAND_BUCKETS_def Let_def split_def)
qed

lemma add_keyptr_total:
  assumes ok: "uthash_ok h head" and x: "length (uthash_elements head) < 2 ^ 32 - 1"
    and r: "heap_ok alloc" "uthash_log2 head \<le> 30"
  shows "\<exists>head'. HASH_ADD_KEYPTR alloc h x head = Ok head'"
proof -
  obtain t where t: "(case head of None \<Rightarrow> HASH_MAKE_TABLE alloc x | Some t \<Rightarrow> Ok (t\<lparr>ut_chain := ut_chain t @ [x]\<rparr>)) = Ok t"
    "unat (ut_log2 t) \<le> 30" "ut_num_buckets t = 2 ^ unat (ut_log2 t)"
    "ut_num_items t = of_nat (length (uthash_elements head))"
  proof (cases head)
    case None
    have "malloc_ok alloc sizeof_table" "malloc_ok alloc (32 * sizeof_bucket)"
      using r(1) by (simp_all add: sizeof_table_def sizeof_bucket_def)
    then obtain t where m: "HASH_MAKE_TABLE alloc x = Ok t" by (simp add: HASH_MAKE_TABLE_def)
    from make_table_ok [OF m] show ?thesis by (intro that [of t]) (auto simp: None m uthash_elements_def)
  next
    case (Some u)
    show ?thesis
      by (rule that [of "u\<lparr>ut_chain := ut_chain u @ [x]\<rparr>"])
        (use ok r(2) in \<open>simp_all add: Some uthash_ok_def uthash_elements_def uthash_log2_def\<close>)
  qed
  have "unat (of_nat (length (uthash_elements head) + 1) :: u32) = (length (uthash_elements head) + 1) mod 2 ^ 32"
    by (subst unat_of_nat) simp
  then have "unat (ut_num_items t + 1) \<noteq> 0" using x t(4) by (simp add: add.commute)
  then have items: "ut_num_items t + 1 \<noteq> 0" by (metis unat_0)
  have "\<exists>t'. HASH_EXPAND_BUCKETS alloc h (t\<lparr>ut_num_items := ut_num_items t + 1, ut_buckets := bs\<rparr>) = Ok t'" for bs
    by (rule expand_total) (use r(1) t(2,3) items in simp_all)
  then have "\<exists>t'. HASH_ADD_TO_BKT alloc h x (t\<lparr>ut_num_items := ut_num_items t + 1\<rparr>) = Ok t'"
    by (simp add: HASH_ADD_TO_BKT_def Let_def)
  then show ?thesis using t(1) by (auto simp: HASH_ADD_KEYPTR_def)
qed

lemma of_nat_length_pred: "xs \<noteq> [] \<Longrightarrow> (of_nat (length xs - Suc 0) :: u32) = of_nat (length xs) - 1"
  by (cases xs) simp_all

lemma delete_ok:
  assumes "uthash_ok h (Some t)" and "x \<in> set (ut_chain t)"
  shows "uthash_ok h (HASH_DELETE h x t) \<and> uthash_elements (HASH_DELETE h x t) = HASH_DEL (ut_chain t) x"
proof (cases "ut_chain t = [x]")
  case True
  then show ?thesis by (simp add: HASH_DELETE_def uthash_ok_def uthash_elements_def HASH_DEL_def)
next
  case False
  let ?k = "HASH_TO_BKT (h x) (ut_num_buckets t)" and ?xs = "remove1 x (ut_chain t)"
  let ?b = "(ut_buckets t ! ?k)\<lparr>bk_items := remove1 x (bk_items (ut_buckets t ! ?k)), bk_count := bk_count (ut_buckets t ! ?k) - 1\<rparr>"
  have ok: "distinct (ut_chain t)" "ut_num_items t = of_nat (length (ut_chain t))" "length (ut_chain t) < 2 ^ 32"
    "unat (ut_log2 t) \<le> 31" "ut_num_buckets t = 2 ^ unat (ut_log2 t)"
    and b: "buckets_ok h (ut_num_buckets t) (ut_chain t) (ut_buckets t)"
    using assms(1) by (auto simp: uthash_ok_def)
  have k: "?k < length (ut_buckets t)" using bucket_less [OF ok(4,5)] b by (simp add: buckets_ok_def)
  have "?xs \<noteq> []" using False assms(2) by (cases "ut_chain t") auto
  have items: "mset (bk_items (ut_buckets t ! ?k)) = mset (filter (\<lambda>y. HASH_TO_BKT (h y) (ut_num_buckets t) = ?k) (ut_chain t))"
    "bk_count (ut_buckets t ! ?k) = of_nat (length (bk_items (ut_buckets t ! ?k)))"
    using b k by (simp_all add: buckets_ok_def)
  have x: "x \<in> set (bk_items (ut_buckets t ! ?k))"
    using mset_eq_setD [OF items(1)] assms(2) by simp
  have "buckets_ok h (ut_num_buckets t) ?xs ((ut_buckets t)[?k := ?b])"
    unfolding buckets_ok_def
  proof (intro conjI allI impI)
    show "length ((ut_buckets t)[?k := ?b]) = unat (ut_num_buckets t)" using b by (simp add: buckets_ok_def)
    fix k' assume k': "k' < length ((ut_buckets t)[?k := ?b])"
    show "mset (bk_items ((ut_buckets t)[?k := ?b] ! k')) = mset (filter (\<lambda>y. HASH_TO_BKT (h y) (ut_num_buckets t) = k') ?xs)"
      using items(1) b k k' by (cases "k' = ?k") (auto simp: filter_remove1 nth_list_update buckets_ok_def remove1_idem)
    have "0 < length (bk_items (ut_buckets t ! ?k))" using x by (cases "bk_items (ut_buckets t ! ?k)") auto
    then show "bk_count ((ut_buckets t)[?k := ?b] ! k') = of_nat (length (bk_items ((ut_buckets t)[?k := ?b] ! k')))"
      using items(2) x b k k' by (auto simp: nth_list_update buckets_ok_def length_remove1 of_nat_length_pred)
  qed
  moreover have "ut_chain t \<noteq> []" using assms(2) by auto
  then have "ut_num_items t - 1 = of_nat (length ?xs)"
    using ok(2) assms(2) by (simp add: length_remove1 of_nat_length_pred)
  moreover have "length ?xs < 2 ^ 32" using ok(3) by (auto simp: length_remove1)
  ultimately have "uthash_ok h (HASH_DELETE h x t)"
    using False ok(1,4,5) \<open>?xs \<noteq> []\<close> by (simp add: HASH_DEL_IN_BKT_def HASH_DELETE_def uthash_ok_def Let_def distinct_remove1)
  then show ?thesis using False by (simp add: HASH_DELETE_def uthash_elements_def HASH_DEL_def Let_def)
qed

definition uthash_delete :: "('a \<Rightarrow> u32) \<Rightarrow> 'a \<Rightarrow> 'a uthash option \<Rightarrow> 'a uthash option" where
  "uthash_delete h x head = (case head of None \<Rightarrow> None | Some t \<Rightarrow> HASH_DELETE h x t)"

lemma find_ok:
  assumes "uthash_ok h head"
  shows "HASH_FIND h x head = (if x \<in> set (uthash_elements head) then Some x else None)"
proof (cases head)
  case (Some t)
  let ?k = "HASH_TO_BKT (h x) (ut_num_buckets t)"
  have ok: "unat (ut_log2 t) \<le> 31" "ut_num_buckets t = 2 ^ unat (ut_log2 t)"
    and b: "buckets_ok h (ut_num_buckets t) (ut_chain t) (ut_buckets t)"
    using assms by (auto simp: Some uthash_ok_def)
  have "?k < length (ut_buckets t)" using bucket_less [OF ok] b by (simp add: buckets_ok_def)
  then have "mset (bk_items (ut_buckets t ! ?k)) = mset (filter (\<lambda>y. HASH_TO_BKT (h y) (ut_num_buckets t) = ?k) (ut_chain t))"
    using b by (simp add: buckets_ok_def)
  from mset_eq_setD [OF this] have "x \<in> set (bk_items (ut_buckets t ! ?k)) \<longleftrightarrow> x \<in> set (ut_chain t)" by simp
  moreover have "find (\<lambda>y. y = x) ys = (if x \<in> set ys then Some x else None)" for ys by (induction ys) auto
  ultimately show ?thesis by (simp add: HASH_FIND_def HASH_FIND_IN_BKT_def Some uthash_elements_def)
qed (simp add: HASH_FIND_def uthash_elements_def)

interpretation uthash: element_table "HASH_ADD_KEYPTR alloc h" "uthash_delete h" "HASH_FIND h" uthash_elements
  "uthash_ok h" "\<lambda>head. heap_ok alloc \<and> uthash_log2 head \<le> 30" for alloc h
proof (unfold_locales, goal_cases)
  case (1 head x head')
  then show ?case by (rule add_keyptr_ok)
next
  case (2 head x)
  then show ?case by (intro add_keyptr_total) auto
next
  case (3 head x)
  then obtain t where "head = Some t" by (cases head) (auto simp: uthash_elements_def)
  with 3 show ?case using delete_ok [of h t x] by (simp add: uthash_delete_def uthash_elements_def)
next
  case (4 head x)
  then show ?case by (rule find_ok)
next
  case (5 head)
  then show ?case by (auto simp: uthash_ok_def uthash_elements_def split: option.splits)
qed

lemma sorted_ok:
  assumes "uthash_ok h (Some t)"
  shows "uthash_ok h (Some (t\<lparr>ut_chain := HASH_SRT cmp (ut_chain t)\<rparr>))"
proof -
  have m: "mset (HASH_SRT cmp (ut_chain t)) = mset (ut_chain t)" by (rule mset_HASH_SRT)
  then have "length (HASH_SRT cmp (ut_chain t)) = length (ut_chain t)"
    "distinct (HASH_SRT cmp (ut_chain t)) = distinct (ut_chain t)" "HASH_SRT cmp (ut_chain t) = [] \<longleftrightarrow> ut_chain t = []"
    by (metis mset_eq_length, metis mset_eq_imp_distinct_iff, metis mset_zero_iff)
  with assms buckets_ok_mset [OF m] show ?thesis by (auto simp: uthash_ok_def)
qed

section \<open>Properties\<close>

text \<open>
  C23. The hash table behaves like the chain that the rest of the development takes for it.  Adding
  an element, even when that doubles the buckets and distributes all elements anew, gives a table
  with the element at the end of the chain, that finds exactly its elements, whatever the hash
  values are, and counts them; deleting any of them takes just that one out, and sorting the
  chain leaves the table intact.
\<close>

theorem uthash_refines_chain:
  assumes "uthash_ok h head" and "x \<notin> set (uthash_elements head)" and "length (uthash_elements head) < 2 ^ 32 - 1"
    and "heap_ok alloc" and "uthash_log2 head \<le> 30"
  shows "\<exists>t. HASH_ADD_KEYPTR alloc h x head = Ok (Some t) \<and> uthash_ok h (Some t) \<and>
    ut_chain t = HASH_ADD (uthash_elements head) x \<and> ut_num_items t = HASH_CNT (ut_chain t) \<and>
    (\<forall>y. HASH_FIND h y (Some t) = (if y \<in> set (ut_chain t) then Some y else None)) \<and>
    (\<forall>y \<in> set (ut_chain t). uthash_ok h (HASH_DELETE h y t) \<and>
       uthash_elements (HASH_DELETE h y t) = HASH_DEL (ut_chain t) y) \<and>
    (\<forall>cmp. uthash_ok h (Some (t\<lparr>ut_chain := HASH_SRT cmp (ut_chain t)\<rparr>)))"
proof -
  obtain head' where a: "HASH_ADD_KEYPTR alloc h x head = Ok head'"
    using uthash.add_total [OF assms(1-3)] assms(4,5) by blast
  then obtain t where t: "head' = Some t" by (auto simp: HASH_ADD_KEYPTR_def)
  have ok: "uthash_ok h (Some t)" "ut_chain t = HASH_ADD (uthash_elements head) x"
    using uthash.add_ok [OF assms(1-3) a] by (simp_all add: t uthash_elements_def)
  have "ut_num_items t = HASH_CNT (ut_chain t)" using ok(1) by (simp add: uthash_ok_def HASH_CNT_def)
  moreover have "HASH_FIND h y (Some t) = (if y \<in> set (ut_chain t) then Some y else None)" for y
    using uthash.lookup_ok [OF ok(1), of y] by (simp add: uthash_elements_def)
  moreover have "uthash_ok h (HASH_DELETE h y t) \<and> uthash_elements (HASH_DELETE h y t) = HASH_DEL (ut_chain t) y"
    if "y \<in> set (ut_chain t)" for y
    using uthash.del_ok [OF ok(1), of y] that by (simp add: uthash_delete_def uthash_elements_def)
  moreover have "uthash_ok h (Some (t\<lparr>ut_chain := HASH_SRT cmp (ut_chain t)\<rparr>))" for cmp
    using ok(1) by (rule sorted_ok)
  ultimately show ?thesis using a t ok by blast
qed

lemma uthash_refines_chain_witness:
  "\<exists>t. HASH_ADD_KEYPTR (\<lambda>_. True) node_hash 7 None = Ok (Some t) \<and> ut_chain t = [7] \<and>
     HASH_FIND node_hash 7 (Some t) = Some 7 \<and> HASH_FIND node_hash 8 (Some t) = None \<and>
     uthash_elements (HASH_DELETE node_hash 7 t) = []"
proof -
  have "uthash_ok node_hash None" "(7 :: int) \<notin> set (uthash_elements None)"
    "length (uthash_elements (None :: int uthash option)) < 2 ^ 32 - 1" "heap_ok (\<lambda>_. True)"
    "uthash_log2 (None :: int uthash option) \<le> 30"
    by (simp_all add: uthash_ok_def uthash_elements_def uthash_log2_def heap_ok_def)
  from uthash_refines_chain [OF this] show ?thesis
    by (auto simp: uthash_elements_def [of None] HASH_ADD_def HASH_DEL_def)
qed

end
