(* ===== verification/Spec2Isabelle.thy ===== *)
theory Spec2Isabelle
  imports Mkfs_Options Kernel_Module Kernel_Defects Unfs_Debug Unfs_Defects Uthash_Table
begin

text \<open>
  A verification of \<^bold>\<open>smashfs\<close>, a read-only compressed file system for Linux.  The
  implementation is under \<open>src/\<close>: the format in \<open>include/smashfs.h\<close>, two programs in \<open>mkfs/\<close>
  and a kernel module in \<open>linux/\<close>.

  \<^bold>\<open>The program.\<close>  \<open>mkfs.smashfs\<close> scans a directory into a table of nodes (\<open>sources_scan\<close>,
  \<open>node_new\<close>), looks for the widths that the numbers of the table need, lays the contents of all
  nodes behind each other as the entry data, has it compressed in blocks by threads (\<open>job\<close>) and
  writes the super block, the compressed inode table, the block table and the blocks
  (\<open>output_write\<close>).  The tables are streams of bit fields, written through \<open>bitbuffer.c\<close> and
  collected by \<open>buffer.c\<close>.  \<open>unfs.smashfs\<close> reads such an image and recreates the tree; the kernel
  module mounts it and answers \<open>readdir\<close>, \<open>lookup\<close> and \<open>readpage\<close>.

  \<^bold>\<open>The theories\<close>, in the order in which they build on each other.

  \<^item> \<open>Smash_Prelude\<close>: the results of C operations (\<open>Ok\<close>, \<open>Err\<close> for the error exits, \<open>Undef\<close> for
    what C gives no meaning to, \<open>Timeout\<close> for fuel that did not suffice), the checked accesses to
    memory, the integer conversions and the allocator.
  \<^item> \<open>Bitbuffer\<close> (\<open>mkfs/bitbuffer.c\<close>; \<open>linux/bitbuffer.c\<close> is the same code), \<open>Buffer\<close>
    (\<open>mkfs/buffer.c\<close>), \<open>Uthash\<close> and \<open>Uthash_Table\<close> (\<open>mkfs/uthash.h\<close>: the chain of the elements,
    and the hash table behind it, which is shown to refine the chain), \<open>Smashfs_Format\<close> (\<open>include/smashfs.h\<close>),
    \<open>Compressor\<close> (\<open>mkfs/compressor*.c\<close>): the parts that the programs share.  Their locales state
    what the clients use: \<open>bit_stream\<close>, \<open>byte_sink\<close>, \<open>key_order\<close>, \<open>element_table\<close> and \<open>codec\<close>, the contract of a
    compression method, each interpreted on the code's functions.
  \<^item> \<open>Mkfs_Node\<close>, \<open>Mkfs_Jobs\<close>, \<open>Mkfs_Write\<close> (\<open>mkfs/mkfs.c\<close>): the node structure, the threads as
    interleaved steps over one array of blocks, and \<open>output_write\<close> in the stages that its messages
    name.  \<open>Mkfs_Image\<close>, \<open>Mkfs_Correct\<close> and \<open>Mkfs_Properties\<close> prove that an image is written and
    what it is: \<open>image_ok\<close> says that super block, tables and blocks decode to the table, and is
    the specification on which all readers rest.
  \<^item> \<open>Reader\<close>, \<open>Reader_Directory\<close>: what both readers do in the same way; the locale
    \<open>block_source\<close> has their loop over the blocks of a node and is interpreted on the block reads
    of both.
  \<^item> \<open>Unfs\<close>, \<open>Unfs_Traverse\<close>, \<open>Unfs_Main\<close>, \<open>Unfs_Properties\<close> (\<open>mkfs/unfs.c\<close>): loading an
    image, the traversal as the trace of its system calls, and the options.  \<open>Unfs_Debug\<close>: what
    \<open>--debug\<close> lists of the super block and the inode table; \<open>Unfs_Defects\<close>: how the extractor
    leaves the directory it should stay in.
  \<^item> \<open>Kernel_Device\<close>, \<open>Kernel_Compressor\<close>, \<open>Kernel_Super\<close>, \<open>Kernel_Read\<close>, \<open>Kernel_Dir\<close>,
    \<open>Kernel_Listing\<close>, \<open>Kernel_Lookup\<close>, \<open>Kernel_Mount\<close>, \<open>Kernel_Properties\<close> (\<open>linux/super.c\<close>,
    \<open>linux/compressor*.c\<close>): reading the device, the inodes, mounting, directories and pages;
    \<open>Kernel_Module\<close>: loading and unloading, and the life of the inode cache as a step relation;
    \<open>Kernel_Defects\<close>: inode tables larger than a block, and memory that is short.
  \<^item> \<open>Mkfs_Scan\<close>, \<open>Mkfs_Main\<close> (\<open>mkfs/mkfs.c\<close>): the scan of the sources and \<open>main\<close>.
    \<open>Mkfs_Scan_Invariant\<close> says what every scan leaves, \<open>Mkfs_Tree\<close> what the scan of a directory
    tree leaves: \<open>stands_for\<close> relates the table to the tree.
  \<^item> \<open>Mkfs_System\<close>: the programs together, from a directory through the image to its extraction
    and to the pages that the mounted module delivers.  \<open>Mkfs_Options\<close>: what the command line
    does to the result.

  \<^bold>\<open>How state corresponds.\<close>  A C structure is a record of the same members, with a prefix where
  names would clash; an \<open>int\<close>, \<open>unsigned int\<close> or \<open>uint32_t\<close> whose wrap-around can matter is a word
  or goes through \<open>to_s32\<close> and \<open>to_u32\<close>; \<open>long long\<close> is \<open>int\<close>.  Globals are threaded: the options
  and the table of \<open>mkfs.c\<close> as the records \<open>options\<close>, \<open>config\<close> and \<open>scan\<close>, the block cache and
  the contexts of the module as the record \<open>kernel\<close>.  A pointer into the node table is the number
  of its node.  What code outside the repository answers (the allocator, the file system and its
  \<open>fts\<close> traversal, the scheduler, the compression libraries, the kernel) is an argument:
  \<open>environment\<close>, \<open>reader_env\<close>, \<open>os\<close>, \<open>libraries\<close>, \<open>kernel_env\<close>, \<open>kernel_libraries\<close>.  The main
  theorems hold for every schedule, every heap that serves requests up to 2 GB (\<open>heap_ok\<close>) and
  every method that keeps its contract (\<open>codec\<close>); theorems about errors need none of that.

  \<^bold>\<open>What is shown.\<close>  Of the parts: fields, bytes and compressed data come back as they were put
  in, the fast paths agree with the plain ones, sorting sorts, the widths are least, the loops end.
  Of the threads: no two work on a block, all blocks get compressed, the schedule does not matter.
  Of \<open>mkfs.smashfs\<close>: the table that a scan leaves is well formed and represents the directory, an
  image is written and decodes to the table.  Of the readers: the extractor recreates the tree, the
  module mounts the image, lists each entry once, finds exactly the names that are there and
  delivers the contents.  And of defects: theorems that exhibit what the code does not do as it
  means to, such as the times of the inodes, the shared block cache, the number of the root inode,
  images without contents, \<open>--jobs\<close>, inode tables larger than a block, and files that cannot be
  written.

  \<^bold>\<open>Bounds and fuel.\<close>  Tables have less than \<open>2 ^ 22\<close> nodes and contents of less than 2 GB, below
  which the arithmetic of the code is exact; the module needs in addition offsets below 2 GB and an
  inode table that fits a block (\<open>fits_module\<close>).  Fuel bounds the turns of the loops that walk
  blocks and directory bytes; a turn consumes at least one byte, so more fuel than the contents
  have bytes suffices (the theorems assume just that), and the extractor's depth bounds the
  recursion of \<open>traverse\<close> by the depth of the tree.

  \<^bold>\<open>Not modelled.\<close>  Help, and messages other than the listings of the super block and the
  inode table; the macros of \<open>uthash.h\<close> that the tools do not use (other hash functions, Bloom
  filters, selecting and clearing); the tables of function pointers that the module hands to the
  kernel; the release of memory that nothing else refers to.  The order in which
  \<open>fts_read\<close> delivers entries is documented behaviour of the C library (\<open>fts_walk\<close>): a directory,
  its children sorted by \<open>fts_compare\<close>, and the directory again.
\<close>

end
